(* ===== verification/Iwarp_Prelude.thy ===== *)
theory Iwarp_Prelude
  imports Main "HOL-Library.Word"
begin

text \<open>
  The vocabulary every component of the stack shares: machine integers, byte strings, the
  little-endian layout of integers in memory (the host is x86-64), buffers that a system call
  fills in place, and the byte-addressed memory that scatter/gather elements and registered
  buffers point into.  The lemmas are generic facts on these four notions; they are declared
  as simplification rules or collected under \<open>layout_simps\<close> and \<open>mem_simps\<close>.
\<close>

unbundle bit_operations_syntax

named_theorems layout_simps
named_theorems mem_simps

type_synonym u8 = "8 word"
type_synonym u16 = "16 word"
type_synonym u32 = "32 word"
type_synonym u64 = "64 word"
type_synonym bytes = "u8 list"
type_synonym addr = u64
type_synonym mem = "addr \<Rightarrow> u8"

section \<open>Integers as the bytes of a little-endian host\<close>

text \<open>
  \<open>le_bytes n w\<close> is the object representation of an \<open>n\<close>-byte unsigned integer; \<open>of_le\<close>
  reads such a representation back.
\<close>

fun le_bytes :: "nat \<Rightarrow> 'a::len word \<Rightarrow> bytes" where
  "le_bytes 0 w = []"
| "le_bytes (Suc n) w = ucast w # le_bytes n (drop_bit 8 w)"

fun of_le :: "bytes \<Rightarrow> 'a::len word" where
  "of_le [] = 0"
| "of_le (b # bs) = ucast b OR push_bit 8 (of_le bs)"

text \<open>
  \<open>buf_put buf i bs\<close> is the contents of a buffer after \<open>bs\<close> was stored at offset \<open>i\<close>;
  a store past the end makes the known part of the buffer longer.
\<close>

definition buf_put :: "bytes \<Rightarrow> nat \<Rightarrow> bytes \<Rightarrow> bytes" where
  "buf_put buf i bs = take i buf @ bs @ drop (i + length bs) buf"

text \<open>
  A C \<open>int\<close> passed where a \<open>size_t\<close> is expected is converted modulo \<open>2 ^ 64\<close>: a negative
  length becomes a huge one.
\<close>

definition size_of_int :: "int \<Rightarrow> nat" where
  "size_of_int n = nat (n mod 2 ^ 64)"

section \<open>Fixed-width encodings of structures\<close>

text \<open>
  The interface of a packed structure that is sent as its object representation: a fixed
  width, and decoding that undoes encoding.  What a reader of a byte stream needs (take the
  structure off the front, keep the rest) follows once here.
\<close>

locale fixed_codec =
  fixes enc :: "'a \<Rightarrow> bytes"
    and dec :: "bytes \<Rightarrow> 'a"
    and width :: nat
    and wf :: "'a \<Rightarrow> bool"
  assumes length_enc: "wf x \<Longrightarrow> length (enc x) = width"
    and dec_enc: "wf x \<Longrightarrow> dec (enc x) = x"
begin

lemma dec_prefix: "wf x \<Longrightarrow> dec (take width (enc x @ rest)) = x"
  by (simp add: length_enc dec_enc)

lemma drop_prefix: "wf x \<Longrightarrow> drop width (enc x @ rest) = rest"
  by (simp add: length_enc)

lemma enc_inject: "wf x \<Longrightarrow> wf y \<Longrightarrow> enc x = enc y \<longleftrightarrow> x = y"
  using dec_enc by metis

lemma enc_stream_inject:
  "wf x \<Longrightarrow> wf y \<Longrightarrow> enc x @ r = enc y @ s \<longleftrightarrow> x = y \<and> r = s"
  using dec_prefix drop_prefix by metis

end

section \<open>Byte-addressed memory\<close>

definition mem_read :: "mem \<Rightarrow> addr \<Rightarrow> nat \<Rightarrow> bytes" where
  "mem_read m a n = map (\<lambda>i. m (a + of_nat i)) [0..<n]"

fun mem_write :: "mem \<Rightarrow> addr \<Rightarrow> bytes \<Rightarrow> mem" where
  "mem_write m a [] = m"
| "mem_write m a (b # bs) = mem_write (m(a := b)) (a + 1) bs"

section \<open>Facts on the byte layout\<close>

lemma length_le_bytes [simp]: "length (le_bytes n w) = n"
  by (induction n arbitrary: w) auto

lemma of_le_le_bytes: "of_le (le_bytes n w) = take_bit (8 * n) (w :: 'a::len word)"
proof (induction n arbitrary: w)
  case 0
  then show ?case by simp
next
  case (Suc n)
  have "ucast (ucast w :: u8) OR push_bit 8 (take_bit (8 * n) (drop_bit 8 w)) =
        (take_bit (8 * Suc n) w :: 'a word)"
    by (rule bit_word_eqI) (auto simp: bit_simps)
  then show ?case by (simp add: Suc)
qed

lemma of_le_le_bytes_full: "LENGTH('a::len) \<le> 8 * n \<Longrightarrow> of_le (le_bytes n w) = (w :: 'a word)"
  by (simp add: of_le_le_bytes take_bit_word_eq_self)

lemma bit_u8_bound [simp]: "8 \<le> i \<Longrightarrow> \<not> bit (x :: u8) i"
  using bit_imp_le_length [of x i] by auto

lemma bit_of_le_bound:
  "bit (of_le bs :: 'a::len word) i \<Longrightarrow> i < 8 * length bs"
proof (induction bs arbitrary: i)
  case Nil
  then show ?case by simp
next
  case (Cons b bs)
  from Cons.prems have "bit b i \<or> (8 \<le> i \<and> bit (of_le bs :: 'a word) (i - 8))"
    by (auto simp: bit_simps)
  then show ?case
  proof
    assume "bit b i"
    then show ?thesis using bit_imp_le_length [of b i] by simp
  next
    assume "8 \<le> i \<and> bit (of_le bs :: 'a word) (i - 8)"
    then show ?thesis using Cons.IH [of "i - 8"] by simp
  qed
qed

lemma bit_of_le:
  "bit (of_le bs :: 'a::len word) i \<longleftrightarrow>
     i < LENGTH('a) \<and> i < 8 * length bs \<and> bit (bs ! (i div 8)) (i mod 8)"
proof (induction bs arbitrary: i)
  case Nil
  then show ?case by simp
next
  case (Cons b bs)
  show ?case
  proof (cases "i < 8")
    case True
    then show ?thesis by (auto simp: bit_simps)
  next
    case False
    then have "i div 8 = Suc ((i - 8) div 8)" and "i mod 8 = (i - 8) mod 8"
      by (auto simp: le_div_geq le_mod_geq)
    moreover have "\<not> bit b i" using False bit_imp_le_length [of b i] by auto
    ultimately show ?thesis using False Cons.IH [of "i - 8"] by (auto simp: bit_simps)
  qed
qed

lemma le_bytes_of_le:
  "8 * length bs \<le> LENGTH('a::len) \<Longrightarrow> le_bytes (length bs) (of_le bs :: 'a word) = bs"
proof (induction bs)
  case Nil
  then show ?case by simp
next
  case (Cons b bs)
  have low: "ucast (ucast b OR push_bit 8 (of_le bs) :: 'a word) = b"
    using Cons.prems by (intro bit_word_eqI) (auto simp: bit_simps)
  have high: "drop_bit 8 (ucast b OR push_bit 8 (of_le bs) :: 'a word) = of_le bs"
  proof (rule bit_word_eqI)
    fix i assume "i < LENGTH('a)"
    have "\<not> bit b (8 + i)" using bit_imp_le_length [of b "8 + i"] by auto
    moreover have "bit (of_le bs :: 'a word) i \<Longrightarrow> 8 + i < LENGTH('a)"
      using bit_of_le_bound [of bs i, where 'a = 'a] Cons.prems by auto
    ultimately show "bit (drop_bit 8 (ucast b OR push_bit 8 (of_le bs) :: 'a word)) i =
        bit (of_le bs :: 'a word) i"
      by (auto simp: bit_simps)
  qed
  show ?case using Cons low high by simp
qed

lemma le_bytes_add:
  "le_bytes (m + n) w = le_bytes m w @ le_bytes n (drop_bit (8 * m) w)"
  by (induction m arbitrary: w) (auto simp: drop_bit_drop_bit algebra_simps)

lemma nth_le_bytes: "i < n \<Longrightarrow> le_bytes n w ! i = ucast (drop_bit (8 * i) w)"
  by (induction n arbitrary: w i) (auto simp: nth_Cons drop_bit_drop_bit algebra_simps split: nat.splits)

lemma le_bytes_ucast:
  "8 * n \<le> LENGTH('b) \<Longrightarrow> le_bytes n (ucast w :: 'b::len word) = le_bytes n (w :: 'a::len word)"
proof (rule nth_equalityI)
  fix i assume n: "8 * n \<le> LENGTH('b)" and "i < length (le_bytes n (ucast w :: 'b word))"
  then have "8 * i + 8 \<le> LENGTH('b)" and i: "i < n" by auto
  then have "ucast (drop_bit (8 * i) (ucast w :: 'b word)) = (ucast (drop_bit (8 * i) w) :: u8)"
    by (intro bit_word_eqI) (auto simp: bit_simps dest: bit_imp_le_length)
  with i show "le_bytes n (ucast w :: 'b word) ! i = le_bytes n w ! i"
    by (simp add: nth_le_bytes)
qed simp

lemma of_le_append:
  "of_le (xs @ ys) = of_le xs OR push_bit (8 * length xs) (of_le ys)"
  by (induction xs) (auto simp: push_bit_or or.assoc)

lemma ucast_of_le:
  "8 * length bs \<le> LENGTH('a) \<Longrightarrow> ucast (of_le bs :: 'a::len word) = (of_le bs :: 'b::len word)"
proof (induction bs)
  case (Cons b bs)
  then have "ucast (of_le bs :: 'a word) = (of_le bs :: 'b word)" by simp
  moreover have "ucast (ucast b OR push_bit 8 w :: 'a word) = (ucast b OR push_bit 8 (ucast w) :: 'b word)"
     if "\<And>i. bit w i \<Longrightarrow> i + 8 < LENGTH('a)" "8 \<le> LENGTH('a)" for w :: "'a word"
    using that(2) by (intro bit_word_eqI) (auto simp: bit_simps dest: bit_imp_le_length that(1))
  moreover have "bit (of_le bs :: 'a word) i \<Longrightarrow> i + 8 < LENGTH('a)" for i
    using bit_of_le_bound [of bs i, where 'a = 'a] Cons.prems by auto
  ultimately show ?case using Cons.prems by auto
qed simp

lemma length_buf_put [simp]:
  "i + length bs \<le> length buf \<Longrightarrow> length (buf_put buf i bs) = length buf"
  by (simp add: buf_put_def)

lemma buf_put_end [simp]: "buf_put buf (length buf) bs = buf @ bs"
  by (simp add: buf_put_def)

lemma buf_put_whole: "length buf \<le> length bs \<Longrightarrow> buf_put buf 0 bs = bs"
  by (simp add: buf_put_def)

lemma buf_put_Nil [simp]: "buf_put buf i [] = buf"
  by (simp add: buf_put_def)

lemma size_of_int_nonneg: "0 \<le> n \<Longrightarrow> n < 2 ^ 64 \<Longrightarrow> size_of_int n = nat n"
  by (simp add: size_of_int_def)

lemma unat_ucast_up:
  assumes "LENGTH('a) \<le> LENGTH('b)"
  shows "unat (ucast (w :: 'a::len word) :: 'b::len word) = unat w"
proof -
  have "unat w < 2 ^ LENGTH('a)" by (rule unsigned_less)
  also have "(2 :: nat) ^ LENGTH('a) \<le> 2 ^ LENGTH('b)" using assms by simp
  finally show ?thesis by (simp add: unsigned_ucast_eq take_bit_nat_eq_self)
qed

section \<open>Facts on memory\<close>

lemma length_mem_read [simp]: "length (mem_read m a n) = n"
  by (simp add: mem_read_def)

lemma mem_read_0 [simp]: "mem_read m a 0 = []"
  by (simp add: mem_read_def)

lemma mem_read_add: "mem_read m a (i + j) = mem_read m a i @ mem_read m (a + of_nat i) j"
  by (rule nth_equalityI) (auto simp: mem_read_def nth_append algebra_simps)

lemma mem_write_append:
  "mem_write m a (xs @ ys) = mem_write (mem_write m a xs) (a + of_nat (length xs)) ys"
  by (induction xs arbitrary: m a) (auto simp: algebra_simps)

text \<open>What a store does to every address, as long as it does not wrap onto itself.\<close>

lemma mem_write_apply:
  "length bs \<le> 2 ^ 64 \<Longrightarrow>
   mem_write m a bs x = (if unat (x - a) < length bs then bs ! unat (x - a) else m x)"
proof (induction bs arbitrary: m a)
  case Nil
  then show ?case by simp
next
  case (Cons b bs)
  show ?case
  proof (cases "x = a")
    case True
    have "unat (x - (a + 1)) = unat (- 1 :: u64)"
      using True by simp
    also have "\<dots> = 2 ^ 64 - 1" by (simp add: unat_eq_nat_uint uint_word_ariths)
    finally have "unat (x - (a + 1)) = 2 ^ 64 - 1" .
    with True Cons show ?thesis by simp
  next
    case False
    then have "x - a \<noteq> 0" by simp
    then have "unat (x - a) = Suc (unat (x - a - 1))"
      by (metis Suc_pred' unat_gt_0 unat_minus_one)
    with False Cons show ?thesis by (simp add: diff_diff_eq)
  qed
qed

lemma mem_write_outside [mem_simps]:
  "length bs \<le> 2 ^ 64 \<Longrightarrow> length bs \<le> unat (x - a) \<Longrightarrow> mem_write m a bs x = m x"
  by (simp add: mem_write_apply)

lemma mem_read_write_same [mem_simps]:
  assumes "length bs \<le> 2 ^ 64"
  shows "mem_read (mem_write m a bs) a (length bs) = bs"
proof (rule nth_equalityI)
  fix i assume "i < length (mem_read (mem_write m a bs) a (length bs))"
  then have i: "i < length bs" by simp
  with assms have "unat (of_nat i :: u64) = i"
    by (simp add: unat_of_nat)
  with i assms show "mem_read (mem_write m a bs) a (length bs) ! i = bs ! i"
    by (simp add: mem_read_def mem_write_apply)
qed simp

section \<open>Numbers and 64-bit words\<close>

lemma unat_of_nat_u64: "i < 2 ^ 64 \<Longrightarrow> unat (of_nat i :: u64) = i"
  by (simp add: unat_of_nat)

lemma unat_u64_inj: "unat v = unat w \<Longrightarrow> v = (w :: u64)"
  by (rule unsigned_word_eqI)

lemma of_nat_u64_eq: "i < 2 ^ 64 \<Longrightarrow> j < 2 ^ 64 \<Longrightarrow> (of_nat i :: u64) = of_nat j \<longleftrightarrow> i = j"
  by (metis unat_of_nat_u64)

section \<open>One machine simulates another\<close>

text \<open>
  The contract \<open>simulation\<close> says that each step of a machine returns what the step of a simpler
  machine returns, as long as there is room; then so does every run.
\<close>

fun run_partial :: "('o \<Rightarrow> 'c \<Rightarrow> ('r \<times> 'c) option) \<Rightarrow> 'o list \<Rightarrow> 'c \<Rightarrow> ('r list \<times> 'c) option" where
  "run_partial step [] c = Some ([], c)"
| "run_partial step (op # ops) c =
     Option.bind (step op c) (\<lambda>(r, c'). Option.bind (run_partial step ops c') (\<lambda>(rs, c''). Some (r # rs, c'')))"

fun run_total :: "('o \<Rightarrow> 'a \<Rightarrow> 'r \<times> 'a) \<Rightarrow> 'o list \<Rightarrow> 'a \<Rightarrow> 'r list \<times> 'a" where
  "run_total step [] a = ([], a)"
| "run_total step (op # ops) a =
     (case step op a of (r, a') \<Rightarrow> case run_total step ops a' of (rs, a'') \<Rightarrow> (r # rs, a''))"

locale simulation =
  fixes cstep :: "'o \<Rightarrow> 'c \<Rightarrow> ('r \<times> 'c) option"
    and astep :: "'o \<Rightarrow> 'a \<Rightarrow> 'r \<times> 'a"
    and absf :: "'c \<Rightarrow> 'a"
    and valid :: "'o \<Rightarrow> bool"
    and inv :: "nat \<Rightarrow> 'c \<Rightarrow> bool"
  assumes step: "inv (Suc n) c \<Longrightarrow> valid op \<Longrightarrow>
    \<exists>r c'. cstep op c = Some (r, c') \<and> inv n c' \<and> astep op (absf c) = (r, absf c')"
begin

lemma run_simulates:
  "inv (length ops) c \<Longrightarrow> \<forall>op \<in> set ops. valid op \<Longrightarrow>
   \<exists>rs c'. run_partial cstep ops c = Some (rs, c') \<and> inv 0 c' \<and> run_total astep ops (absf c) = (rs, absf c')"
proof (induction ops arbitrary: c)
  case (Cons op ops)
  obtain r c1 where c1: "cstep op c = Some (r, c1)" "inv (length ops) c1" "astep op (absf c) = (r, absf c1)"
    using step [of "length ops" c op] Cons.prems by auto
  moreover obtain rs c' where "run_partial cstep ops c1 = Some (rs, c')" "inv 0 c'" "run_total astep ops (absf c1) = (rs, absf c')"
    using Cons.IH [OF c1(2)] Cons.prems(2) by auto
  ultimately show ?case by simp
qed auto

end

end
