(* ===== verification/Wire_Format.thy ===== *)
theory Wire_Format
  imports Iwarp_Prelude
begin

text \<open>
  \<open>common/common.h\<close>: byte order, the constants and bit fields of the MPA, DDP and RDMAP
  headers, the header structures and the inline functions that read and write their fields.
  The build is the default one: neither \<open>USE_TAS\<close> nor \<open>RPING\<close> is defined, and the host is
  little-endian, so \<open>__cpu_to_be16\<close>, \<open>htons\<close> and their kin reverse the bytes.
\<close>

named_theorems bswap_simps

section \<open>Byte order\<close>

definition cpu_to_be16 :: "u16 \<Rightarrow> u16" where
  "cpu_to_be16 x = of_le (rev (le_bytes 2 x))"

definition cpu_to_be32 :: "u32 \<Rightarrow> u32" where
  "cpu_to_be32 x = of_le (rev (le_bytes 4 x))"

abbreviation be16_to_cpu :: "u16 \<Rightarrow> u16" where "be16_to_cpu \<equiv> cpu_to_be16"
abbreviation be32_to_cpu :: "u32 \<Rightarrow> u32" where "be32_to_cpu \<equiv> cpu_to_be32"
abbreviation htons :: "u16 \<Rightarrow> u16" where "htons \<equiv> cpu_to_be16"
abbreviation ntohs :: "u16 \<Rightarrow> u16" where "ntohs \<equiv> cpu_to_be16"
abbreviation htonl :: "u32 \<Rightarrow> u32" where "htonl \<equiv> cpu_to_be32"
abbreviation ntohl :: "u32 \<Rightarrow> u32" where "ntohl \<equiv> cpu_to_be32"

text \<open>The two 64-bit macros, written as the header writes them.\<close>

definition htonll :: "u64 \<Rightarrow> u64" where
  "htonll x = push_bit 32 (ucast (htonl (ucast (x AND 0xFFFFFFFF))))
     OR ucast (htonl (ucast (drop_bit 32 x)))"

definition ntohll :: "u64 \<Rightarrow> u64" where
  "ntohll x = push_bit 32 (ucast (ntohl (ucast (x AND 0xFFFFFFFF))))
     OR ucast (ntohl (ucast (drop_bit 32 x)))"

section \<open>Constants\<close>

definition RDMAP_VERSION :: u8 where "RDMAP_VERSION = 1"
definition DDP_VERSION :: u8 where "DDP_VERSION = 1"
definition MPA_REVISION_1 :: u8 where "MPA_REVISION_1 = 1"
definition MPA_REVISION_2 :: u8 where "MPA_REVISION_2 = 2"
definition MPA_MAX_PRIVDATA :: nat where "MPA_MAX_PRIVDATA = 256"
definition MPA_RR_KEY_LEN :: nat where "MPA_RR_KEY_LEN = 16"

definition bytes_of_string :: "string \<Rightarrow> bytes" where
  "bytes_of_string s = map of_char s"

definition MPA_KEY_REQ :: bytes where
  "MPA_KEY_REQ = bytes_of_string ''MPA ID Req Frame''"

definition MPA_KEY_REP :: bytes where
  "MPA_KEY_REP = bytes_of_string ''MPA ID Rep Frame''"

section \<open>MPA request and reply headers\<close>

record mpa_rr_params =
  rr_bits :: u16
  rr_pd_len :: u16

definition MPA_RR_FLAG_MARKERS :: u16 where "MPA_RR_FLAG_MARKERS = cpu_to_be16 0x8000"
definition MPA_RR_FLAG_CRC :: u16 where "MPA_RR_FLAG_CRC = cpu_to_be16 0x4000"
definition MPA_RR_FLAG_REJECT :: u16 where "MPA_RR_FLAG_REJECT = cpu_to_be16 0x2000"
definition MPA_RR_FLAG_ENHANCED :: u16 where "MPA_RR_FLAG_ENHANCED = cpu_to_be16 0x1000"
definition MPA_RR_RESERVED :: u16 where "MPA_RR_RESERVED = cpu_to_be16 0x0f00"
definition MPA_RR_MASK_REVISION :: u16 where "MPA_RR_MASK_REVISION = cpu_to_be16 0x00ff"

record mpa_rr =
  rr_key :: bytes
  rr_params :: mpa_rr_params

definition mpa_rr_set_revision :: "u16 \<Rightarrow> u8 \<Rightarrow> u16" where
  "mpa_rr_set_revision bs rv =
     (bs AND NOT MPA_RR_MASK_REVISION) OR (cpu_to_be16 (ucast rv) AND MPA_RR_MASK_REVISION)"

definition mpa_rr_revision :: "u16 \<Rightarrow> u8" where
  "mpa_rr_revision mpa_rr_bits =
     (let rv = mpa_rr_bits AND MPA_RR_MASK_REVISION in ucast (be16_to_cpu rv))"

text \<open>The structure as it lies in memory: the key, then the two 16-bit parameters.\<close>

definition enc_mpa_rr :: "mpa_rr \<Rightarrow> bytes" where
  "enc_mpa_rr h = rr_key h @ le_bytes 2 (rr_bits (rr_params h)) @ le_bytes 2 (rr_pd_len (rr_params h))"

definition dec_mpa_rr :: "bytes \<Rightarrow> mpa_rr" where
  "dec_mpa_rr bs = \<lparr>rr_key = take 16 bs,
     rr_params = \<lparr>rr_bits = of_le (take 2 (drop 16 bs)), rr_pd_len = of_le (take 2 (drop 18 bs))\<rparr>\<rparr>"

definition sizeof_mpa_rr :: nat where "sizeof_mpa_rr = 20"

section \<open>The common control word\<close>

record iwarp_ctrl =
  mpa_len :: u16
  ddp_rdmap_ctrl :: u16

definition DDP_FLAG_TAGGED :: u16 where "DDP_FLAG_TAGGED = cpu_to_be16 0x8000"
definition DDP_FLAG_LAST :: u16 where "DDP_FLAG_LAST = cpu_to_be16 0x4000"
definition DDP_MASK_RESERVED :: u16 where "DDP_MASK_RESERVED = cpu_to_be16 0x3C00"
definition DDP_MASK_VERSION :: u16 where "DDP_MASK_VERSION = cpu_to_be16 0x0300"
definition RDMAP_MASK_VERSION :: u16 where "RDMAP_MASK_VERSION = cpu_to_be16 0x00C0"
definition RDMAP_MASK_RESERVED :: u16 where "RDMAP_MASK_RESERVED = cpu_to_be16 0x0030"
definition RDMAP_MASK_OPCODE :: u16 where "RDMAP_MASK_OPCODE = cpu_to_be16 0x000f"

definition ddp_version :: "iwarp_ctrl \<Rightarrow> u8" where
  "ddp_version ctrl =
     ucast (drop_bit 8 (be16_to_cpu (ddp_rdmap_ctrl ctrl AND DDP_MASK_VERSION)))"

definition ddp_set_version :: "iwarp_ctrl \<Rightarrow> u8 \<Rightarrow> iwarp_ctrl" where
  "ddp_set_version ctrl version = ctrl\<lparr>ddp_rdmap_ctrl :=
     (ddp_rdmap_ctrl ctrl AND NOT DDP_MASK_VERSION)
     OR (cpu_to_be16 (push_bit 8 (ucast version)) AND DDP_MASK_VERSION)\<rparr>"

definition rdmap_version :: "iwarp_ctrl \<Rightarrow> u8" where
  "rdmap_version ctrl =
     (let ver = ddp_rdmap_ctrl ctrl AND RDMAP_MASK_VERSION in ucast (drop_bit 6 (be16_to_cpu ver)))"

definition rdmap_set_version :: "iwarp_ctrl \<Rightarrow> u8 \<Rightarrow> iwarp_ctrl" where
  "rdmap_set_version ctrl version = ctrl\<lparr>ddp_rdmap_ctrl :=
     (ddp_rdmap_ctrl ctrl AND NOT RDMAP_MASK_VERSION)
     OR (cpu_to_be16 (push_bit 6 (ucast version)) AND RDMAP_MASK_VERSION)\<rparr>"

definition rdma_opcode_get :: "iwarp_ctrl \<Rightarrow> u8" where
  "rdma_opcode_get ctrl = ucast (be16_to_cpu (ddp_rdmap_ctrl ctrl AND RDMAP_MASK_OPCODE))"

definition rdmap_set_opcode :: "iwarp_ctrl \<Rightarrow> u8 \<Rightarrow> iwarp_ctrl" where
  "rdmap_set_opcode ctrl opcode = ctrl\<lparr>ddp_rdmap_ctrl :=
     (ddp_rdmap_ctrl ctrl AND NOT RDMAP_MASK_OPCODE)
     OR (cpu_to_be16 (ucast opcode) AND RDMAP_MASK_OPCODE)\<rparr>"

section \<open>The terminate header\<close>

record iwarp_terminate =
  t_ctrl :: iwarp_ctrl
  t_rsvd :: u32
  t_ddp_qn :: u32
  t_ddp_msn :: u32
  t_ddp_mo :: u32
  term_ctrl :: u32

definition RDMAP_TERM_MASK_LAYER :: u32 where "RDMAP_TERM_MASK_LAYER = cpu_to_be32 0xf0000000"
definition RDMAP_TERM_MASK_ETYPE :: u32 where "RDMAP_TERM_MASK_ETYPE = cpu_to_be32 0x0f000000"
definition RDMAP_TERM_MASK_ECODE :: u32 where "RDMAP_TERM_MASK_ECODE = cpu_to_be32 0x00ff0000"
definition RDMAP_TERM_FLAG_M :: u32 where "RDMAP_TERM_FLAG_M = cpu_to_be32 0x00008000"
definition RDMAP_TERM_FLAG_D :: u32 where "RDMAP_TERM_FLAG_D = cpu_to_be32 0x00004000"
definition RDMAP_TERM_FLAG_R :: u32 where "RDMAP_TERM_FLAG_R = cpu_to_be32 0x00002000"
definition RDMAP_TERM_MASK_RESVD :: u32 where "RDMAP_TERM_MASK_RESVD = cpu_to_be32 0x00001fff"

definition rdmap_term_layer :: "iwarp_terminate \<Rightarrow> u8" where
  "rdmap_term_layer ctrl =
     ucast (drop_bit 28 (be32_to_cpu (term_ctrl ctrl AND RDMAP_TERM_MASK_LAYER)))"

definition rdmap_term_etype :: "iwarp_terminate \<Rightarrow> u8" where
  "rdmap_term_etype ctrl =
     ucast (drop_bit 24 (be32_to_cpu (term_ctrl ctrl AND RDMAP_TERM_MASK_ETYPE)))"

definition rdmap_term_ecode :: "iwarp_terminate \<Rightarrow> u8" where
  "rdmap_term_ecode ctrl =
     ucast (drop_bit 20 (be32_to_cpu (term_ctrl ctrl AND RDMAP_TERM_MASK_ECODE)))"

section \<open>MPA revision 2, markers and trailers\<close>

definition MPA_V2_PEER_TO_PEER :: u16 where "MPA_V2_PEER_TO_PEER = cpu_to_be16 0x8000"
definition MPA_V2_ZERO_LENGTH_RTR :: u16 where "MPA_V2_ZERO_LENGTH_RTR = cpu_to_be16 0x4000"
definition MPA_V2_RDMA_WRITE_RTR :: u16 where "MPA_V2_RDMA_WRITE_RTR = cpu_to_be16 0x8000"
definition MPA_V2_RDMA_READ_RTR :: u16 where "MPA_V2_RDMA_READ_RTR = cpu_to_be16 0x4000"
definition MPA_V2_RDMA_NO_RTR :: u16 where "MPA_V2_RDMA_NO_RTR = cpu_to_be16 0x0000"
definition MPA_V2_MASK_IRD_ORD :: u16 where "MPA_V2_MASK_IRD_ORD = cpu_to_be16 0x3fff"

record mpa_v2_data =
  v2_ird :: u16
  v2_ord :: u16

record mpa_marker =
  marker_rsvd :: u16
  fpdu_hmd :: u16

record mpa_trailer =
  trailer_pad :: bytes
  trailer_crc :: u32

section \<open>The headers of the messages\<close>

text \<open>
  Every header begins with the length of the ULPDU and the DDP and RDMAP control bytes.  The
  fields are in network order; the encodings give the bytes of the structures in memory.
\<close>

definition enc_iwarp_ctrl :: "iwarp_ctrl \<Rightarrow> bytes" where
  "enc_iwarp_ctrl c = le_bytes 2 (mpa_len c) @ le_bytes 2 (ddp_rdmap_ctrl c)"

record iwarp_rdma_write =
  w_ctrl :: iwarp_ctrl
  w_sink_stag :: u32
  w_sink_to :: u64

record iwarp_rdma_rreq =
  rq_ctrl :: iwarp_ctrl
  rq_rsvd :: u32
  rq_ddp_qn :: u32
  rq_ddp_msn :: u32
  rq_ddp_mo :: u32
  rq_sink_stag :: u32
  rq_sink_to :: u64
  rq_read_size :: u32
  rq_source_stag :: u32
  rq_source_to :: u64

record iwarp_rdma_rresp =
  rs_ctrl :: iwarp_ctrl
  rs_sink_stag :: u32
  rs_sink_to :: u64

record iwarp_send =
  s_ctrl :: iwarp_ctrl
  s_rsvd :: u32
  s_ddp_qn :: u32
  s_ddp_msn :: u32
  s_ddp_mo :: u32

record iwarp_send_inv =
  si_ctrl :: iwarp_ctrl
  si_inval_stag :: u32
  si_ddp_qn :: u32
  si_ddp_msn :: u32
  si_ddp_mo :: u32

record iwarp_ctrl_untagged =
  u_ctrl :: iwarp_ctrl
  u_rsvd :: u32
  u_ddp_qn :: u32
  u_ddp_msn :: u32
  u_ddp_mo :: u32

record iwarp_ctrl_tagged =
  t_hdr_ctrl :: iwarp_ctrl
  t_ddp_stag :: u32
  t_ddp_to :: u64

definition enc_ctrl_tagged :: "iwarp_ctrl_tagged \<Rightarrow> bytes" where
  "enc_ctrl_tagged h = enc_iwarp_ctrl (t_hdr_ctrl h) @ le_bytes 4 (t_ddp_stag h) @ le_bytes 8 (t_ddp_to h)"

definition enc_ctrl_untagged :: "iwarp_ctrl_untagged \<Rightarrow> bytes" where
  "enc_ctrl_untagged h = enc_iwarp_ctrl (u_ctrl h) @ le_bytes 4 (u_rsvd h) @ le_bytes 4 (u_ddp_qn h)
     @ le_bytes 4 (u_ddp_msn h) @ le_bytes 4 (u_ddp_mo h)"

definition enc_rdma_rreq :: "iwarp_rdma_rreq \<Rightarrow> bytes" where
  "enc_rdma_rreq h = enc_iwarp_ctrl (rq_ctrl h) @ le_bytes 4 (rq_rsvd h) @ le_bytes 4 (rq_ddp_qn h)
     @ le_bytes 4 (rq_ddp_msn h) @ le_bytes 4 (rq_ddp_mo h) @ le_bytes 4 (rq_sink_stag h) @ le_bytes 8 (rq_sink_to h)
     @ le_bytes 4 (rq_read_size h) @ le_bytes 4 (rq_source_stag h) @ le_bytes 8 (rq_source_to h)"

section \<open>Error codes of a terminate message\<close>

datatype ddp_etype = DDP_ETYPE_CATASTROPHIC | DDP_ETYPE_TAGGED_BUF | DDP_ETYPE_UNTAGGED_BUF | DDP_ETYPE_RSVD

fun ddp_etype_val :: "ddp_etype \<Rightarrow> u8" where
  "ddp_etype_val DDP_ETYPE_CATASTROPHIC = 0"
| "ddp_etype_val DDP_ETYPE_TAGGED_BUF = 1"
| "ddp_etype_val DDP_ETYPE_UNTAGGED_BUF = 2"
| "ddp_etype_val DDP_ETYPE_RSVD = 3"

datatype ddp_ecode =
    DDP_ECODE_CATASTROPHIC
  | DDP_ECODE_T_INVALID_STAG | DDP_ECODE_T_BASE_BOUNDS | DDP_ECODE_T_STAG_NOT_ASSOC
  | DDP_ECODE_T_TO_WRAP | DDP_ECODE_T_DDP_VERSION
  | DDP_ECODE_UT_INVALID_QN | DDP_ECODE_UT_INVALID_MSN_NOBUF | DDP_ECODE_UT_INVALID_MSN_RANGE
  | DDP_ECODE_UT_INVALID_MO | DDP_ECODE_UT_MSG_TOOLONG | DDP_ECODE_UT_DDP_VERSION

fun ddp_ecode_val :: "ddp_ecode \<Rightarrow> u8" where
  "ddp_ecode_val DDP_ECODE_CATASTROPHIC = 0"
| "ddp_ecode_val DDP_ECODE_T_INVALID_STAG = 0"
| "ddp_ecode_val DDP_ECODE_T_BASE_BOUNDS = 1"
| "ddp_ecode_val DDP_ECODE_T_STAG_NOT_ASSOC = 2"
| "ddp_ecode_val DDP_ECODE_T_TO_WRAP = 3"
| "ddp_ecode_val DDP_ECODE_T_DDP_VERSION = 4"
| "ddp_ecode_val DDP_ECODE_UT_INVALID_QN = 1"
| "ddp_ecode_val DDP_ECODE_UT_INVALID_MSN_NOBUF = 2"
| "ddp_ecode_val DDP_ECODE_UT_INVALID_MSN_RANGE = 3"
| "ddp_ecode_val DDP_ECODE_UT_INVALID_MO = 4"
| "ddp_ecode_val DDP_ECODE_UT_MSG_TOOLONG = 5"
| "ddp_ecode_val DDP_ECODE_UT_DDP_VERSION = 6"

datatype rdmap_untagged_qn =
  RDMAP_UNTAGGED_QN_SEND | RDMAP_UNTAGGED_QN_RDMA_READ | RDMAP_UNTAGGED_QN_TERMINATE | RDMAP_UNTAGGED_QN_COUNT

fun untagged_qn_val :: "rdmap_untagged_qn \<Rightarrow> int" where
  "untagged_qn_val RDMAP_UNTAGGED_QN_SEND = 0"
| "untagged_qn_val RDMAP_UNTAGGED_QN_RDMA_READ = 1"
| "untagged_qn_val RDMAP_UNTAGGED_QN_TERMINATE = 2"
| "untagged_qn_val RDMAP_UNTAGGED_QN_COUNT = 3"

datatype rdmap_etype = RDMAP_ETYPE_CATASTROPHIC | RDMAP_ETYPE_REMOTE_PROTECTION | RDMAP_ETYPE_REMOTE_OPERATION

fun rdmap_etype_val :: "rdmap_etype \<Rightarrow> u8" where
  "rdmap_etype_val RDMAP_ETYPE_CATASTROPHIC = 0"
| "rdmap_etype_val RDMAP_ETYPE_REMOTE_PROTECTION = 1"
| "rdmap_etype_val RDMAP_ETYPE_REMOTE_OPERATION = 2"

datatype rdmap_ecode =
    RDMAP_ECODE_INVALID_STAG | RDMAP_ECODE_BASE_BOUNDS | RDMAP_ECODE_ACCESS_RIGHTS
  | RDMAP_ECODE_STAG_NOT_ASSOC | RDMAP_ECODE_TO_WRAP | RDMAP_ECODE_RDMAP_VERSION
  | RDMAP_ECODE_UNEXPECTED_OPCODE | RDMAP_ECODE_CATASTROPHIC_STREAM | RDMAP_ECODE_CATASTROPHIC_GLOBAL
  | RDMAP_ECODE_STAG_NOT_INVALIDATE | RDMAP_ECODE_UNSPECIFIED

fun rdmap_ecode_val :: "rdmap_ecode \<Rightarrow> u8" where
  "rdmap_ecode_val RDMAP_ECODE_INVALID_STAG = 0"
| "rdmap_ecode_val RDMAP_ECODE_BASE_BOUNDS = 1"
| "rdmap_ecode_val RDMAP_ECODE_ACCESS_RIGHTS = 2"
| "rdmap_ecode_val RDMAP_ECODE_STAG_NOT_ASSOC = 3"
| "rdmap_ecode_val RDMAP_ECODE_TO_WRAP = 4"
| "rdmap_ecode_val RDMAP_ECODE_RDMAP_VERSION = 5"
| "rdmap_ecode_val RDMAP_ECODE_UNEXPECTED_OPCODE = 6"
| "rdmap_ecode_val RDMAP_ECODE_CATASTROPHIC_STREAM = 7"
| "rdmap_ecode_val RDMAP_ECODE_CATASTROPHIC_GLOBAL = 8"
| "rdmap_ecode_val RDMAP_ECODE_STAG_NOT_INVALIDATE = 9"
| "rdmap_ecode_val RDMAP_ECODE_UNSPECIFIED = 0xff"

datatype rdmap_elayer = RDMAP_ERROR_LAYER_RDMA | RDMAP_ERROR_LAYER_DDP | RDMAP_ERROR_LAYER_LLP

fun rdmap_elayer_val :: "rdmap_elayer \<Rightarrow> u8" where
  "rdmap_elayer_val RDMAP_ERROR_LAYER_RDMA = 0"
| "rdmap_elayer_val RDMAP_ERROR_LAYER_DDP = 1"
| "rdmap_elayer_val RDMAP_ERROR_LAYER_LLP = 2"

datatype llp_ecode = LLP_ECODE_LOCAL_CATASTROPHIC | LLP_ECODE_INSUFFICIENT_IRD | LLP_ECODE_NO_MATCHING_RTR

fun llp_ecode_val :: "llp_ecode \<Rightarrow> u8" where
  "llp_ecode_val LLP_ECODE_LOCAL_CATASTROPHIC = 5"
| "llp_ecode_val LLP_ECODE_INSUFFICIENT_IRD = 6"
| "llp_ecode_val LLP_ECODE_NO_MATCHING_RTR = 7"

definition LLP_ETYPE_MPA :: u8 where "LLP_ETYPE_MPA = 0"

section \<open>Operation codes and work items\<close>

datatype rdma_opcode =
    RDMAP_RDMA_WRITE
  | RDMAP_RDMA_READ_REQ
  | RDMAP_RDMA_READ_RESP
  | RDMAP_SEND
  | RDMAP_SEND_INVAL
  | RDMAP_SEND_SE
  | RDMAP_SEND_SE_INVAL
  | RDMAP_TERMINATE
  | RDMAP_NOT_SUPPORTED

fun opcode_val :: "rdma_opcode \<Rightarrow> u8" where
  "opcode_val RDMAP_RDMA_WRITE = 0"
| "opcode_val RDMAP_RDMA_READ_REQ = 1"
| "opcode_val RDMAP_RDMA_READ_RESP = 2"
| "opcode_val RDMAP_SEND = 3"
| "opcode_val RDMAP_SEND_INVAL = 4"
| "opcode_val RDMAP_SEND_SE = 5"
| "opcode_val RDMAP_SEND_SE_INVAL = 6"
| "opcode_val RDMAP_TERMINATE = 7"
| "opcode_val RDMAP_NOT_SUPPORTED = 8"

text \<open>A scatter/gather element: an address in memory and a length.\<close>

record sge =
  sge_addr :: addr
  sge_length :: u32
  sge_lkey :: u32

text \<open>
  A packet being received.  The pointer \<open>ulpdu\<close> of the structure is not a field here: the
  receive operations return the bytes that they store from that pointer on.
\<close>

record siw_mpa_packet =
  ulpdu_len :: u16
  crc :: u32
  bytes_rcvd :: int

definition init_mpa_packet :: siw_mpa_packet where
  "init_mpa_packet = \<lparr>ulpdu_len = 0, crc = 0, bytes_rcvd = 0\<rparr>"

text \<open>The received half of a connection request or reply.\<close>

record siw_mpa_info =
  info_hdr :: mpa_rr
  info_pdata :: "bytes option"

section \<open>Byte order: an involution on every width\<close>

lemma bit_cpu_to_be16:
  "bit (cpu_to_be16 x) i \<longleftrightarrow> i < 16 \<and> bit x (if i < 8 then i + 8 else i - 8)"
  by (auto simp: cpu_to_be16_def numeral_2_eq_2 bit_simps add.commute)

lemma cpu_to_be16_involution [simp]: "cpu_to_be16 (cpu_to_be16 x) = x"
  by (rule bit_word_eqI) (auto simp: bit_cpu_to_be16)

lemma le_bytes_cpu_to_be16 [layout_simps]: "le_bytes 2 (cpu_to_be16 x) = rev (le_bytes 2 x)"
  using le_bytes_of_le [of "rev (le_bytes 2 x)", where 'a = 16] by (simp add: cpu_to_be16_def)

lemma le_bytes_cpu_to_be32 [layout_simps]: "le_bytes 4 (cpu_to_be32 x) = rev (le_bytes 4 x)"
  using le_bytes_of_le [of "rev (le_bytes 4 x)", where 'a = 32] by (simp add: cpu_to_be32_def)

lemma cpu_to_be32_involution [simp]: "cpu_to_be32 (cpu_to_be32 x) = x"
  by (subst cpu_to_be32_def) (simp add: le_bytes_cpu_to_be32 of_le_le_bytes_full)

lemma le_bytes_8_split:
  "le_bytes 8 (x :: u64) = le_bytes 4 (ucast x :: u32) @ le_bytes 4 (ucast (drop_bit 32 x) :: u32)"
  using le_bytes_add [of 4 4 x] by (simp add: le_bytes_ucast)

lemma htonll_bytes: "htonll x = of_le (rev (le_bytes 8 x))"
proof -
  have "ucast (x AND mask 32) = (ucast x :: u32)"
    by (rule bit_word_eqI) (auto simp: bit_simps)
  then have low: "ucast (x AND 0xFFFFFFFF) = (ucast x :: u32)"
    by (simp add: mask_eq_exp_minus_1)
  show ?thesis
    by (simp add: htonll_def low le_bytes_8_split of_le_append cpu_to_be32_def ucast_of_le
        or.commute)
qed

lemma ntohll_eq_htonll: "ntohll = htonll"
  by (simp add: fun_eq_iff ntohll_def htonll_def)

lemma le_bytes_htonll [layout_simps]: "le_bytes 8 (htonll x) = rev (le_bytes 8 x)"
  using le_bytes_of_le [of "rev (le_bytes 8 x)", where 'a = 64] by (simp add: htonll_bytes)

lemma ntohll_htonll [simp]: "ntohll (htonll x) = x"
  by (simp add: ntohll_eq_htonll htonll_bytes [of "htonll x"] le_bytes_htonll of_le_le_bytes_full)

section \<open>Bit fields of the control word\<close>

lemma cpu_to_be16_and [bswap_simps]: "cpu_to_be16 (x AND y) = cpu_to_be16 x AND cpu_to_be16 y"
  by (rule bit_word_eqI) (auto simp: bit_cpu_to_be16 bit_simps)

lemma cpu_to_be16_or [bswap_simps]: "cpu_to_be16 (x OR y) = cpu_to_be16 x OR cpu_to_be16 y"
  by (rule bit_word_eqI) (auto simp: bit_cpu_to_be16 bit_simps)

lemma cpu_to_be16_not [bswap_simps]: "cpu_to_be16 (NOT x) = NOT (cpu_to_be16 x)"
  by (rule bit_word_eqI) (auto simp: bit_cpu_to_be16 bit_simps)

lemma bit_cpu_to_be32:
  "bit (cpu_to_be32 x) i \<longleftrightarrow> i < 32 \<and> bit x (8 * (3 - i div 8) + i mod 8)"
proof (cases "i < 32")
  case True
  then have "i div 8 < 4" by auto
  then have "rev (le_bytes 4 x) ! (i div 8) = ucast (drop_bit (8 * (3 - i div 8)) x)"
    by (simp add: rev_nth nth_le_bytes)
  with True show ?thesis by (simp add: cpu_to_be32_def bit_of_le bit_simps)
next
  case False
  then show ?thesis using bit_imp_le_length [of "cpu_to_be32 x" i] by auto
qed

lemma cpu_to_be32_and [bswap_simps]: "cpu_to_be32 (x AND y) = cpu_to_be32 x AND cpu_to_be32 y"
  by (rule bit_word_eqI) (auto simp: bit_cpu_to_be32 bit_simps)

text \<open>Two bytes are equal when their eight bits are.\<close>

lemma u8_eq_iff: "(x :: u8) = y \<longleftrightarrow> (\<forall>i \<in> {0, 1, 2, 3, 4, 5, 6, 7}. bit x i = bit y i)"
proof
  assume eq: "\<forall>i \<in> {0, 1, 2, 3, 4, 5, 6, 7}. bit x i = bit y i"
  show "x = y"
  proof (rule bit_word_eqI)
    fix i :: nat assume "i < LENGTH(8)"
    then have "i \<in> {0, 1, 2, 3, 4, 5, 6, 7}" by auto
    with eq show "bit x i = bit y i" by blast
  qed
qed simp

lemma mpa_rr_revision_set: "mpa_rr_revision (mpa_rr_set_revision bs rv) = rv"
  by (simp add: mpa_rr_revision_def mpa_rr_set_revision_def MPA_RR_MASK_REVISION_def bswap_simps
      u8_eq_iff bit_simps)

lemma ddp_version_set: "ddp_version (ddp_set_version c v) = v AND 3"
  by (simp add: ddp_version_def ddp_set_version_def DDP_MASK_VERSION_def bswap_simps
      u8_eq_iff bit_simps)

lemma rdmap_version_set: "rdmap_version (rdmap_set_version c v) = v AND 3"
  by (simp add: rdmap_version_def rdmap_set_version_def RDMAP_MASK_VERSION_def bswap_simps
      u8_eq_iff bit_simps)

lemma rdma_opcode_set: "rdma_opcode_get (rdmap_set_opcode c v) = v AND 15"
  by (simp add: rdma_opcode_get_def rdmap_set_opcode_def RDMAP_MASK_OPCODE_def bswap_simps
      u8_eq_iff bit_simps)

lemmas ctrl_field_defs =
  ddp_version_def ddp_set_version_def rdmap_version_def rdmap_set_version_def
  rdma_opcode_get_def rdmap_set_opcode_def DDP_MASK_VERSION_def RDMAP_MASK_VERSION_def
  RDMAP_MASK_OPCODE_def

lemma ctrl_fields_independent:
  "ddp_version (rdmap_set_version c v) = ddp_version c"
  "ddp_version (rdmap_set_opcode c v) = ddp_version c"
  "rdmap_version (ddp_set_version c v) = rdmap_version c"
  "rdmap_version (rdmap_set_opcode c v) = rdmap_version c"
  "rdma_opcode_get (ddp_set_version c v) = rdma_opcode_get c"
  "rdma_opcode_get (rdmap_set_version c v) = rdma_opcode_get c"
  by (simp_all add: ctrl_field_defs bswap_simps u8_eq_iff bit_simps)

section \<open>Properties\<close>

text \<open>
  Each setter of the control word is read back by its getter and leaves the other fields alone.
\<close>

lemma ctrl_word_fields:
  "ddp_version (ddp_set_version c v) = v AND 3
   \<and> rdmap_version (rdmap_set_version c v) = v AND 3
   \<and> rdma_opcode_get (rdmap_set_opcode c v) = v AND 15
   \<and> ddp_version (rdmap_set_version c v) = ddp_version c \<and> ddp_version (rdmap_set_opcode c v) = ddp_version c
   \<and> rdmap_version (ddp_set_version c v) = rdmap_version c \<and> rdmap_version (rdmap_set_opcode c v) = rdmap_version c
   \<and> rdma_opcode_get (ddp_set_version c v) = rdma_opcode_get c
   \<and> rdma_opcode_get (rdmap_set_version c v) = rdma_opcode_get c"
  by (simp add: ddp_version_set rdmap_version_set rdma_opcode_set ctrl_fields_independent)

text \<open>
  The error code of a terminate message is read with a shift that loses its lower four bits.
\<close>

lemma rdmap_term_ecode_nibble:
  assumes "term_ctrl t = cpu_to_be32 (push_bit 28 (ucast (layer AND 15 :: u8)) OR push_bit 24 (ucast (etype AND 15 :: u8))
      OR push_bit 16 (ucast (ecode :: u8)))"
  shows "rdmap_term_layer t = layer AND 15 \<and> rdmap_term_etype t = etype AND 15 \<and> rdmap_term_ecode t = drop_bit 4 ecode"
  using assms
  by (simp add: rdmap_term_ecode_def rdmap_term_layer_def rdmap_term_etype_def RDMAP_TERM_MASK_ECODE_def
      RDMAP_TERM_MASK_LAYER_def RDMAP_TERM_MASK_ETYPE_def bswap_simps u8_eq_iff bit_simps)

interpretation mpa_rr_codec: fixed_codec enc_mpa_rr dec_mpa_rr sizeof_mpa_rr
  "\<lambda>h. length (rr_key h) = MPA_RR_KEY_LEN"
  by unfold_locales
    (simp_all add: enc_mpa_rr_def dec_mpa_rr_def sizeof_mpa_rr_def MPA_RR_KEY_LEN_def
      of_le_le_bytes_full)

end
