(* ===== verification/Kernel_Socket.thy ===== *)
theory Kernel_Socket
  imports Iwarp_Prelude
begin

text \<open>
  The TCP sockets the stack runs on, as the system calls \<open>recv\<close> and \<open>sendmsg\<close> present them.
  What the network does is a script held in the socket: the chunks in which the peer's bytes
  become available, moments at which nothing is available, and errors.  A stream socket may
  hand over any non-empty prefix of what the peer sent, and every such behaviour is one
  script.  When the script is used up the peer has closed the connection, and \<open>recv\<close> returns
  0 from then on.  The outcomes of \<open>sendmsg\<close> are scripted in the same way.
\<close>

named_theorems sock_simps

datatype rx_event = RxData bytes | RxErr int | RxAgain
datatype tx_event = TxAll | TxPart nat | TxErr int

record sock =
  rx :: "rx_event list"
  tx :: bytes
  tx_plan :: "tx_event list"
  errno :: int

definition EAGAIN :: int where "EAGAIN = 11"
definition ENOMEM :: int where "ENOMEM = 12"
definition EPIPE :: int where "EPIPE = 32"
definition EPROTO :: int where "EPROTO = 71"

text \<open>
  One \<open>recv\<close> of at most \<open>n > 0\<close> bytes.  With \<open>MSG_DONTWAIT\<close> (\<open>nb\<close>) a moment without data is
  the error \<open>EAGAIN\<close>; a blocking call waits over it.  The result is the return value, the
  bytes stored, the value given to \<open>errno\<close> if any, and the remaining script.
\<close>

fun recv_events :: "bool \<Rightarrow> nat \<Rightarrow> rx_event list \<Rightarrow> int \<times> bytes \<times> int option \<times> rx_event list" where
  "recv_events nb n [] = (0, [], None, [])"
| "recv_events nb n (RxData d # es) =
     (if d = [] then recv_events nb n es
      else if length d < n then (int (length d), d, None, es)
      else (int n, take n d, None, RxData (drop n d) # es))"
| "recv_events nb n (RxErr e # es) = (-1, [], Some e, es)"
| "recv_events nb n (RxAgain # es) =
     (if nb then (-1, [], Some EAGAIN, es) else recv_events nb n es)"

definition sock_recv :: "bool \<Rightarrow> nat \<Rightarrow> sock \<Rightarrow> int \<times> bytes \<times> sock" where
  "sock_recv nb n s =
     (if n = 0 then (0, [], s)
      else case recv_events nb n (rx s) of (r, bs, e, es) \<Rightarrow>
        (r, bs, s\<lparr>rx := es, errno := (case e of None \<Rightarrow> errno s | Some x \<Rightarrow> x)\<rparr>))"

text \<open>\<open>recv\<close> with \<open>MSG_WAITALL\<close>: wait until \<open>n\<close> bytes, an error or the end of the stream.\<close>

fun recv_all_events :: "nat \<Rightarrow> rx_event list \<Rightarrow> int \<times> bytes \<times> int option \<times> rx_event list" where
  "recv_all_events n [] = (0, [], None, [])"
| "recv_all_events n (RxData d # es) =
     (if length d < n
      then (case recv_all_events (n - length d) es of (r, bs, e, es') \<Rightarrow>
             if r < 0 then (if d = [] then (r, bs, e, es') else (int (length d), d, None, es))
             else (int (length d) + r, d @ bs, e, es'))
      else (int n, take n d, None, RxData (drop n d) # es))"
| "recv_all_events n (RxErr e # es) = (-1, [], Some e, es)"
| "recv_all_events n (RxAgain # es) = recv_all_events n es"

definition sock_recv_all :: "nat \<Rightarrow> sock \<Rightarrow> int \<times> bytes \<times> sock" where
  "sock_recv_all n s =
     (if n = 0 then (0, [], s)
      else case recv_all_events n (rx s) of (r, bs, e, es) \<Rightarrow>
        (r, bs, s\<lparr>rx := es, errno := (case e of None \<Rightarrow> errno s | Some x \<Rightarrow> x)\<rparr>))"

text \<open>One \<open>sendmsg\<close> of the gathered bytes \<open>bs\<close>; past the end of the plan every call sends all.\<close>

definition sock_send :: "bytes \<Rightarrow> sock \<Rightarrow> int \<times> sock" where
  "sock_send bs s =
     (case tx_plan s of
        [] \<Rightarrow> (int (length bs), s\<lparr>tx := tx s @ bs\<rparr>)
      | TxAll # p \<Rightarrow> (int (length bs), s\<lparr>tx := tx s @ bs, tx_plan := p\<rparr>)
      | TxPart k # p \<Rightarrow>
          (let n = min k (length bs)
           in (int n, s\<lparr>tx := tx s @ take n bs, tx_plan := p\<rparr>))
      | TxErr e # p \<Rightarrow> (-1, s\<lparr>tx_plan := p, errno := e\<rparr>))"

section \<open>Facts\<close>

lemma sock_recv_exact [sock_simps]:
  assumes "rx s = RxData d # es" and "n \<le> length d"
  shows "sock_recv nb n s = (int n, take n d, s\<lparr>rx := RxData (drop n d) # es\<rparr>)"
proof (cases "n = 0")
  case True
  with assms(1) have "s\<lparr>rx := RxData (drop n d) # es\<rparr> = s" by simp
  with True show ?thesis by (simp add: sock_recv_def)
next
  case False
  with assms show ?thesis by (auto simp: sock_recv_def)
qed

lemma sock_recv_skip [sock_simps]:
  "0 < n \<Longrightarrow> sock_recv nb n (s\<lparr>rx := RxData [] # es\<rparr>) = sock_recv nb n (s\<lparr>rx := es\<rparr>)"
  by (auto simp: sock_recv_def split: prod.splits option.splits)

lemma sock_recv_zero [simp]: "sock_recv nb 0 s = (0, [], s)"
  by (simp add: sock_recv_def)

lemma recv_events_bounds:
  "recv_events nb n es = (r, bs, e, es') \<Longrightarrow> 0 < n \<Longrightarrow>
   (r = -1 \<and> bs = [] \<and> e \<noteq> None) \<or> (r = int (length bs) \<and> length bs \<le> n \<and> e = None)"
  by (induction nb n es rule: recv_events.induct) (auto split: if_splits)

lemma sock_recv_bounds:
  assumes "sock_recv nb n s = (r, bs, s')"
  shows "(r = -1 \<and> bs = []) \<or> (r = int (length bs) \<and> length bs \<le> n)"
proof (cases "n = 0")
  case True
  with assms show ?thesis by simp
next
  case False
  then show ?thesis
    using assms recv_events_bounds [of nb n "rx s"]
    by (auto simp: sock_recv_def split: prod.splits)
qed

lemma sock_recv_frame:
  "sock_recv nb n s = (r, bs, s') \<Longrightarrow> tx s' = tx s \<and> tx_plan s' = tx_plan s"
  by (auto simp: sock_recv_def split: if_splits prod.splits)

lemma sock_recv_closed [sock_simps]: "rx s = [] \<Longrightarrow> sock_recv nb n s = (0, [], s)"
  by (cases s) (simp add: sock_recv_def)

lemma sock_send_all [sock_simps]:
  "tx_plan s = [] \<Longrightarrow> sock_send bs s = (int (length bs), s\<lparr>tx := tx s @ bs\<rparr>)"
  by (simp add: sock_send_def)

end
