(* ===== verification/Mpa.thy ===== *)
theory Mpa
  imports Wire_Format Kernel_Socket
begin

text \<open>
  \<open>suiw/mpa/mpa.cpp\<close> and \<open>mpa.h\<close>: the MPA layer.  It opens a connection with a request and a
  reply frame, and then carries one upper-layer PDU (ULPDU) per frame: a 16-bit length, the
  ULPDU, padding and a CRC field of zeros.  \<open>sockfd\<close> is the socket of \<open>Kernel_Socket\<close>, which
  every operation takes and returns.  A gather list is given by the contents of its elements,
  and a receive returns the bytes it stored from the \<open>ulpdu\<close> pointer on.
\<close>

section \<open>Constants\<close>

definition EMSS :: int where "EMSS = 65535"
definition MULPDU :: int where "MULPDU = EMSS - (6 + 4 * (EMSS div 512 + 1) + EMSS mod 4)"
definition MPA_HDR_SIZE :: int where "MPA_HDR_SIZE = 2"
definition MPA_CRC_SIZE :: int where "MPA_CRC_SIZE = 4"

section \<open>Connection set-up\<close>

text \<open>\<open>strncmp(a, b, n) == 0\<close> on byte strings.\<close>

fun strncmp_eq :: "nat \<Rightarrow> bytes \<Rightarrow> bytes \<Rightarrow> bool" where
  "strncmp_eq 0 xs ys = True"
| "strncmp_eq (Suc n) (x # xs) (y # ys) = (x = y \<and> (x = 0 \<or> strncmp_eq n xs ys))"
| "strncmp_eq (Suc n) xs ys = False"

definition mpa_rr_hdr :: "u8 \<Rightarrow> bool \<Rightarrow> mpa_rr" where
  "mpa_rr_hdr pd_len req =
     \<lparr>rr_key = (if req then MPA_KEY_REQ else MPA_KEY_REP),
      rr_params = \<lparr>rr_bits = mpa_rr_set_revision 0 MPA_REVISION_1,
                rr_pd_len = cpu_to_be16 (ucast pd_len)\<rparr>\<rparr>"

definition mpa_send_rr :: "sock \<Rightarrow> bytes \<Rightarrow> u8 \<Rightarrow> bool \<Rightarrow> int \<times> sock" where
  "mpa_send_rr s pdata pd_len req =
     (let hdr = mpa_rr_hdr pd_len req;
          iov = enc_mpa_rr hdr @ (if pd_len \<noteq> 0 then take (unat pd_len) pdata else [])
      in sock_send iov s)"

text \<open>
  \<open>info_pdata\<close> is \<open>None\<close> when the pointer is null; \<open>malloc_ok\<close> says whether \<open>malloc\<close> succeeds.
  The header length check compares an \<open>int\<close> with a \<open>size_t\<close>, so the count is converted first.
\<close>

definition mpa_recv_rr :: "bool \<Rightarrow> sock \<Rightarrow> siw_mpa_info \<Rightarrow> int \<times> siw_mpa_info \<times> sock" where
  "mpa_recv_rr malloc_ok s info =
     (case sock_recv False sizeof_mpa_rr s of (rcvd, bs, s1) \<Rightarrow>
      let info1 = info\<lparr>info_hdr := dec_mpa_rr (buf_put (enc_mpa_rr (info_hdr info)) 0 bs)\<rparr>
      in if size_of_int rcvd < sizeof_mpa_rr then (-1, info1, s1)
      else
        let hdr = info_hdr info1;
            pd_len = be16_to_cpu (rr_pd_len (rr_params hdr));
            is_req = strncmp_eq MPA_RR_KEY_LEN MPA_KEY_REQ (rr_key hdr)
        in if pd_len = 0 then
             (if is_req then
                (case sock_recv True 4 s1 of (rcvd, g, s2) \<Rightarrow>
                   if rcvd = -1 \<and> errno s2 = EAGAIN then (0, info1, s2)
                   else if rcvd > 0 then (rcvd, info1, s2)
                   else if rcvd < 0 then (rcvd, info1, s2)
                   else (- EPIPE, info1, s2))
              else (int sizeof_mpa_rr, info1, s1))
           else if info_pdata info1 = None \<and> \<not> malloc_ok then (- ENOMEM, info1, s1)
           else
             let buf = (case info_pdata info1 of None \<Rightarrow> [] | Some b \<Rightarrow> b)
             in case sock_recv True (if is_req then unat pd_len + 4 else unat pd_len) s1
                of (rcvd, ds, s2) \<Rightarrow>
                  let info2 = info1\<lparr>info_pdata := Some (buf_put buf 0 ds)\<rparr>
                  in if rcvd < 0 then (rcvd, info2, s2)
                     else if rcvd > int (unat pd_len) then (- EPROTO, info2, s2)
                     else (rcvd, info2, s2))"

text \<open>\<open>memset(&info, 0, sizeof(siw_mpa_info))\<close>, then the caller's buffer.\<close>

definition init_mpa_info :: "bytes option \<Rightarrow> siw_mpa_info" where
  "init_mpa_info pdata_recv =
     \<lparr>info_hdr = \<lparr>rr_key = replicate 16 0, rr_params = \<lparr>rr_bits = 0, rr_pd_len = 0\<rparr>\<rparr>,
      info_pdata = pdata_recv\<rparr>"

text \<open>
  The global \<open>mpa_protocol_version\<close> is passed in and out as \<open>ver\<close>.  The result is the return
  value, the receive buffer, the version and the socket.
\<close>

definition mpa_client_connect ::
    "bool \<Rightarrow> u8 \<Rightarrow> sock \<Rightarrow> bytes \<Rightarrow> u8 \<Rightarrow> bytes option \<Rightarrow> int \<times> bytes option \<times> u8 \<times> sock" where
  "mpa_client_connect malloc_ok ver s pdata_send pd_len pdata_recv =
     (case mpa_send_rr s pdata_send pd_len True of (ret, s1) \<Rightarrow>
      if ret < 0 then (ret, pdata_recv, ver, s1)
      else case mpa_recv_rr malloc_ok s1 (init_mpa_info pdata_recv) of (ret, info, s2) \<Rightarrow>
        if ret < 0 then (ret, info_pdata info, ver, s2)
        else (0, info_pdata info, mpa_rr_revision (rr_bits (rr_params (info_hdr info))), s2))"

definition mpa_server_accept ::
    "bool \<Rightarrow> u8 \<Rightarrow> sock \<Rightarrow> bytes \<Rightarrow> u8 \<Rightarrow> bytes option \<Rightarrow> int \<times> bytes option \<times> u8 \<times> sock" where
  "mpa_server_accept malloc_ok ver s pdata_send pd_len pdata_recv =
     (case mpa_recv_rr malloc_ok s (init_mpa_info pdata_recv) of (ret, info, s1) \<Rightarrow>
      if ret < 0 then (ret, info_pdata info, ver, s1)
      else
        let ver' = mpa_rr_revision (rr_bits (rr_params (info_hdr info)))
        in case mpa_send_rr s1 pdata_send pd_len False of (ret, s2) \<Rightarrow>
             if ret < 0 then (ret, info_pdata info, ver', s2)
             else (0, info_pdata info, ver', s2))"

section \<open>Sending a frame\<close>

text \<open>The length accumulates in a \<open>__u16\<close>, so it wraps.\<close>

definition mpa_ulpdu_len :: "bytes list \<Rightarrow> u16" where
  "mpa_ulpdu_len sg_list = foldl (\<lambda>len c. len + of_nat (length c)) 0 sg_list"

definition mpa_padding :: "int \<Rightarrow> int" where
  "mpa_padding len = (len + MPA_HDR_SIZE) mod 4"

definition mpa_frame :: "bytes list \<Rightarrow> bytes" where
  "mpa_frame sg_list =
     (let len = mpa_ulpdu_len sg_list
      in le_bytes 2 (htons len) @ concat sg_list
         @ replicate (nat (mpa_padding (uint len))) 0 @ le_bytes 4 (0 :: u32))"

definition mpa_send :: "sock \<Rightarrow> bytes list \<Rightarrow> int \<times> sock" where
  "mpa_send s sg_list =
     (if uint (mpa_ulpdu_len sg_list) > EMSS then (-1, s)
      else sock_send (mpa_frame sg_list) s)"

section \<open>Receiving a frame\<close>

text \<open>
  The length field is filled in place: the bytes received are stored behind the
  \<open>bytes_rcvd\<close> bytes that are already there.  \<open>Some r\<close> is an early return with \<open>r\<close>.
\<close>

definition mpa_recv_header :: "sock \<Rightarrow> siw_mpa_packet \<Rightarrow> int option \<times> siw_mpa_packet \<times> sock" where
  "mpa_recv_header s info =
     (if bytes_rcvd info < MPA_HDR_SIZE then
        let have = bytes_rcvd info
        in case sock_recv False (size_of_int (MPA_HDR_SIZE - have)) s of (rcvd, bs, s1) \<Rightarrow>
           let raw = of_le (buf_put (le_bytes 2 (ulpdu_len info)) (nat have) bs)
           in if rcvd < MPA_HDR_SIZE - have then (Some (-1), info\<lparr>ulpdu_len := raw\<rparr>, s1)
              else (None, info\<lparr>ulpdu_len := ntohs raw, bytes_rcvd := MPA_HDR_SIZE\<rparr>, s1)
      else (None, info, s))"

text \<open>
  The \<open>do ... while\<close> loop that reads the payload.  Every turn adds the return value of
  \<open>recv\<close> to \<open>rcvd\<close>, the error value \<open>-1\<close> and the end-of-stream value \<open>0\<close> included, and the
  loop leaves early only when the sum is not positive.  It may therefore run forever, which
  is the value \<open>None\<close>.
\<close>

partial_function (option) mpa_read_loop ::
    "int \<Rightarrow> int \<Rightarrow> bytes \<Rightarrow> sock \<Rightarrow> (int \<times> bytes \<times> sock) option" where
  "mpa_read_loop want rcvd buf s =
     (case sock_recv False (size_of_int (want - rcvd)) s of (r, bs, s1) \<Rightarrow>
      if rcvd + r \<le> 0 then Some (rcvd + r, buf_put buf (nat rcvd) bs, s1)
      else if rcvd + r < want then mpa_read_loop want (rcvd + r) (buf_put buf (nat rcvd) bs) s1
      else Some (rcvd + r, buf_put buf (nat rcvd) bs, s1))"

definition mpa_recv_trailers :: "sock \<Rightarrow> siw_mpa_packet \<Rightarrow> int \<times> siw_mpa_packet \<times> sock" where
  "mpa_recv_trailers s info =
     (let padding_len = mpa_padding (uint (ulpdu_len info))
      in case sock_recv False (size_of_int padding_len) s of (rcvd, bs, s1) \<Rightarrow>
         let info1 = info\<lparr>crc := of_le (buf_put (le_bytes 4 (crc info)) 0 bs)\<rparr>
         in if rcvd < padding_len then (-1, info1, s1)
            else
              let info2 = info1\<lparr>bytes_rcvd := bytes_rcvd info1 + rcvd\<rparr>
              in case sock_recv False (size_of_int MPA_CRC_SIZE) s1 of (rcvd, bs, s2) \<Rightarrow>
                 let info3 = info2\<lparr>crc := of_le (buf_put (le_bytes 4 (crc info2)) 0 bs)\<rparr>
                 in if rcvd \<noteq> MPA_CRC_SIZE then (-1, info3, s2)
                    else
                      let info4 = info3\<lparr>bytes_rcvd := bytes_rcvd info3 + rcvd\<rparr>
                      in (bytes_rcvd info4, info4, s2))"

definition mpa_recv ::
    "sock \<Rightarrow> siw_mpa_packet \<Rightarrow> int \<Rightarrow> (int \<times> bytes \<times> siw_mpa_packet \<times> sock) option" where
  "mpa_recv s info num_bytes =
     (case mpa_recv_header s info of
        (Some e, info1, s1) \<Rightarrow> Some (e, [], info1, s1)
      | (None, info1, s1) \<Rightarrow>
          let packet_len = uint (ulpdu_len info1)
          in if packet_len \<le> 0 then Some (-2, [], info1, s1)
          else
            let ulpdu_rem_size = packet_len - (bytes_rcvd info1 - MPA_HDR_SIZE);
                read_trailers = ulpdu_rem_size \<le> num_bytes;
                num_bytes_to_read = (if read_trailers then ulpdu_rem_size else num_bytes)
            in Option.bind (mpa_read_loop num_bytes_to_read 0 [] s1) (\<lambda>(rcvd, buf, s2).
                 if rcvd \<noteq> num_bytes_to_read then Some (-1, buf, info1, s2)
                 else
                   let info2 = info1\<lparr>bytes_rcvd := bytes_rcvd info1 + rcvd\<rparr>
                   in if read_trailers
                      then (case mpa_recv_trailers s2 info2 of
                              (r, info3, s3) \<Rightarrow> Some (r, buf, info3, s3))
                      else Some (bytes_rcvd info2, buf, info2, s2)))"

section \<open>The payload loop\<close>

lemma size_of_int_of_nat: "n < 2 ^ 64 \<Longrightarrow> size_of_int (int n) = n"
  by (simp add: size_of_int_nonneg)

lemma mpa_read_loop_step:
  assumes "sock_recv False (size_of_int (want - rcvd)) s = (r, bs, s1)"
    and "0 < rcvd + r" and "rcvd + r < want"
  shows "mpa_read_loop want rcvd buf s =
    mpa_read_loop want (rcvd + r) (buf_put buf (nat rcvd) bs) s1"
  using assms by (subst mpa_read_loop.simps) simp

text \<open>
  However the network cuts the payload into chunks, the loop stores exactly its bytes, in
  order, and leaves what follows them unread.
\<close>

lemma mpa_read_loop_chunks:
  assumes "rx s = map RxData cs @ RxData d # es" and "[] \<notin> set cs"
    and "rcvd = int (length buf)" and "want = rcvd + int (length (concat cs)) + int k"
    and "0 < k" and "k \<le> length d" and "want < 2 ^ 64"
  shows "mpa_read_loop want rcvd buf s =
    Some (want, buf @ concat cs @ take k d, s\<lparr>rx := RxData (drop k d) # es\<rparr>)"
  using assms
proof (induction cs arbitrary: s rcvd buf)
  case Nil
  then have "want - rcvd = int k" and "k < 2 ^ 64" by auto
  then have n: "size_of_int (want - rcvd) = k" by (simp add: size_of_int_of_nat)
  show ?case
    using Nil n by (subst mpa_read_loop.simps) (simp add: sock_recv_exact)
next
  case (Cons c cs)
  let ?n = "size_of_int (want - rcvd)"
  have n: "?n = length c + length (concat cs) + k"
    using Cons.prems by (simp add: size_of_int_def)
  have c: "c \<noteq> []" using Cons.prems by auto
  let ?s = "s\<lparr>rx := map RxData cs @ RxData d # es\<rparr>"
  have r: "sock_recv False ?n s = (int (length c), c, ?s)"
    using Cons.prems(1,5) n c by (auto simp: sock_recv_def)
  have "mpa_read_loop want rcvd buf s = mpa_read_loop want (rcvd + int (length c)) (buf @ c) ?s"
    using mpa_read_loop_step [OF r, of buf] Cons.prems(3-) c by (auto simp: neq_Nil_conv)
  also have "\<dots> = Some (want, (buf @ c) @ concat cs @ take k d, ?s\<lparr>rx := RxData (drop k d) # es\<rparr>)"
    using Cons.prems by (intro Cons.IH) auto
  finally show ?case by simp
qed

lemma mpa_read_loop_one:
  assumes "rx s = RxData d # es" and "0 < k" and "k \<le> length d" and "k < 2 ^ 64"
  shows "mpa_read_loop (int k) 0 [] s = Some (int k, take k d, s\<lparr>rx := RxData (drop k d) # es\<rparr>)"
  using mpa_read_loop_chunks [of s "[]" d es 0 "[]" "int k" k] assms by simp

text \<open>Once the peer has closed the connection inside a payload, the loop never returns.\<close>

lemma mpa_read_loop_closed:
  assumes "rx s = []" and "0 < rcvd" and "rcvd < want"
  shows "mpa_read_loop want rcvd buf s = None"
proof (rule ccontr)
  assume "mpa_read_loop want rcvd buf s \<noteq> None"
  then obtain y where "mpa_read_loop want rcvd buf s = Some y" by auto
  then have "\<not> (rx s = [] \<and> 0 < rcvd \<and> rcvd < want)"
    by (rule mpa_read_loop.raw_induct [rotated]) (auto simp: sock_recv_closed)
  with assms show False by simp
qed

lemma mpa_read_loop_truncated:
  assumes "rx s = map RxData cs" and "[] \<notin> set cs" and "rcvd = int (length buf)"
    and "0 < rcvd + int (length (concat cs))" and "rcvd + int (length (concat cs)) < want"
    and "want < 2 ^ 64"
  shows "mpa_read_loop want rcvd buf s = None"
  using assms
proof (induction cs arbitrary: s rcvd buf)
  case Nil
  then show ?case by (simp add: mpa_read_loop_closed)
next
  case (Cons c cs)
  let ?n = "size_of_int (want - rcvd)"
  have n: "length c < ?n" and c: "c \<noteq> []"
    using Cons.prems by (auto simp: size_of_int_def)
  let ?s = "s\<lparr>rx := map RxData cs\<rparr>"
  have r: "sock_recv False ?n s = (int (length c), c, ?s)"
    using Cons.prems(1) n c by (auto simp: sock_recv_def)
  have "mpa_read_loop want rcvd buf s = mpa_read_loop want (rcvd + int (length c)) (buf @ c) ?s"
    using mpa_read_loop_step [OF r, of buf] Cons.prems(3-) c by (auto simp: neq_Nil_conv)
  also have "\<dots> = None"
    using Cons.prems by (intro Cons.IH) auto
  finally show ?case .
qed

section \<open>Reading one frame in pieces\<close>

lemma mpa_recv_first:
  assumes "bytes_rcvd p = 0" and "rx s = RxData (le_bytes 2 (htons len) @ d) # es"
  shows "mpa_recv s p n =
    mpa_recv (s\<lparr>rx := RxData d # es\<rparr>) (p\<lparr>ulpdu_len := len, bytes_rcvd := 2\<rparr>) n"
proof -
  have "sock_recv False (size_of_int (MPA_HDR_SIZE - 0)) s =
      (2, le_bytes 2 (htons len), s\<lparr>rx := RxData d # es\<rparr>)"
    using assms(2) by (simp add: size_of_int_def MPA_HDR_SIZE_def sock_recv_exact)
  moreover have "of_le (buf_put (le_bytes 2 (ulpdu_len p)) (nat 0) (le_bytes 2 (htons len))) = htons len"
    by (simp add: buf_put_whole of_le_le_bytes_full)
  ultimately have "mpa_recv_header s p =
      (None, p\<lparr>ulpdu_len := len, bytes_rcvd := 2\<rparr>, s\<lparr>rx := RxData d # es\<rparr>)"
    using assms(1) by (simp add: mpa_recv_header_def MPA_HDR_SIZE_def)
  moreover have "mpa_recv_header (s\<lparr>rx := RxData d # es\<rparr>) (p\<lparr>ulpdu_len := len, bytes_rcvd := 2\<rparr>) =
      (None, p\<lparr>ulpdu_len := len, bytes_rcvd := 2\<rparr>, s\<lparr>rx := RxData d # es\<rparr>)"
    by (simp add: mpa_recv_header_def MPA_HDR_SIZE_def)
  ultimately show ?thesis by (simp add: mpa_recv_def)
qed

lemma mpa_recv_header_done:
  "2 \<le> bytes_rcvd p \<Longrightarrow> mpa_recv_header s p = (None, p, s)"
  by (simp add: mpa_recv_header_def MPA_HDR_SIZE_def)

lemma uint_ulpdu_len_bound: "uint (w :: u16) < 65536"
  using uint_bounded [of w] by simp

lemma mpa_recv_mid:
  assumes "bytes_rcvd p = 2 + int k" and "rx s = RxData (b @ d) # es" and "b \<noteq> []"
    and "int k + int (length b) < uint (ulpdu_len p)"
  shows "mpa_recv s p (int (length b)) =
    Some (2 + int k + int (length b), b, p\<lparr>bytes_rcvd := 2 + int k + int (length b)\<rparr>,
          s\<lparr>rx := RxData d # es\<rparr>)"
proof -
  have "length b < 2 ^ 64" using assms(4) uint_ulpdu_len_bound [of "ulpdu_len p"] by simp
  then have "mpa_read_loop (int (length b)) 0 [] s =
      Some (int (length b), b, s\<lparr>rx := RxData d # es\<rparr>)"
    using mpa_read_loop_one [OF assms(2), of "length b"] assms(3) by simp
  with assms show ?thesis
    by (simp add: mpa_recv_def mpa_recv_header_done MPA_HDR_SIZE_def Let_def)
qed

definition mpa_trailer :: "int \<Rightarrow> bytes" where
  "mpa_trailer len = replicate (nat (mpa_padding len)) 0 @ le_bytes 4 (0 :: u32)"

lemma mpa_recv_trailers_ok:
  assumes "rx s = RxData (mpa_trailer (uint (ulpdu_len p)) @ d) # es"
  shows "mpa_recv_trailers s p =
    (bytes_rcvd p + mpa_padding (uint (ulpdu_len p)) + 4,
     p\<lparr>crc := 0, bytes_rcvd := bytes_rcvd p + mpa_padding (uint (ulpdu_len p)) + 4\<rparr>,
     s\<lparr>rx := RxData d # es\<rparr>)"
proof -
  let ?p = "mpa_padding (uint (ulpdu_len p))"
  let ?z = "le_bytes 4 (0 :: u32)"
  have pad: "0 \<le> ?p" "?p < 4" by (auto simp: mpa_padding_def)
  let ?s1 = "s\<lparr>rx := RxData (?z @ d) # es\<rparr>"
  have r1: "sock_recv False (size_of_int ?p) s = (?p, replicate (nat ?p) 0, ?s1)"
    using assms pad by (simp add: size_of_int_nonneg sock_recv_exact mpa_trailer_def)
  have r2: "sock_recv False (size_of_int MPA_CRC_SIZE) ?s1 = (MPA_CRC_SIZE, ?z, s\<lparr>rx := RxData d # es\<rparr>)"
    by (simp add: MPA_CRC_SIZE_def size_of_int_def sock_recv_exact)
  have "buf_put b 0 ?z = ?z" if "length b = 4" for b
    using that by (simp add: buf_put_whole)
  then have "mpa_recv_trailers s p =
    (bytes_rcvd p + ?p + MPA_CRC_SIZE,
     p\<lparr>crc := 0, bytes_rcvd := bytes_rcvd p + ?p + MPA_CRC_SIZE\<rparr>, s\<lparr>rx := RxData d # es\<rparr>)"
    by (simp add: mpa_recv_trailers_def r1 r2 Let_def of_le_le_bytes_full)
  then show ?thesis by (simp add: MPA_CRC_SIZE_def)
qed

lemma mpa_recv_last:
  assumes "bytes_rcvd p = 2 + int k"
    and "rx s = RxData (b @ mpa_trailer (uint (ulpdu_len p)) @ d) # es" and "b \<noteq> []"
    and "int k + int (length b) = uint (ulpdu_len p)" and "int (length b) \<le> n"
  shows "mpa_recv s p n =
    Some (2 + uint (ulpdu_len p) + mpa_padding (uint (ulpdu_len p)) + 4, b,
          p\<lparr>crc := 0,
            bytes_rcvd := 2 + uint (ulpdu_len p) + mpa_padding (uint (ulpdu_len p)) + 4\<rparr>,
          s\<lparr>rx := RxData d # es\<rparr>)"
proof -
  have "length b < 2 ^ 64" using assms(4) uint_ulpdu_len_bound [of "ulpdu_len p"] by simp
  then have loop: "mpa_read_loop (int (length b)) 0 [] s = Some (int (length b), b,
      s\<lparr>rx := RxData (mpa_trailer (uint (ulpdu_len p)) @ d) # es\<rparr>)"
    using mpa_read_loop_one [OF assms(2), of "length b"] assms(3) by simp
  have pos: "0 < int k + int (length b)" using assms(3) by (cases b) auto
  have tr: "mpa_recv_trailers (s\<lparr>rx := RxData (mpa_trailer (int k + int (length b)) @ d) # es\<rparr>)
      (p\<lparr>bytes_rcvd := 2 + (int k + int (length b))\<rparr>) =
     (6 + (int k + (int (length b) + mpa_padding (int k + int (length b)))),
      p\<lparr>crc := 0, bytes_rcvd := 6 + (int k + (int (length b) + mpa_padding (int k + int (length b))))\<rparr>,
      s\<lparr>rx := RxData d # es\<rparr>)"
    by (subst mpa_recv_trailers_ok [where d = d and es = es]) (simp_all add: assms(4) [symmetric])
  show ?thesis
    using pos tr loop
    by (simp add: mpa_recv_def mpa_recv_header_done MPA_HDR_SIZE_def Let_def assms(1,5)
        assms(4) [symmetric] add.assoc)
qed

section \<open>Frames\<close>

lemma mpa_ulpdu_len_concat: "mpa_ulpdu_len sgs = of_nat (length (concat sgs))"
proof -
  have "foldl (\<lambda>len c. len + of_nat (length c)) l sgs = l + (of_nat (length (concat sgs)) :: u16)" for l
    by (induction sgs arbitrary: l) auto
  then show ?thesis by (simp add: mpa_ulpdu_len_def)
qed

lemma uint_of_nat_u16: "n < 65536 \<Longrightarrow> uint (of_nat n :: u16) = int n"
  by (simp add: uint_nat unat_of_nat)

lemma uint_mpa_ulpdu_len:
  "length (concat sgs) < 65536 \<Longrightarrow> uint (mpa_ulpdu_len sgs) = int (length (concat sgs))"
  by (simp add: mpa_ulpdu_len_concat uint_of_nat_u16)

lemma mpa_frame_eq:
  "mpa_frame sgs = le_bytes 2 (htons (mpa_ulpdu_len sgs)) @ concat sgs
     @ mpa_trailer (uint (mpa_ulpdu_len sgs))"
  by (simp add: mpa_frame_def mpa_trailer_def Let_def)

lemma mpa_send_ok:
  "tx_plan s = [] \<Longrightarrow>
   mpa_send s sgs = (int (length (mpa_frame sgs)), s\<lparr>tx := tx s @ mpa_frame sgs\<rparr>)"
  using uint_ulpdu_len_bound [of "mpa_ulpdu_len sgs"]
  by (simp add: mpa_send_def EMSS_def sock_send_all)

lemma mpa_frame_len16:
  assumes "length (concat sgs) < 65536"
  shows "length (mpa_frame sgs) = 2 + length (concat sgs)
    + nat (mpa_padding (int (length (concat sgs)))) + 4"
  using assms by (simp add: mpa_frame_eq mpa_trailer_def uint_mpa_ulpdu_len)

section \<open>Connection set-up\<close>

lemma mpa_rr_hdr_key [simp]: "length (rr_key (mpa_rr_hdr n req)) = 16"
  by (simp add: mpa_rr_hdr_def MPA_KEY_REQ_def MPA_KEY_REP_def bytes_of_string_def)

lemma mpa_rr_hdr_is_req: "strncmp_eq MPA_RR_KEY_LEN MPA_KEY_REQ (rr_key (mpa_rr_hdr n req)) = req"
proof -
  have "strncmp_eq MPA_RR_KEY_LEN MPA_KEY_REQ MPA_KEY_REQ" by code_simp
  moreover have "\<not> strncmp_eq MPA_RR_KEY_LEN MPA_KEY_REQ MPA_KEY_REP" by code_simp
  ultimately show ?thesis by (simp add: mpa_rr_hdr_def)
qed

lemma mpa_rr_hdr_pd_len: "be16_to_cpu (rr_pd_len (rr_params (mpa_rr_hdr n req))) = ucast n"
  by (simp add: mpa_rr_hdr_def)

lemma mpa_rr_hdr_revision: "mpa_rr_revision (rr_bits (rr_params (mpa_rr_hdr n req))) = 1"
  by (simp add: mpa_rr_hdr_def mpa_rr_revision_set MPA_REVISION_1_def)

lemma length_enc_mpa_rr_hdr [simp]: "length (enc_mpa_rr (mpa_rr_hdr n req)) = 20"
  using mpa_rr_codec.length_enc [of "mpa_rr_hdr n req"]
  by (simp add: MPA_RR_KEY_LEN_def sizeof_mpa_rr_def)

lemma mpa_send_rr_ok:
  assumes "tx_plan s = []" and "length pd \<le> 255"
  shows "mpa_send_rr s pd (of_nat (length pd)) req =
    (20 + int (length pd), s\<lparr>tx := tx s @ enc_mpa_rr (mpa_rr_hdr (of_nat (length pd)) req) @ pd\<rparr>)"
proof -
  have n: "unat (of_nat (length pd) :: u8) = length pd"
    using assms(2) by (simp add: unat_of_nat)
  have "(of_nat (length pd) :: u8) = 0 \<longleftrightarrow> unat (of_nat (length pd) :: u8) = 0"
    by (rule unat_0_iff [symmetric])
  then have z: "(of_nat (length pd) :: u8) = 0 \<longleftrightarrow> pd = []"
    by (simp only: n) simp
  show ?thesis
    unfolding mpa_send_rr_def Let_def sock_send_all [OF assms(1)] z n
    by (cases "pd = []") simp_all
qed

lemma mpa_recv_rr_header:
  assumes "rx s = RxData (enc_mpa_rr (mpa_rr_hdr n req) @ d) # es"
    and "length (rr_key (info_hdr info)) = 16"
  shows "sock_recv False sizeof_mpa_rr s =
      (20, enc_mpa_rr (mpa_rr_hdr n req), s\<lparr>rx := RxData d # es\<rparr>)"
    and "dec_mpa_rr (buf_put (enc_mpa_rr (info_hdr info)) 0 (enc_mpa_rr (mpa_rr_hdr n req))) =
      mpa_rr_hdr n req"
proof -
  show "sock_recv False sizeof_mpa_rr s =
      (20, enc_mpa_rr (mpa_rr_hdr n req), s\<lparr>rx := RxData d # es\<rparr>)"
    using assms(1) by (simp add: sizeof_mpa_rr_def sock_recv_exact)
  have "length (enc_mpa_rr (info_hdr info)) = 20"
    using mpa_rr_codec.length_enc [of "info_hdr info"] assms(2)
    by (simp add: MPA_RR_KEY_LEN_def sizeof_mpa_rr_def)
  then show "dec_mpa_rr (buf_put (enc_mpa_rr (info_hdr info)) 0 (enc_mpa_rr (mpa_rr_hdr n req))) =
      mpa_rr_hdr n req"
    by (simp add: buf_put_whole mpa_rr_codec.dec_enc MPA_RR_KEY_LEN_def)
qed

text \<open>What \<open>mpa_recv_rr\<close> does once a well-formed header is in.\<close>

lemma mpa_recv_rr_body:
  fixes info n req d es
  defines "info1 \<equiv> info\<lparr>info_hdr := mpa_rr_hdr n req\<rparr>"
  assumes "rx s = RxData (enc_mpa_rr (mpa_rr_hdr n req) @ d) # es"
    and "length (rr_key (info_hdr info)) = 16"
  shows "mpa_recv_rr mok s info =
    (let s1 = s\<lparr>rx := RxData d # es\<rparr>; pd_len = ucast n :: u16 in
     if pd_len = 0 then
       (if req then
          (case sock_recv True 4 s1 of (rcvd, g, s2) \<Rightarrow>
             if rcvd = -1 \<and> errno s2 = EAGAIN then (0, info1, s2)
             else if rcvd > 0 then (rcvd, info1, s2)
             else if rcvd < 0 then (rcvd, info1, s2)
             else (- EPIPE, info1, s2))
        else (20, info1, s1))
     else if info_pdata info = None \<and> \<not> mok then (- ENOMEM, info1, s1)
     else case sock_recv True (if req then unat pd_len + 4 else unat pd_len) s1 of (rcvd, ds, s2) \<Rightarrow>
       let info2 = info1\<lparr>info_pdata :=
             Some (buf_put (case info_pdata info of None \<Rightarrow> [] | Some b \<Rightarrow> b) 0 ds)\<rparr>
       in if rcvd < 0 then (rcvd, info2, s2)
          else if rcvd > int (unat pd_len) then (- EPROTO, info2, s2)
          else (rcvd, info2, s2))"
proof -
  note hdr = mpa_recv_rr_header [OF assms(2,3)]
  have twenty: "size_of_int 20 < sizeof_mpa_rr \<longleftrightarrow> False" "int sizeof_mpa_rr = 20"
    by (simp_all add: size_of_int_def sizeof_mpa_rr_def)
  show ?thesis
    unfolding mpa_recv_rr_def hdr(1) prod.case Let_def hdr(2) twenty if_False info1_def
    by (simp add: mpa_rr_hdr_pd_len mpa_rr_hdr_is_req cong: if_cong prod.case_cong)
qed

text \<open>A frame without private data: a reply is accepted, a request needs a quiet socket.\<close>

lemma mpa_recv_rr_no_data:
  assumes "rx s = RxData (enc_mpa_rr (mpa_rr_hdr 0 req)) # es"
    and "length (rr_key (info_hdr info)) = 16" and "req \<Longrightarrow> es = RxAgain # es'"
  shows "mpa_recv_rr mok s info =
    (if req then 0 else 20, info\<lparr>info_hdr := mpa_rr_hdr 0 req\<rparr>,
     if req then s\<lparr>rx := es', errno := EAGAIN\<rparr> else s\<lparr>rx := RxData [] # es\<rparr>)"
proof -
  have "rx s = RxData (enc_mpa_rr (mpa_rr_hdr 0 req) @ []) # es" using assms(1) by simp
  note body = mpa_recv_rr_body [OF this assms(2)]
  have quiet: "sock_recv True 4 (s\<lparr>rx := RxData [] # es\<rparr>) = (-1, [], s\<lparr>rx := es', errno := EAGAIN\<rparr>)"
    if req using assms(3) [OF that] by (simp add: sock_recv_def)
  then show ?thesis unfolding body Let_def by (cases req) simp_all
qed

lemma mpa_recv_rr_with_data:
  assumes "rx s = RxData (enc_mpa_rr (mpa_rr_hdr (of_nat (length pd)) req) @ pd) # es"
    and "length (rr_key (info_hdr info)) = 16" and "pd \<noteq> []" and "length pd \<le> 255"
    and "info_pdata info = None"
  shows "\<exists>s'. mpa_recv_rr True s info = (int (length pd),
      info\<lparr>info_hdr := mpa_rr_hdr (of_nat (length pd)) req, info_pdata := Some pd\<rparr>, s')
      \<and> tx s' = tx s \<and> tx_plan s' = tx_plan s"
proof -
  let ?n = "of_nat (length pd) :: u8"
  note body = mpa_recv_rr_body [OF assms(1,2)]
  have n: "unat (ucast ?n :: u16) = length pd"
    using assms(4) by (simp add: unat_ucast_up unat_of_nat)
  have nz: "(ucast ?n :: u16) \<noteq> 0"
  proof
    assume "(ucast ?n :: u16) = 0"
    with n show False using assms(3) by simp
  qed
  let ?s1 = "s\<lparr>rx := RxData pd # es\<rparr>"
  obtain s' where r: "sock_recv True (if req then length pd + 4 else length pd) ?s1 =
      (int (length pd), pd, s')"
    using assms(3) by (cases req) (auto simp: sock_recv_def)
  from sock_recv_frame [OF r] have s': "tx s' = tx s" "tx_plan s' = tx_plan s" by simp_all
  have "mpa_recv_rr True s info = (int (length pd),
      info\<lparr>info_hdr := mpa_rr_hdr ?n req, info_pdata := Some pd\<rparr>, s')"
    unfolding body Let_def n using assms(5) nz
    by (simp only: r if_False prod.case not_True_eq_False simp_thms option.case) (simp add: buf_put_def)
  with s' show ?thesis by blast
qed


section \<open>Properties of frames\<close>

text \<open>
  A reader that takes one ULPDU in several \<open>mpa_recv\<close> calls, as \<open>ddp_recv\<close> does: one call per
  size, each result appended to the bytes already taken.
\<close>

fun mpa_recv_seq ::
    "sock \<Rightarrow> siw_mpa_packet \<Rightarrow> int list \<Rightarrow> (int list \<times> bytes \<times> siw_mpa_packet \<times> sock) option" where
  "mpa_recv_seq s p [] = Some ([], [], p, s)"
| "mpa_recv_seq s p (n # ns) =
     Option.bind (mpa_recv s p n) (\<lambda>(r, b, p1, s1).
       Option.bind (mpa_recv_seq s1 p1 ns) (\<lambda>(rs, bs, p2, s2). Some (r # rs, b @ bs, p2, s2)))"

lemma mpa_recv_seq_pieces:
  assumes "bytes_rcvd p = 2 + int k" and "ps \<noteq> []" and "[] \<notin> set ps"
    and "rx s = RxData (concat ps @ mpa_trailer (uint (ulpdu_len p)) @ d) # es"
    and "int k + int (length (concat ps)) = uint (ulpdu_len p)"
  shows "\<exists>rs p'. mpa_recv_seq s p (map (\<lambda>b. int (length b)) ps) =
      Some (rs, concat ps, p', s\<lparr>rx := RxData d # es\<rparr>)
    \<and> ulpdu_len p' = ulpdu_len p
    \<and> bytes_rcvd p' = 2 + uint (ulpdu_len p) + mpa_padding (uint (ulpdu_len p)) + 4"
  using assms
proof (induction ps arbitrary: s p k)
  case (Cons b ps)
  let ?t = "mpa_trailer (uint (ulpdu_len p)) @ d"
  show ?case
  proof (cases "ps = []")
    case True
    then show ?thesis
      using mpa_recv_last [of p k s b d es "int (length b)"] Cons.prems by simp
  next
    case False
    then have "0 < length (concat ps)" using Cons.prems(3) by (cases ps) auto
    then have lt: "int k + int (length b) < uint (ulpdu_len p)"
      using Cons.prems(5) unfolding concat.simps length_append of_nat_add by linarith
    have mid: "mpa_recv s p (int (length b)) =
        Some (2 + int k + int (length b), b, p\<lparr>bytes_rcvd := 2 + int k + int (length b)\<rparr>,
              s\<lparr>rx := RxData (concat ps @ ?t) # es\<rparr>)"
      using Cons.prems lt by (intro mpa_recv_mid) auto
    obtain rs p' where
      "mpa_recv_seq (s\<lparr>rx := RxData (concat ps @ ?t) # es\<rparr>)
          (p\<lparr>bytes_rcvd := 2 + int k + int (length b)\<rparr>) (map (\<lambda>b. int (length b)) ps) =
        Some (rs, concat ps, p', s\<lparr>rx := RxData d # es\<rparr>)"
      "ulpdu_len p' = ulpdu_len p"
      "bytes_rcvd p' = 2 + uint (ulpdu_len p) + mpa_padding (uint (ulpdu_len p)) + 4"
      using Cons.IH [of "p\<lparr>bytes_rcvd := 2 + int k + int (length b)\<rparr>" "k + length b"
          "s\<lparr>rx := RxData (concat ps @ ?t) # es\<rparr>"] False Cons.prems by auto
    then show ?thesis by (simp add: mid)
  qed
qed simp

lemma mpa_recv_seq_first:
  assumes "bytes_rcvd p = 0" and "rx s = RxData (le_bytes 2 (htons len) @ d) # es" and "ns \<noteq> []"
  shows "mpa_recv_seq s p ns =
    mpa_recv_seq (s\<lparr>rx := RxData d # es\<rparr>) (p\<lparr>ulpdu_len := len, bytes_rcvd := 2\<rparr>) ns"
  using assms(3) mpa_recv_first [OF assms(1,2)] by (cases ns) auto

text \<open>
  C5. Round trip of a frame.  What \<open>mpa_send\<close> puts on the wire for a gather list of 1 to 65535
  bytes, a receiver reads back by any sequence of \<open>mpa_recv\<close> calls whose sizes add up to the
  ULPDU: the calls return its bytes in order, the packet ends with the length of the ULPDU and
  the size of the whole frame in \<open>bytes_rcvd\<close>, and the bytes after the frame stay unread.
\<close>

theorem mpa_send_recv_roundtrip:
  assumes "tx_plan s = []" and "tx s = []"
    and "concat sgs = concat ps" and "ps \<noteq> []" and "[] \<notin> set ps"
    and "length (concat sgs) < 65536"
    and "mpa_send s sgs = (r, s')" and "rx t = RxData (tx s' @ d) # es"
  shows "r = int (length (mpa_frame sgs)) \<and>
    (\<exists>rs p'. mpa_recv_seq t init_mpa_packet (map (\<lambda>b. int (length b)) ps) =
        Some (rs, concat sgs, p', t\<lparr>rx := RxData d # es\<rparr>)
      \<and> uint (ulpdu_len p') = int (length (concat sgs)) \<and> bytes_rcvd p' = r)"
proof -
  let ?l = "mpa_ulpdu_len sgs"
  have l: "uint ?l = int (length (concat sgs))" by (rule uint_mpa_ulpdu_len [OF assms(6)])
  from assms(1,2,7) have r: "r = int (length (mpa_frame sgs))" and tx': "tx s' = mpa_frame sgs"
    by (auto simp: mpa_send_ok)
  have "rx t = RxData (le_bytes 2 (htons ?l) @ concat ps @ mpa_trailer (uint ?l) @ d) # es"
    using assms(3,8) tx' by (simp add: mpa_frame_eq)
  then have first: "mpa_recv_seq t init_mpa_packet (map (\<lambda>b. int (length b)) ps) =
      mpa_recv_seq (t\<lparr>rx := RxData (concat ps @ mpa_trailer (uint ?l) @ d) # es\<rparr>)
        (init_mpa_packet\<lparr>ulpdu_len := ?l, bytes_rcvd := 2\<rparr>) (map (\<lambda>b. int (length b)) ps)"
    using assms(4) by (intro mpa_recv_seq_first) (auto simp: init_mpa_packet_def)
  have "\<exists>rs p'. mpa_recv_seq (t\<lparr>rx := RxData (concat ps @ mpa_trailer (uint ?l) @ d) # es\<rparr>)
        (init_mpa_packet\<lparr>ulpdu_len := ?l, bytes_rcvd := 2\<rparr>) (map (\<lambda>b. int (length b)) ps) =
      Some (rs, concat ps, p', t\<lparr>rx := RxData d # es\<rparr>)
    \<and> ulpdu_len p' = ?l \<and> bytes_rcvd p' = 2 + uint ?l + mpa_padding (uint ?l) + 4"
    using mpa_recv_seq_pieces [of "init_mpa_packet\<lparr>ulpdu_len := ?l, bytes_rcvd := 2\<rparr>" 0 ps
        "t\<lparr>rx := RxData (concat ps @ mpa_trailer (uint ?l) @ d) # es\<rparr>" d es]
      assms(3,4,5) l by simp
  moreover have "2 + uint ?l + mpa_padding (uint ?l) + 4 = r"
    using l mpa_frame_len16 [OF assms(6)] by (simp add: r mpa_padding_def)
  ultimately show ?thesis using first l r assms(3) by auto
qed

theorem mpa_send_recv_roundtrip_witness:
  "\<exists>rs p'. mpa_recv_seq \<lparr>rx = [RxData [0, 5, 1, 2, 3, 4, 5, 0, 0, 0, 0, 0, 0, 0, 0, 9]],
        tx = [], tx_plan = [], errno = 0\<rparr> init_mpa_packet [3, 2] =
      Some (rs, [1, 2, 3, 4, 5], p', \<lparr>rx = [RxData [0, 9]], tx = [], tx_plan = [], errno = 0\<rparr>)"
proof -
  let ?s = "\<lparr>rx = [], tx = [], tx_plan = [], errno = 0\<rparr>"
  let ?sgs = "[[1, 2], [3, 4, 5 :: u8]]"
  let ?ps = "[[1, 2, 3], [4, 5 :: u8]]"
  have "mpa_send ?s ?sgs = (14, ?s\<lparr>tx := [0, 5, 1, 2, 3, 4, 5, 0, 0, 0, 0, 0, 0, 0]\<rparr>)" by code_simp
  from mpa_send_recv_roundtrip [OF _ _ _ _ _ _ this, of ?ps "\<lparr>rx = [RxData [0, 5, 1, 2, 3, 4, 5, 0, 0, 0, 0, 0, 0, 0, 0, 9]],
        tx = [], tx_plan = [], errno = 0\<rparr>" "[0, 9]" "[]"]
  show ?thesis by auto
qed




text \<open>
  C34. End of stream inside a payload.  When the peer closes the connection after at least one
  byte of the ULPDU and before all that is asked for, \<open>mpa_recv\<close> does not return: \<open>recv\<close> then
  yields 0 forever and the loop neither advances nor leaves.  (With no byte of the payload it
  does leave, with \<open>-1\<close>.)
\<close>

theorem mpa_recv_truncated_diverges:
  assumes "bytes_rcvd p = 2" and "rx s = map RxData cs" and "[] \<notin> set cs"
    and "int (length (concat cs)) < min n (uint (ulpdu_len p))"
  shows "(cs \<noteq> [] \<longrightarrow> mpa_recv s p n = None) \<and> (cs = [] \<longrightarrow> mpa_recv s p n = Some (-1, [], p, s))"
proof (intro conjI impI)
  let ?want = "min n (uint (ulpdu_len p))"
  have want: "(if uint (ulpdu_len p) \<le> n then uint (ulpdu_len p) else n) = ?want" by simp
  have bound: "?want < 2 ^ 64" using uint_ulpdu_len_bound [of "ulpdu_len p"] by (simp add: min_def)
  have pos: "0 < uint (ulpdu_len p)" using assms(4) by linarith
  {
    assume "cs \<noteq> []"
    then have "0 < length (concat cs)" using assms(3) by (cases cs) auto
    then have "0 < 0 + int (length (concat cs))" by linarith
    then have "mpa_read_loop ?want 0 [] s = None"
      using assms(2,3,4) bound by (intro mpa_read_loop_truncated) auto
    then show "mpa_recv s p n = None"
      using pos assms(1) by (simp add: mpa_recv_def mpa_recv_header_done MPA_HDR_SIZE_def Let_def want)
  next
    assume "cs = []"
    then have "mpa_read_loop ?want 0 [] s = Some (0, [], s)"
      using assms(2) by (subst mpa_read_loop.simps) (simp add: sock_recv_closed)
    then show "mpa_recv s p n = Some (-1, [], p, s)"
      using pos assms(1,4) \<open>cs = []\<close>
      by (simp add: mpa_recv_def mpa_recv_header_done MPA_HDR_SIZE_def Let_def want)
  }
qed

theorem mpa_recv_truncated_diverges_witness:
  "mpa_recv \<lparr>rx = [RxData [1, 2]], tx = [], tx_plan = [], errno = 0\<rparr>
     \<lparr>ulpdu_len = 4, crc = 0, bytes_rcvd = 2\<rparr> 4 = None"
  using mpa_recv_truncated_diverges [of "\<lparr>ulpdu_len = 4, crc = 0, bytes_rcvd = 2\<rparr>"
      "\<lparr>rx = [RxData [1, 2]], tx = [], tx_plan = [], errno = 0\<rparr>" "[[1, 2]]" 4]
  by simp


text \<open>
  A \<open>recv\<close> that fails inside a payload corrupts it: the -1 is added to the byte count.
\<close>

lemma mpa_read_loop_interrupted:
  assumes "rx s = RxData c # RxErr e # RxData d # es" and "2 \<le> length c"
    and "length c < n" and "n < 65536" and "n - length c < length d"
  shows "mpa_read_loop (int n) 0 [] s =
    Some (int n, butlast c @ take (n - length c + 1) d,
      s\<lparr>rx := RxData (drop (n - length c + 1) d) # es, errno := e\<rparr>)"
proof -
  let ?k = "n - length c + 1"
  let ?s1 = "s\<lparr>rx := RxErr e # RxData d # es\<rparr>" and ?s2 = "s\<lparr>rx := RxData d # es, errno := e\<rparr>"
  have c: "c \<noteq> []" using assms(2) by auto
  have r1: "sock_recv False (size_of_int (int n - 0)) s = (int (length c), c, ?s1)"
    using assms(1,3,4) c by (auto simp: sock_recv_def size_of_int_nonneg)
  have r2: "sock_recv False (size_of_int (int n - int (length c))) ?s1 = (-1, [], ?s2)"
    using assms(3,4) by (auto simp: sock_recv_def size_of_int_nonneg)
  have "mpa_read_loop (int n) 0 [] s = mpa_read_loop (int n) (int (length c)) c ?s1"
    using mpa_read_loop_step [OF r1, of "[]"] assms(3) c by (simp add: buf_put_def)
  also have "\<dots> = mpa_read_loop (int n) (int (length c) - 1) c ?s2"
    using mpa_read_loop_step [OF r2, of c] assms(2,3) by simp
  also have "\<dots> = Some (int n, butlast c @ take ?k d, ?s2\<lparr>rx := RxData (drop ?k d) # es\<rparr>)"
  proof -
    have i: "nat (int (length c) - 1) = length c - 1" by simp
    have k: "size_of_int (int n - (int (length c) - 1)) = ?k"
      using assms(3,4) by (simp add: size_of_int_def nat_eq_iff of_nat_diff)
    have "buf_put c (length c - 1) (take ?k d) = butlast c @ take ?k d"
      using assms(2,5) by (simp add: buf_put_def butlast_conv_take)
    then show ?thesis
      using assms(2,3,5)
      by (subst mpa_read_loop.simps) (simp add: k i sock_recv_exact of_nat_diff)
  qed
  finally show ?thesis by simp
qed

text \<open>
  A frame is a multiple of four bytes exactly when the length of the ULPDU is even.
\<close>

lemma mpa_frame_aligned_iff:
  "length (concat sgs) < 65536 \<Longrightarrow>
   length (mpa_frame sgs) mod 4 = 0 \<longleftrightarrow> even (length (concat sgs))"
proof -
  assume len: "length (concat sgs) < 65536"
  have "nat (mpa_padding (int n)) = (n + 2) mod 4" for n
    by (simp add: mpa_padding_def MPA_HDR_SIZE_def nat_mod_distrib nat_add_distrib)
  then have "length (mpa_frame sgs) = 6 + length (concat sgs) + (length (concat sgs) + 2) mod 4"
    by (simp add: mpa_frame_len16 [OF len])
  then show ?thesis by presburger
qed

text \<open>
  The size check of \<open>mpa_send\<close> cannot fire, because the length it tests is kept in 16 bits.
\<close>

lemma mpa_send_never_rejects:
  "mpa_send s sgs = sock_send (mpa_frame sgs) s
   \<and> take 2 (mpa_frame sgs) = le_bytes 2 (htons (of_nat (length (concat sgs) mod 65536)))
   \<and> length (mpa_frame sgs) \<ge> length (concat sgs) + 6"
proof -
  have "(of_nat (length (concat sgs)) :: u16) = of_nat (length (concat sgs) mod 65536)"
    by (simp add: word_of_nat_eq_iff take_bit_eq_mod)
  then show ?thesis
    using uint_ulpdu_len_bound [of "mpa_ulpdu_len sgs"]
    by (auto simp: mpa_send_def EMSS_def mpa_frame_eq mpa_trailer_def mpa_ulpdu_len_concat)
qed


section \<open>Properties of connection set-up\<close>

lemma init_mpa_info_key [simp]: "length (rr_key (info_hdr (init_mpa_info b))) = 16"
  by (simp add: init_mpa_info_def)

text \<open>A well-formed request or reply, with or without private data, is accepted.\<close>

lemma mpa_recv_rr_ok:
  assumes "rx s = RxData (enc_mpa_rr (mpa_rr_hdr (of_nat (length pd)) req) @ pd) # es"
    and "length pd \<le> 255" and "req \<and> pd = [] \<Longrightarrow> es \<noteq> [] \<and> hd es = RxAgain"
  shows "\<exists>r s'. mpa_recv_rr True s (init_mpa_info None) = (r,
      \<lparr>info_hdr = mpa_rr_hdr (of_nat (length pd)) req,
       info_pdata = (if pd = [] then None else Some pd)\<rparr>, s')
    \<and> 0 \<le> r \<and> tx s' = tx s \<and> tx_plan s' = tx_plan s"
proof (cases "pd = []")
  case True
  then have rx: "rx s = RxData (enc_mpa_rr (mpa_rr_hdr 0 req)) # es" using assms(1) by simp
  have "req \<Longrightarrow> es = RxAgain # tl es" using assms(3) True by (cases es) auto
  from mpa_recv_rr_no_data [OF rx init_mpa_info_key this] True show ?thesis
    by (simp add: init_mpa_info_def)
next
  case False
  from mpa_recv_rr_with_data [OF assms(1) init_mpa_info_key False assms(2)] False show ?thesis
    by (auto simp: init_mpa_info_def)
qed



text \<open>
  A failed \<open>recv\<close> of the reply is taken for a successful reply with version 0.
\<close>

lemma mpa_client_connect_recv_error:
  assumes "tx_plan s = []" and "rx s = RxErr e # es" and "length pd \<le> 255"
  shows "\<exists>s'. mpa_client_connect mok v s pd (of_nat (length pd)) buf = (0, buf, 0, s') \<and> errno s' = e"
proof -
  let ?s1 = "s\<lparr>tx := tx s @ enc_mpa_rr (mpa_rr_hdr (of_nat (length pd)) True) @ pd\<rparr>"
  let ?z = "\<lparr>rr_key = replicate 16 0, rr_params = \<lparr>rr_bits = 0, rr_pd_len = 0\<rparr>\<rparr>"
  have recv: "sock_recv False sizeof_mpa_rr ?s1 = (-1, [], ?s1\<lparr>rx := es, errno := e\<rparr>)"
    using assms(2) by (simp add: sock_recv_def sizeof_mpa_rr_def)
  have z: "dec_mpa_rr (enc_mpa_rr ?z) = ?z"
    by (rule mpa_rr_codec.dec_enc) (simp add: MPA_RR_KEY_LEN_def)
  have big: "size_of_int (-1) < sizeof_mpa_rr \<longleftrightarrow> False"
    by (simp add: size_of_int_def sizeof_mpa_rr_def)
  have "strncmp_eq MPA_RR_KEY_LEN MPA_KEY_REQ (replicate 16 0) \<longleftrightarrow> False"
    and "mpa_rr_revision 0 = 0" and "be16_to_cpu 0 = 0" by code_simp+
  then have "mpa_recv_rr mok ?s1 (init_mpa_info buf) =
      (int sizeof_mpa_rr, init_mpa_info buf, ?s1\<lparr>rx := es, errno := e\<rparr>)"
    by (simp add: mpa_recv_rr_def recv big init_mpa_info_def z)
  moreover have "mpa_send_rr s pd (of_nat (length pd)) True = (20 + int (length pd), ?s1)"
    by (rule mpa_send_rr_ok [OF assms(1,3)])
  ultimately show ?thesis
    using \<open>mpa_rr_revision 0 = 0\<close> by (simp add: mpa_client_connect_def init_mpa_info_def)
qed

end
