(* ===== verification/Concurrent_Queue.thy ===== *)
theory Concurrent_Queue
  imports Iwarp_Prelude "HOL-Library.Multiset"
begin

text \<open>
  \<open>common/concurrentqueue.h\<close>: the queue that carries work requests, completions and receive
  buffers between threads.  Every thread that enqueues owns one implicit producer; a producer
  is a circular sequence of cells between two 64-bit indices.  The model keeps the indices and
  counters of the source at their width.  The blocks that store the cells and the index that
  finds a block are one map from an index to a cell, and allocation succeeds: \<open>Block_Queue\<close> shows
  that the blocks implement this map.  An operation is one atomic step: \<open>Dequeue_Interleaving\<close>
  has the same operations one access to shared memory at a time.
\<close>

named_theorems queue_simps

type_synonym tid = u64

definition BLOCK_SIZE :: u64 where "BLOCK_SIZE = 32"

definition circular_less_than :: "u64 \<Rightarrow> u64 \<Rightarrow> bool" where
  "circular_less_than a b \<longleftrightarrow> a - b > push_bit 63 1"

definition ceil_to_pow_2 :: "u64 \<Rightarrow> u64" where
  "ceil_to_pow_2 x0 =
     (let x = x0 - 1;
          x = x OR drop_bit 1 x;
          x = x OR drop_bit 2 x;
          x = x OR drop_bit 4 x;
          x = foldl (\<lambda>x i. x OR drop_bit (8 * i) x) x [1, 2, 4]
      in x + 1)"

definition hash_64 :: "u64 \<Rightarrow> u64" where
  "hash_64 h0 =
     (let h = h0 XOR drop_bit 33 h0;
          h = h * 0xff51afd7ed558ccd;
          h = h XOR drop_bit 33 h;
          h = h * 0xc4ceb9fe1a85ec53
      in h XOR drop_bit 33 h)"

section \<open>One producer\<close>

text \<open>
  \<open>owner\<close> is the thread whose enqueues go to the producer.  A cell is \<open>None\<close> while no element
  lives in it.
\<close>

record 'a producer =
  owner :: tid
  tailIndex :: u64
  headIndex :: u64
  dequeueOptimisticCount :: u64
  dequeueOvercommit :: u64
  cells :: "u64 \<Rightarrow> 'a option"

definition new_producer :: "tid \<Rightarrow> 'a producer" where
  "new_producer t = \<lparr>owner = t, tailIndex = 0, headIndex = 0, dequeueOptimisticCount = 0,
     dequeueOvercommit = 0, cells = (\<lambda>_. None)\<rparr>"

definition size_approx :: "'a producer \<Rightarrow> u64" where
  "size_approx p = (if circular_less_than (headIndex p) (tailIndex p)
     then tailIndex p - headIndex p else 0)"

definition producer_enqueue :: "'a \<Rightarrow> 'a producer \<Rightarrow> bool \<times> 'a producer" where
  "producer_enqueue x p =
     (let currentTailIndex = tailIndex p; newTailIndex = 1 + currentTailIndex
      in if currentTailIndex AND (BLOCK_SIZE - 1) = 0
            \<and> \<not> circular_less_than (headIndex p) (currentTailIndex + BLOCK_SIZE)
         then (False, p)
         else (True, p\<lparr>cells := (cells p)(currentTailIndex := Some x), tailIndex := newTailIndex\<rparr>))"

definition producer_dequeue :: "'a producer \<Rightarrow> 'a option \<times> 'a producer" where
  "producer_dequeue p =
     (let tail = tailIndex p; overcommit = dequeueOvercommit p
      in if circular_less_than (dequeueOptimisticCount p - overcommit) tail then
           let myDequeueCount = dequeueOptimisticCount p;
               p1 = p\<lparr>dequeueOptimisticCount := myDequeueCount + 1\<rparr>
           in if circular_less_than (myDequeueCount - overcommit) tail then
                let index = headIndex p1
                in (cells p1 index,
                    p1\<lparr>headIndex := index + 1, cells := (cells p1)(index := None)\<rparr>)
              else (None, p1\<lparr>dequeueOvercommit := dequeueOvercommit p1 + 1\<rparr>)
         else (None, p))"

fun put_cells :: "(u64 \<Rightarrow> 'a option) \<Rightarrow> u64 \<Rightarrow> 'a list \<Rightarrow> u64 \<Rightarrow> 'a option" where
  "put_cells c i [] = c"
| "put_cells c i (x # xs) = put_cells (c(i := Some x)) (i + 1) xs"

fun clear_cells :: "(u64 \<Rightarrow> 'a option) \<Rightarrow> u64 \<Rightarrow> nat \<Rightarrow> u64 \<Rightarrow> 'a option" where
  "clear_cells c i 0 = c"
| "clear_cells c i (Suc n) = clear_cells (c(i := None)) (i + 1) n"

definition take_cells :: "(u64 \<Rightarrow> 'a option) \<Rightarrow> u64 \<Rightarrow> nat \<Rightarrow> 'a list" where
  "take_cells c i n = List.map_filter (\<lambda>k. c (i + of_nat k)) [0..<n]"

text \<open>The loop that reserves one block after another gives up when one of them would be full.\<close>

definition reserve_blocks :: "'a producer \<Rightarrow> nat \<Rightarrow> bool" where
  "reserve_blocks p n =
     (let start = tailIndex p;
          base = (start - 1) AND NOT (BLOCK_SIZE - 1);
          blockBaseDiff = ((start + of_nat n - 1) AND NOT (BLOCK_SIZE - 1)) - base
      in \<forall>k \<in> set [1..<unat blockBaseDiff div 32 + 1].
           circular_less_than (headIndex p) (base + of_nat k * BLOCK_SIZE + BLOCK_SIZE))"

definition producer_enqueue_bulk :: "'a list \<Rightarrow> 'a producer \<Rightarrow> bool \<times> 'a producer" where
  "producer_enqueue_bulk xs p =
     (if reserve_blocks p (length xs)
      then (True, p\<lparr>cells := put_cells (cells p) (tailIndex p) xs,
                    tailIndex := tailIndex p + of_nat (length xs)\<rparr>)
      else (False, p))"

definition producer_dequeue_bulk :: "nat \<Rightarrow> 'a producer \<Rightarrow> 'a list \<times> 'a producer" where
  "producer_dequeue_bulk mx p =
     (let tail = tailIndex p; overcommit = dequeueOvercommit p;
          desiredCount = tail - (dequeueOptimisticCount p - overcommit)
      in if circular_less_than 0 desiredCount then
           let desiredCount = min (unat desiredCount) mx;
               myDequeueCount = dequeueOptimisticCount p;
               p1 = p\<lparr>dequeueOptimisticCount := myDequeueCount + of_nat desiredCount\<rparr>;
               actualCount = tail - (myDequeueCount - overcommit)
           in if circular_less_than 0 actualCount then
                let actualCount = min desiredCount (unat actualCount);
                    p2 = (if actualCount < desiredCount
                          then p1\<lparr>dequeueOvercommit :=
                                 dequeueOvercommit p1 + of_nat (desiredCount - actualCount)\<rparr>
                          else p1);
                    firstIndex = headIndex p2
                in (take_cells (cells p2) firstIndex actualCount,
                    p2\<lparr>headIndex := firstIndex + of_nat actualCount,
                       cells := clear_cells (cells p2) firstIndex actualCount\<rparr>)
              else ([], p1\<lparr>dequeueOvercommit := dequeueOvercommit p1 + of_nat desiredCount\<rparr>)
         else ([], p))"

section \<open>The queue\<close>

text \<open>
  The list of producers starts with the newest, as \<open>add_producer\<close> links it.  The producer of a
  thread is found by its owner; \<open>Producer_Hash\<close> models the hash table that the code searches and
  shows that it gives the same results.
\<close>

type_synonym 'a ConcurrentQueue = "'a producer list"

definition new_queue :: "'a ConcurrentQueue" where
  "new_queue = []"

definition add_producer :: "tid \<Rightarrow> 'a ConcurrentQueue \<Rightarrow> 'a ConcurrentQueue" where
  "add_producer t q = new_producer t # q"

text \<open>
  \<open>recycle_or_create_producer\<close> finds nothing to recycle: an implicit producer becomes inactive
  only through thread-exit notification, which is compiled out.
\<close>

definition get_or_add_implicit_producer :: "tid \<Rightarrow> 'a ConcurrentQueue \<Rightarrow> 'a ConcurrentQueue" where
  "get_or_add_implicit_producer t q =
     (if \<exists>p \<in> set q. owner p = t then q else add_producer t q)"

text \<open>Run an operation on the producer of a thread.\<close>

fun on_producer ::
    "tid \<Rightarrow> ('a producer \<Rightarrow> bool \<times> 'a producer) \<Rightarrow> 'a ConcurrentQueue \<Rightarrow> bool \<times> 'a ConcurrentQueue" where
  "on_producer t f [] = (False, [])"
| "on_producer t f (p # ps) =
     (if owner p = t then (case f p of (ok, p') \<Rightarrow> (ok, p' # ps))
      else (case on_producer t f ps of (ok, ps') \<Rightarrow> (ok, p # ps')))"

definition enqueue :: "tid \<Rightarrow> 'a \<Rightarrow> 'a ConcurrentQueue \<Rightarrow> bool \<times> 'a ConcurrentQueue" where
  "enqueue t x q = on_producer t (producer_enqueue x) (get_or_add_implicit_producer t q)"

definition enqueue_bulk :: "tid \<Rightarrow> 'a list \<Rightarrow> 'a ConcurrentQueue \<Rightarrow> bool \<times> 'a ConcurrentQueue" where
  "enqueue_bulk t xs q = on_producer t (producer_enqueue_bulk xs) (get_or_add_implicit_producer t q)"

text \<open>The scoring loop: the position of the largest of the first three non-empty producers.\<close>

fun best_producer :: "'a ConcurrentQueue \<Rightarrow> nat \<Rightarrow> nat \<Rightarrow> u64 \<Rightarrow> nat option \<Rightarrow> nat \<times> nat option" where
  "best_producer [] i nonEmptyCount bestSize best = (nonEmptyCount, best)"
| "best_producer (p # ps) i nonEmptyCount bestSize best =
     (if nonEmptyCount < 3 then
        let size = size_approx p
        in if size > 0 then
             (if size > bestSize
              then best_producer ps (Suc i) (Suc nonEmptyCount) size (Some i)
              else best_producer ps (Suc i) (Suc nonEmptyCount) bestSize best)
           else best_producer ps (Suc i) nonEmptyCount bestSize best
      else (nonEmptyCount, best))"

text \<open>The second loop of \<open>try_dequeue\<close>: every producer but \<open>best\<close> (\<open>k\<close> positions ahead).\<close>

fun dequeue_others :: "nat option \<Rightarrow> 'a ConcurrentQueue \<Rightarrow> 'a option \<times> 'a ConcurrentQueue" where
  "dequeue_others k [] = (None, [])"
| "dequeue_others k (p # ps) =
     (let rest = (\<lambda>p'. case dequeue_others (case k of None \<Rightarrow> None | Some 0 \<Rightarrow> None | Some (Suc j) \<Rightarrow> Some j) ps
                   of (r, ps') \<Rightarrow> (r, p' # ps'))
      in if k = Some 0 then rest p
         else (case producer_dequeue p of
                 (Some x, p') \<Rightarrow> (Some x, p' # ps)
               | (None, p') \<Rightarrow> rest p'))"

definition try_dequeue :: "'a ConcurrentQueue \<Rightarrow> 'a option \<times> 'a ConcurrentQueue" where
  "try_dequeue q =
     (case best_producer q 0 0 0 None of
        (n, Some i) \<Rightarrow>
          (case producer_dequeue (q ! i) of
             (Some x, p') \<Rightarrow> (Some x, q[i := p'])
           | (None, p') \<Rightarrow> dequeue_others (Some i) (q[i := p']))
      | (n, None) \<Rightarrow> (None, q))"

fun dequeue_bulk_loop :: "nat \<Rightarrow> 'a ConcurrentQueue \<Rightarrow> 'a list \<times> 'a ConcurrentQueue" where
  "dequeue_bulk_loop mx [] = ([], [])"
| "dequeue_bulk_loop mx (p # ps) =
     (case producer_dequeue_bulk mx p of (xs, p') \<Rightarrow>
        if length xs = mx then (xs, p' # ps)
        else (case dequeue_bulk_loop (mx - length xs) ps of (ys, ps') \<Rightarrow> (xs @ ys, p' # ps')))"

definition try_dequeue_bulk :: "nat \<Rightarrow> 'a ConcurrentQueue \<Rightarrow> 'a list \<times> 'a ConcurrentQueue" where
  "try_dequeue_bulk mx q = dequeue_bulk_loop mx q"

definition queue_size_approx :: "'a ConcurrentQueue \<Rightarrow> u64" where
  "queue_size_approx q = foldl (\<lambda>size p. size + size_approx p) 0 q"


section \<open>Circular indices\<close>

lemma unat_minus_u64: "w \<noteq> 0 \<Longrightarrow> unat (- w :: u64) = 2 ^ 64 - unat w"
  using unat_sub_if_size [of 0 w] by (simp add: word_size unat_gt_0)

lemma circular_less_than_iff:
  "circular_less_than a b \<longleftrightarrow> 0 < unat (b - a) \<and> unat (b - a) < 2 ^ 63"
proof (cases "a = b")
  case True
  then show ?thesis by (simp add: circular_less_than_def)
next
  case False
  then have nz: "b - a \<noteq> 0" by simp
  have "circular_less_than a b \<longleftrightarrow> 2 ^ 63 < unat (- (b - a))"
    by (simp add: circular_less_than_def word_less_nat_alt)
  also have "\<dots> \<longleftrightarrow> 2 ^ 63 < 2 ^ 64 - unat (b - a)"
    by (simp only: unat_minus_u64 [OF nz])
  finally show ?thesis using nz by (auto simp: unat_gt_0)
qed

lemma unat_diff_step: "(x :: u64) \<noteq> a \<Longrightarrow> unat (x - a) = Suc (unat (x - (a + 1)))"
proof -
  assume "x \<noteq> a"
  then have "x - a \<noteq> 0" by simp
  then have "unat (x - a) = Suc (unat (x - a - 1))"
    by (metis Suc_pred' unat_gt_0 unat_minus_one)
  then show ?thesis by (simp add: diff_diff_eq)
qed

lemma unat_minus_1_u64: "unat (- 1 :: u64) = 2 ^ 64 - 1"
  by (simp add: unat_eq_nat_uint uint_word_ariths)

lemma put_cells_apply [queue_simps]:
  "length xs \<le> 2 ^ 64 \<Longrightarrow>
   put_cells c i xs j = (if unat (j - i) < length xs then Some (xs ! unat (j - i)) else c j)"
proof (induction xs arbitrary: c i)
  case (Cons x xs)
  then show ?case
    by (cases "j = i") (simp_all add: unat_minus_1_u64 unat_diff_step)
qed simp

lemma clear_cells_apply [queue_simps]:
  "n \<le> 2 ^ 64 \<Longrightarrow> clear_cells c i n j = (if unat (j - i) < n then None else c j)"
proof (induction n arbitrary: c i)
  case (Suc n)
  then show ?case
    by (cases "j = i") (simp_all add: unat_minus_1_u64 unat_diff_step)
qed simp

lemma take_cells_cong:
  "(\<And>k. k < n \<Longrightarrow> c (i + of_nat k) = d (j + of_nat k)) \<Longrightarrow> take_cells c i n = take_cells d j n"
  by (auto simp: take_cells_def List.map_filter_def intro!: arg_cong [where f = "map the"] map_cong filter_cong)

lemma take_cells_add:
  "take_cells c i (m + n) = take_cells c i m @ take_cells c (i + of_nat m) n"
proof -
  have "[m..<m + n] = map (\<lambda>k. k + m) [0..<n]" using map_add_upt [of m n] by (simp add: add.commute)
  then show ?thesis
    by (simp add: take_cells_def upt_add_eq_append [of 0 m n, simplified] List.map_filter_def
        filter_map o_def algebra_simps)
qed

lemma take_cells_full:
  "(\<And>k. k < n \<Longrightarrow> c (i + of_nat k) \<noteq> None) \<Longrightarrow> length (take_cells c i n) = n"
  by (simp add: take_cells_def List.map_filter_def)

section \<open>A producer is a FIFO list\<close>

definition producer_size :: "'a producer \<Rightarrow> nat" where
  "producer_size p = unat (tailIndex p - headIndex p)"

definition producer_items :: "'a producer \<Rightarrow> 'a list" where
  "producer_items p = take_cells (cells p) (headIndex p) (producer_size p)"

text \<open>How many cells the block of the tail still has.\<close>

definition producer_pad :: "'a producer \<Rightarrow> nat" where
  "producer_pad p = (32 - unat (tailIndex p) mod 32) mod 32"

definition wf_producer :: "'a producer \<Rightarrow> bool" where
  "wf_producer p \<longleftrightarrow>
     dequeueOptimisticCount p - dequeueOvercommit p = headIndex p \<and> producer_size p < 2 ^ 63
     \<and> producer_size p + producer_pad p < 2 ^ 63
     \<and> (\<forall>k < producer_size p. cells p (headIndex p + of_nat k) \<noteq> None)"

lemma length_producer_items: "wf_producer p \<Longrightarrow> length (producer_items p) = producer_size p"
  by (simp add: wf_producer_def producer_items_def take_cells_full)

lemma wf_new_producer: "wf_producer (new_producer t)" and items_new_producer: "producer_items (new_producer t) = []"
  by (simp_all add: wf_producer_def producer_items_def producer_size_def producer_pad_def new_producer_def
      take_cells_def)

lemma producer_pad_less: "producer_pad p < 32"
  by (simp add: producer_pad_def)

lemma unat_add_small: "unat (w :: u64) + n < 2 ^ 64 \<Longrightarrow> unat (w + of_nat n) = unat w + n"
  by (simp add: unat_word_ariths unat_of_nat)

text \<open>Storing \<open>xs\<close> behind the tail appends them, in one step or in bulk.\<close>

lemma producer_append:
  fixes p xs
  defines "p' \<equiv> p\<lparr>cells := put_cells (cells p) (tailIndex p) xs,
                  tailIndex := tailIndex p + of_nat (length xs)\<rparr>"
  assumes "wf_producer p" and "producer_size p + length xs + producer_pad p' < 2 ^ 63"
  shows "wf_producer p'" and "producer_items p' = producer_items p @ xs"
proof -
  let ?h = "headIndex p" and ?n = "producer_size p" and ?c = "put_cells (cells p) (tailIndex p) xs"
  have tail: "tailIndex p = ?h + of_nat ?n" by (simp add: producer_size_def)
  have size': "producer_size p' = ?n + length xs"
    using assms(3) unat_add_small [of "tailIndex p - ?h" "length xs"]
    by (simp add: p'_def producer_size_def algebra_simps)
  have off: "unat (?h + of_nat k - tailIndex p) = 2 ^ 64 - (?n - k)" if "k < ?n" for k
  proof -
    have "?h + of_nat k - tailIndex p = - of_nat (?n - k)"
      using that by (simp add: tail of_nat_diff)
    moreover have "unat (of_nat (?n - k) :: u64) = ?n - k"
      using that assms(3) by (subst unat_of_nat) simp
    moreover from this have "(of_nat (?n - k) :: u64) \<noteq> 0" using that by (metis unat_0 zero_less_diff less_irrefl)
    ultimately show ?thesis using unat_minus_u64 [of "of_nat (?n - k)"] by simp
  qed
  have old: "?c (?h + of_nat k) = cells p (?h + of_nat k)" if "k < ?n" for k
  proof -
    have "\<not> unat (?h + of_nat k - tailIndex p) < length xs" and "length xs \<le> 2 ^ 64"
      using that assms(3) off [OF that] by simp_all
    then show ?thesis by (simp add: put_cells_apply)
  qed
  have new: "?c (tailIndex p + of_nat k) = Some (xs ! k)" if "k < length xs" for k
    using that assms(3) by (simp add: put_cells_apply unat_of_nat)
  have "take_cells ?c ?h (?n + length xs) = take_cells ?c ?h ?n @ take_cells ?c (tailIndex p) (length xs)"
    by (simp add: take_cells_add tail)
  moreover have "take_cells ?c ?h ?n = take_cells (cells p) ?h ?n"
    using old by (intro take_cells_cong) simp
  moreover have "take_cells ?c (tailIndex p) (length xs) = xs"
    using new by (intro nth_equalityI) (auto simp: take_cells_def List.map_filter_def)
  ultimately show "producer_items p' = producer_items p @ xs"
    using size' by (simp add: producer_items_def p'_def)
  have "?c (?h + of_nat k) \<noteq> None" if "k < ?n + length xs" for k
  proof (cases "k < ?n")
    case True
    with old assms(2) show ?thesis by (simp add: wf_producer_def)
  next
    case False
    then have i: "?h + of_nat k = tailIndex p + of_nat (k - ?n)" by (simp add: tail of_nat_diff)
    show ?thesis unfolding i using False that by (subst new) simp_all
  qed
  then show "wf_producer p'"
    using assms(2,3) size' by (simp add: wf_producer_def) (simp add: p'_def)
qed


lemma producer_enqueue_items:
  assumes "wf_producer p" and "producer_size p + 32 < 2 ^ 63"
  shows "\<exists>p'. producer_enqueue x p = (True, p') \<and> wf_producer p'
    \<and> producer_items p' = producer_items p @ [x] \<and> owner p' = owner p"
proof -
  have "unat (tailIndex p + BLOCK_SIZE - headIndex p) = producer_size p + 32"
    using assms(2) unat_add_small [of "tailIndex p - headIndex p" 32]
    by (simp add: BLOCK_SIZE_def producer_size_def algebra_simps)
  then have "circular_less_than (headIndex p) (tailIndex p + BLOCK_SIZE)"
    using assms(2) by (simp add: circular_less_than_iff)
  then have "producer_enqueue x p = (True, p\<lparr>cells := put_cells (cells p) (tailIndex p) [x],
      tailIndex := tailIndex p + of_nat (length [x])\<rparr>)"
    by (simp add: producer_enqueue_def Let_def add.commute)
  moreover have "producer_size p + length [x] + producer_pad (p\<lparr>cells := put_cells (cells p) (tailIndex p) [x],
      tailIndex := tailIndex p + of_nat (length [x])\<rparr>) < 2 ^ 63"
    using assms(2) producer_pad_less [of "p\<lparr>cells := put_cells (cells p) (tailIndex p) [x],
      tailIndex := tailIndex p + of_nat (length [x])\<rparr>"] by simp
  note producer_append [OF assms(1) this]
  ultimately show ?thesis by auto
qed

lemma producer_drop:
  assumes "wf_producer p" and "n \<le> producer_size p"
  defines "p' \<equiv> p\<lparr>headIndex := headIndex p + of_nat n, cells := clear_cells (cells p) (headIndex p) n\<rparr>"
  shows "producer_items p' = drop n (producer_items p)"
    and "take_cells (cells p) (headIndex p) n = take n (producer_items p)"
    and "producer_size p' = producer_size p - n"
    and "k < producer_size p - n \<Longrightarrow> cells p' (headIndex p' + of_nat k) \<noteq> None"
proof -
  let ?h = "headIndex p" and ?m = "producer_size p - n"
  have m: "producer_size p = n + ?m" using assms(2) by simp
  have tail: "tailIndex p = ?h + of_nat n + of_nat ?m"
    using assms(2) by (simp add: producer_size_def of_nat_diff)
  have bound: "producer_size p < 2 ^ 63" using assms(1) by (simp add: wf_producer_def)
  show size': "producer_size p' = producer_size p - n"
  proof -
    have "producer_size p' = unat (of_nat ?m :: u64)"
    proof -
      have "producer_size p' = unat (tailIndex p - (?h + of_nat n))"
        by (simp add: p'_def producer_size_def)
      also have "tailIndex p - (?h + of_nat n) = of_nat ?m" using tail by simp
      finally show ?thesis .
    qed
    also have "\<dots> = ?m" using bound by (subst unat_of_nat) simp
    finally show ?thesis .
  qed
  have kept: "clear_cells (cells p) ?h n (?h + of_nat n + of_nat k) = cells p (?h + of_nat n + of_nat k)"
    if "k < ?m" for k
  proof -
    have "unat (?h + of_nat n + of_nat k - ?h) = n + k"
      using that bound by (simp add: add.assoc flip: of_nat_add) (subst unat_of_nat, simp)
    then show ?thesis using bound assms(2) by (simp add: clear_cells_apply)
  qed
  have len: "length (take_cells (cells p) ?h n) = n"
    using assms(1) m by (intro take_cells_full) (simp add: wf_producer_def)
  have items: "producer_items p = take_cells (cells p) ?h n @ take_cells (cells p) (?h + of_nat n) ?m"
    unfolding producer_items_def take_cells_add [symmetric] using m by simp
  then show "take_cells (cells p) ?h n = take n (producer_items p)" using len by simp
  have "producer_items p' = take_cells (cells p) (?h + of_nat n) ?m"
    unfolding producer_items_def size' using kept by (intro take_cells_cong) (simp add: p'_def)
  then show "producer_items p' = drop n (producer_items p)" using items len by simp
  show "cells p' (headIndex p' + of_nat k) \<noteq> None" if "k < producer_size p - n"
  proof -
    have "cells p (?h + of_nat (n + k)) \<noteq> None"
      using assms(1) that unfolding wf_producer_def by (metis less_diff_conv add.commute)
    then show ?thesis using kept [OF that] by (simp add: p'_def add.assoc)
  qed
qed

lemma wf_producer_shrink:
  assumes "wf_producer p" and "dequeueOptimisticCount p' - dequeueOvercommit p' = headIndex p'"
    and "producer_size p' = producer_size p - n" and "tailIndex p' = tailIndex p"
    and "\<And>k. k < producer_size p - n \<Longrightarrow> cells p' (headIndex p' + of_nat k) \<noteq> None"
  shows "wf_producer p'"
proof -
  have "producer_size p' \<le> producer_size p" and "producer_pad p' = producer_pad p"
    using assms(3,4) by (simp_all add: producer_pad_def)
  moreover have "producer_size p < 2 ^ 63" "producer_size p + producer_pad p < 2 ^ 63"
    using assms(1) by (simp_all add: wf_producer_def)
  ultimately have "producer_size p' < 2 ^ 63" "producer_size p' + producer_pad p' < 2 ^ 63" by linarith+
  then show ?thesis using assms(2,3,5) unfolding wf_producer_def by simp
qed

lemma producer_dequeue_empty:
  "wf_producer p \<Longrightarrow> producer_items p = [] \<Longrightarrow> producer_dequeue p = (None, p)"
  using length_producer_items [of p]
  by (simp add: producer_dequeue_def wf_producer_def circular_less_than_iff producer_size_def)

lemma producer_dequeue_items:
  assumes "wf_producer p" and "producer_items p = x # xs"
  shows "\<exists>p'. producer_dequeue p = (Some x, p') \<and> wf_producer p' \<and> producer_items p' = xs
    \<and> owner p' = owner p"
proof -
  let ?p = "p\<lparr>headIndex := headIndex p + of_nat 1, cells := clear_cells (cells p) (headIndex p) 1\<rparr>"
  let ?p' = "p\<lparr>dequeueOptimisticCount := dequeueOptimisticCount p + 1, headIndex := headIndex p + 1,
    cells := (cells p)(headIndex p := None)\<rparr>"
  have size: "producer_size p = Suc (length xs)"
    using length_producer_items [OF assms(1)] assms(2) by simp
  then have one: "1 \<le> producer_size p" by simp
  note d = producer_drop [OF assms(1) one]
  have "take_cells (cells p) (headIndex p) 1 = [x]" using d(2) assms(2) by simp
  then have x: "cells p (headIndex p) = Some x"
    by (simp add: take_cells_def List.map_filter_def split: if_splits)
  have circ: "circular_less_than (headIndex p) (tailIndex p)"
    using assms(1) size by (simp add: circular_less_than_iff producer_size_def wf_producer_def)
  have "producer_dequeue p = (Some x, ?p')"
    using assms(1) circ x by (simp add: producer_dequeue_def wf_producer_def Let_def)
  moreover have "producer_items ?p' = xs"
    using d(1) assms(2) by (simp add: producer_items_def producer_size_def)
  moreover have "wf_producer ?p'"
  proof -
    have "dequeueOptimisticCount p - dequeueOvercommit p = headIndex p"
      using assms(1) by (simp add: wf_producer_def)
    then have "dequeueOptimisticCount p + 1 - dequeueOvercommit p = headIndex p + 1"
      by (simp add: algebra_simps)
    moreover have "producer_size ?p' = producer_size p - 1"
      using d(3) by (simp add: producer_size_def)
    ultimately show ?thesis
      using d(4) by (intro wf_producer_shrink [OF assms(1), of _ 1]) simp_all
  qed
  ultimately show ?thesis by auto
qed


section \<open>Bulk operations of a producer\<close>

lemma unat_and_31: "unat (w AND 31 :: u64) = unat w mod 32"
proof -
  have "w AND 31 = take_bit 5 w" by (simp add: take_bit_eq_mask mask_eq_exp_minus_1)
  then have "unat (w AND 31) = unat (w mod 32)" by (simp add: take_bit_eq_mod)
  then show ?thesis by (simp add: unat_mod)
qed

lemma and_not_31: "w AND NOT 31 = w - (w AND 31 :: u64)"
proof -
  have "(w AND 31) + (w AND NOT 31) = w"
    by (subst disjunctive_add) (auto simp: bit_simps simp flip: bit.conj_disj_distrib)
  then show ?thesis by (simp add: algebra_simps)
qed


lemma unat_add_mod_32: "unat (a + of_nat n :: u64) mod 32 = (unat a + n) mod 32"
proof -
  have "unat (a + of_nat n) mod 32 = (unat a + n) mod 2 ^ 64 mod 32"
    by (simp add: unat_word_ariths unat_of_nat mod_add_right_eq)
  also have "\<dots> = (unat a + n) mod 32" by (rule mod_mod_cancel) simp
  finally show ?thesis .
qed

text \<open>An enqueue that is refused changes nothing; one that is accepted appends.\<close>

lemma producer_enqueue_any:
  assumes "wf_producer p" and "producer_enqueue x p = (ok, p')"
  shows "wf_producer p' \<and> owner p' = owner p
    \<and> producer_items p' = producer_items p @ (if ok then [x] else [])"
proof (cases ok)
  case False
  then show ?thesis using assms by (auto simp: producer_enqueue_def Let_def split: if_splits)
next
  case True
  let ?r = "unat (tailIndex p) mod 32"
  let ?p = "p\<lparr>cells := put_cells (cells p) (tailIndex p) [x], tailIndex := tailIndex p + of_nat (length [x])\<rparr>"
  have p': "p' = ?p" and room: "?r = 0 \<Longrightarrow> circular_less_than (headIndex p) (tailIndex p + BLOCK_SIZE)"
    using assms(2) True unat_and_31 [of "tailIndex p"]
    by (auto simp: producer_enqueue_def Let_def BLOCK_SIZE_def add.commute unat_eq_0 split: if_splits)
  have old: "producer_size p + (32 - ?r) mod 32 < 2 ^ 63" "producer_size p < 2 ^ 63"
    using assms(1) by (simp_all add: wf_producer_def producer_pad_def)
  have pad': "producer_pad ?p = (32 - Suc ?r mod 32) mod 32"
    using unat_add_mod_32 [of "tailIndex p" 1] by (simp add: producer_pad_def mod_Suc_eq)
  have r: "?r < 32" by simp
  have "producer_size p + 1 + producer_pad ?p < 2 ^ 63"
  proof (cases "?r = 0")
    case True
    have "unat (tailIndex p + BLOCK_SIZE - headIndex p) = producer_size p + 32"
      using old unat_add_small [of "tailIndex p - headIndex p" 32]
      by (simp add: BLOCK_SIZE_def producer_size_def algebra_simps)
    then show ?thesis using room [OF True] True pad' by (simp add: circular_less_than_iff)
  next
    case False
    then have "1 + (32 - Suc ?r mod 32) mod 32 = (32 - ?r) mod 32"
      using r by (cases "?r = 31") auto
    then show ?thesis using old pad' by (simp only: add.assoc)
  qed
  then show ?thesis
    using producer_append [OF assms(1), of "[x]"] True p' by simp
qed

text \<open>What the reservation loop checks, in terms of the distance from the head.\<close>

lemma reserve_blocks_iff:
  fixes p n
  defines "r \<equiv> unat (tailIndex p - 1) mod 32"
  assumes "producer_size p < 2 ^ 63" and "n < 2 ^ 62"
  shows "reserve_blocks p n \<longleftrightarrow>
    (\<forall>k \<in> set [1..<(r + n) div 32 + 1]. producer_size p + (32 * k + 31 - r) < 2 ^ 63)"
proof -
  let ?t = "tailIndex p" and ?h = "headIndex p"
  define a where "a = ?t - 1"
  have rem: "w AND NOT (BLOCK_SIZE - 1) = w - of_nat (unat w mod 32)" for w
  proof -
    have "of_nat (unat w mod 32) = w AND 31" by (simp only: unat_and_31 [symmetric]) simp
    then show ?thesis using and_not_31 [of w] by (simp add: BLOCK_SIZE_def)
  qed
  let ?base = "a AND NOT (BLOCK_SIZE - 1)"
  let ?diff = "(?t + of_nat n - 1 AND NOT (BLOCK_SIZE - 1)) - ?base"
  have ra: "r = unat a mod 32" by (simp add: r_def a_def)
  have an: "?t + of_nat n - 1 = a + of_nat n" by (simp add: a_def)
  have "unat (?t + of_nat n - 1) mod 32 = (r + n) mod 32"
    unfolding an unat_add_mod_32 by (simp add: ra mod_add_left_eq)
  then have "?diff = of_nat (r + n) - of_nat ((r + n) mod 32)"
    by (simp add: rem an ra)
  also have "\<dots> = of_nat ((r + n) div 32 * 32)"
    by (metis of_nat_diff mod_less_eq_dividend minus_mod_eq_div_mult)
  finally have diff: "?diff = of_nat ((r + n) div 32 * 32)" .
  have base: "?base = a - of_nat r" by (simp only: rem ra)
  have r: "r < 32" by (simp add: ra)
  have "unat ?diff = (r + n) div 32 * 32"
    unfolding diff using assms(3) r by (subst unat_of_nat) simp
  then have blocks: "unat ?diff div 32 = (r + n) div 32" by simp
  have "circular_less_than ?h (?base + of_nat k * BLOCK_SIZE + BLOCK_SIZE) \<longleftrightarrow>
      producer_size p + (32 * k + 31 - r) < 2 ^ 63"
    if "k \<in> set [1..<(r + n) div 32 + 1]" for k
  proof -
    have k: "1 \<le> k" "32 * k \<le> r + n" using that by auto
    have "?base + of_nat k * BLOCK_SIZE + BLOCK_SIZE - ?h = (?t - ?h) + of_nat (32 * k + 31 - r)"
      unfolding base using r by (simp add: a_def BLOCK_SIZE_def of_nat_diff algebra_simps)
    moreover have "unat (?t - ?h) + (32 * k + 31 - r) < 2 ^ 64"
      using assms(2,3) k r by (simp add: producer_size_def)
    ultimately have "unat (?base + of_nat k * BLOCK_SIZE + BLOCK_SIZE - ?h) = producer_size p + (32 * k + 31 - r)"
      unfolding producer_size_def by (simp only: unat_add_small)
    then show ?thesis using k r by (simp add: circular_less_than_iff)
  qed
  then show ?thesis unfolding reserve_blocks_def Let_def a_def [symmetric] blocks by (meson)
qed

lemma reserve_blocks_ok:
  assumes "wf_producer p" and "producer_size p + n + 64 < 2 ^ 63" and "n < 2 ^ 62"
  shows "reserve_blocks p n"
proof -
  have "producer_size p < 2 ^ 63" using assms(1) by (simp add: wf_producer_def)
  moreover have "producer_size p + (32 * k + 31 - unat (tailIndex p - 1) mod 32) < 2 ^ 63"
    if "k \<in> set [1..<(unat (tailIndex p - 1) mod 32 + n) div 32 + 1]" for k
  proof -
    have "32 * k \<le> unat (tailIndex p - 1) mod 32 + n" using that by auto
    moreover have "unat (tailIndex p - 1) mod 32 < 32" by simp
    ultimately show ?thesis using assms(2) by linarith
  qed
  ultimately show ?thesis using assms(3) by (simp add: reserve_blocks_iff)
qed

lemma producer_enqueue_bulk_any:
  assumes "wf_producer p" and "length xs < 2 ^ 62" and "producer_enqueue_bulk xs p = (ok, p')"
  shows "wf_producer p' \<and> owner p' = owner p
    \<and> producer_items p' = producer_items p @ (if ok then xs else [])"
proof (cases "reserve_blocks p (length xs)")
  case False
  then show ?thesis using assms by (auto simp: producer_enqueue_bulk_def)
next
  case True
  let ?n = "length xs" and ?r = "unat (tailIndex p - 1) mod 32"
  let ?p = "p\<lparr>cells := put_cells (cells p) (tailIndex p) xs, tailIndex := tailIndex p + of_nat ?n\<rparr>"
  have p': "p' = ?p" "ok" using assms(3) True by (auto simp: producer_enqueue_bulk_def)
  have old: "producer_size p + producer_pad p < 2 ^ 63" "producer_size p < 2 ^ 63"
    using assms(1) by (simp_all add: wf_producer_def)
  have pad_of: "(32 - unat (w + 1) mod 32) mod 32 = 31 - unat w mod 32" for w :: u64
  proof -
    have "unat (w + 1) mod 32 = Suc (unat w mod 32) mod 32"
      using unat_add_mod_32 [of w 1] by (simp add: mod_Suc_eq)
    then show ?thesis by (cases "unat w mod 32 = 31") (auto simp: mod_Suc)
  qed
  have pad: "producer_pad p = 31 - ?r"
    using pad_of [of "tailIndex p - 1"] by (simp add: producer_pad_def)
  have "unat (tailIndex p - 1 + of_nat ?n) mod 32 = (?r + ?n) mod 32"
    unfolding unat_add_mod_32 by (simp add: mod_add_left_eq)
  then have pad': "producer_pad ?p = 31 - (?r + ?n) mod 32"
    using pad_of [of "tailIndex p - 1 + of_nat ?n"] by (simp add: producer_pad_def algebra_simps)
  let ?k = "(?r + ?n) div 32"
  have eq: "?n + (31 - (?r + ?n) mod 32) = 32 * ?k + 31 - ?r"
  proof -
    have "?r + ?n = 32 * ?k + (?r + ?n) mod 32" by (rule mult_div_mod_eq [symmetric])
    moreover have "(?r + ?n) mod 32 < 32" "?r < 32" by simp_all
    ultimately show ?thesis by linarith
  qed
  have "producer_size p + (32 * ?k + 31 - ?r) < 2 ^ 63"
  proof (cases "?k = 0")
    case False
    then have "?k \<in> set [1..<?k + 1]" by auto
    then show ?thesis using True reserve_blocks_iff [OF old(2) assms(2)] by blast
  next
    case k0: True
    then show ?thesis using old(1) pad by simp
  qed
  then have "producer_size p + ?n + producer_pad ?p < 2 ^ 63"
    using eq pad' by (simp only: add.assoc)
  then show ?thesis using producer_append [OF assms(1), of xs] p' by simp
qed

lemma producer_enqueue_bulk_items:
  assumes "wf_producer p" and "producer_size p + length xs + 64 < 2 ^ 63" and "length xs < 2 ^ 62"
  shows "\<exists>p'. producer_enqueue_bulk xs p = (True, p') \<and> wf_producer p'
    \<and> producer_items p' = producer_items p @ xs \<and> owner p' = owner p"
proof -
  have "producer_size p + length xs + producer_pad (p\<lparr>cells := put_cells (cells p) (tailIndex p) xs,
      tailIndex := tailIndex p + of_nat (length xs)\<rparr>) < 2 ^ 63"
    using assms(2) producer_pad_less [of "p\<lparr>cells := put_cells (cells p) (tailIndex p) xs,
      tailIndex := tailIndex p + of_nat (length xs)\<rparr>"] by simp
  note producer_append [OF assms(1) this]
  then show ?thesis
    using reserve_blocks_ok [OF assms] by (simp add: producer_enqueue_bulk_def)
qed

lemma producer_dequeue_bulk_items:
  assumes "wf_producer p"
  shows "\<exists>p'. producer_dequeue_bulk mx p = (take mx (producer_items p), p') \<and> wf_producer p'
    \<and> producer_items p' = drop mx (producer_items p) \<and> owner p' = owner p"
proof (cases "producer_size p = 0")
  case True
  then have "producer_items p = []" using length_producer_items [OF assms] by simp
  moreover have "producer_dequeue_bulk mx p = ([], p)"
    using True assms by (simp add: producer_dequeue_bulk_def wf_producer_def circular_less_than_iff
        producer_size_def)
  ultimately show ?thesis using assms by simp
next
  case False
  let ?n = "min (producer_size p) mx"
  note len = length_producer_items [OF assms]
  note d = producer_drop [OF assms, of ?n]
  let ?p' = "p\<lparr>dequeueOptimisticCount := dequeueOptimisticCount p + of_nat ?n,
    headIndex := headIndex p + of_nat ?n, cells := clear_cells (cells p) (headIndex p) ?n\<rparr>"
  have opt: "dequeueOptimisticCount p - dequeueOvercommit p = headIndex p"
    using assms by (simp add: wf_producer_def)
  have circ: "circular_less_than 0 (tailIndex p - headIndex p)"
    using assms False by (simp add: circular_less_than_iff wf_producer_def producer_size_def)
  have "producer_dequeue_bulk mx p = (take_cells (cells p) (headIndex p) ?n, ?p')"
    using circ by (simp add: producer_dequeue_bulk_def opt Let_def min_def flip: producer_size_def)
  moreover have "take_cells (cells p) (headIndex p) ?n = take mx (producer_items p)"
    using d(2) len by (simp add: min_def)
  moreover have "producer_items ?p' = drop mx (producer_items p)"
    using d(1) len by (simp add: min_def producer_items_def producer_size_def)
  moreover have "wf_producer ?p'"
  proof -
    have "dequeueOptimisticCount p + of_nat ?n - dequeueOvercommit p = headIndex p + of_nat ?n"
      using opt by (simp add: algebra_simps)
    moreover have "producer_size ?p' = producer_size p - ?n"
      using d(3) by (simp add: producer_size_def)
    ultimately show ?thesis
      using d(4) by (intro wf_producer_shrink [OF assms, of _ ?n]) simp_all
  qed
  ultimately show ?thesis by auto
qed


section \<open>The queue is a bag of FIFO lists\<close>

definition wf_queue :: "'a ConcurrentQueue \<Rightarrow> bool" where
  "wf_queue q \<longleftrightarrow> (\<forall>p \<in> set q. wf_producer p) \<and> distinct (map owner q)"

definition queue_items :: "'a ConcurrentQueue \<Rightarrow> 'a list" where
  "queue_items q = concat (map producer_items q)"

definition items_of :: "tid \<Rightarrow> 'a ConcurrentQueue \<Rightarrow> 'a list" where
  "items_of t q = queue_items (filter (\<lambda>p. owner p = t) q)"

text \<open>No producer is near the point where its 63-bit capacity is used up.\<close>

definition queue_room :: "nat \<Rightarrow> 'a ConcurrentQueue \<Rightarrow> bool" where
  "queue_room n q \<longleftrightarrow> (\<forall>p \<in> set q. producer_size p + n + 64 < 2 ^ 63)"

lemma wf_new_queue: "wf_queue new_queue" and queue_items_new: "queue_items new_queue = []"
  by (simp_all add: wf_queue_def queue_items_def new_queue_def)

lemma add_producer_wf:
  assumes "wf_queue q"
  shows "wf_queue (get_or_add_implicit_producer t q)"
    and "queue_items (get_or_add_implicit_producer t q) = queue_items q"
    and "items_of t' (get_or_add_implicit_producer t q) = items_of t' q"
    and "\<exists>p \<in> set (get_or_add_implicit_producer t q). owner p = t"
  using assms
  by (auto simp: get_or_add_implicit_producer_def add_producer_def wf_queue_def queue_items_def
      items_of_def wf_new_producer items_new_producer) (auto simp: new_producer_def)

lemma add_producer_room:
  "queue_room n q \<Longrightarrow> n + 64 < 2 ^ 63 \<Longrightarrow> queue_room n (get_or_add_implicit_producer t q)"
  by (simp add: queue_room_def get_or_add_implicit_producer_def add_producer_def new_producer_def
      producer_size_def)

lemma on_producer_appends:
  assumes "wf_queue q" and "\<exists>p \<in> set q. owner p = t"
    and "\<And>p. p \<in> set q \<Longrightarrow> owner p = t \<Longrightarrow>
      \<exists>p'. f p = (True, p') \<and> wf_producer p' \<and> producer_items p' = producer_items p @ xs \<and> owner p' = owner p"
  shows "\<exists>q'. on_producer t f q = (True, q') \<and> wf_queue q' \<and> map owner q' = map owner q
    \<and> mset (queue_items q') = mset (queue_items q) + mset xs
    \<and> (\<forall>t'. items_of t' q' = items_of t' q @ (if t' = t then xs else []))"
  using assms
proof (induction q)
  case (Cons p q)
  show ?case
  proof (cases "owner p = t")
    case True
    then obtain p' where p': "f p = (True, p')" "wf_producer p'"
      "producer_items p' = producer_items p @ xs" "owner p' = t"
      using Cons.prems(3) [of p] by auto
    have none: "filter (\<lambda>p. owner p = t) q = []"
      using Cons.prems(1) True by (auto simp: wf_queue_def filter_empty_conv image_iff)
    show ?thesis
      using p' True Cons.prems(1) none by (auto simp: wf_queue_def queue_items_def items_of_def)
  next
    case False
    then obtain q' where "on_producer t f q = (True, q')" "wf_queue q'" "map owner q' = map owner q"
      "mset (queue_items q') = mset (queue_items q) + mset xs"
      "\<forall>t'. items_of t' q' = items_of t' q @ (if t' = t then xs else [])"
      using Cons by (auto simp: wf_queue_def)
    then show ?thesis
      using False Cons.prems(1) by (auto simp: wf_queue_def queue_items_def items_of_def simp flip: set_map)
  qed
qed simp

text \<open>Without a bound on the number of elements an enqueue may be refused, but breaks nothing.\<close>

lemma on_producer_any:
  assumes "wf_queue q"
    and "\<And>p ok p'. p \<in> set q \<Longrightarrow> f p = (ok, p') \<Longrightarrow> wf_producer p' \<and> owner p' = owner p
      \<and> producer_items p' = producer_items p @ (if ok then xs else [])"
    and "on_producer t f q = (ok, q')"
  shows "wf_queue q' \<and> map owner q' = map owner q
    \<and> mset (queue_items q') = mset (queue_items q) + mset (if ok then xs else [])"
  using assms
proof (induction q arbitrary: ok q')
  case (Cons p q)
  show ?case
  proof (cases "owner p = t")
    case True
    then obtain p' where p': "f p = (ok, p')" "q' = p' # q"
      using Cons.prems(3) by (auto split: prod.splits)
    then show ?thesis
      using Cons.prems(1) Cons.prems(2) [of p ok p'] by (auto simp: wf_queue_def queue_items_def)
  next
    case False
    then obtain ps where ps: "on_producer t f q = (ok, ps)" "q' = p # ps"
      using Cons.prems(3) by (auto split: prod.splits)
    have IH: "wf_queue ps \<and> map owner ps = map owner q
        \<and> mset (queue_items ps) = mset (queue_items q) + mset (if ok then xs else [])"
    proof (rule Cons.IH)
      show "wf_queue q" using Cons.prems(1) by (simp add: wf_queue_def)
      show "on_producer t f q = (ok, ps)" by (rule ps(1))
    qed (rule Cons.prems(2), simp_all)
    then have "owner ` set ps = owner ` set q" by (metis set_map)
    with IH show ?thesis
      using Cons.prems(1) unfolding ps(2) by (simp add: wf_queue_def queue_items_def)
  qed
qed (simp add: queue_items_def)

lemma enqueue_any:
  assumes "wf_queue q" and "enqueue t x q = (ok, q')"
  shows "wf_queue q' \<and> mset (queue_items q') = mset (queue_items q) + mset (if ok then [x] else [])"
proof -
  note a = add_producer_wf [OF assms(1), where t = t]
  have "wf_queue q' \<and> map owner q' = map owner (get_or_add_implicit_producer t q) \<and> mset (queue_items q') =
      mset (queue_items (get_or_add_implicit_producer t q)) + mset (if ok then [x] else [])"
    using assms(2) a(1) producer_enqueue_any [where x = x]
    by (intro on_producer_any [OF a(1)]) (auto simp: enqueue_def wf_queue_def)
  then show ?thesis using a(2) by simp
qed

lemma enqueue_bulk_any:
  assumes "wf_queue q" and "length xs < 2 ^ 62" and "enqueue_bulk t xs q = (ok, q')"
  shows "wf_queue q' \<and> mset (queue_items q') = mset (queue_items q) + mset (if ok then xs else [])"
proof -
  note a = add_producer_wf [OF assms(1), where t = t]
  have "wf_queue q' \<and> map owner q' = map owner (get_or_add_implicit_producer t q) \<and> mset (queue_items q') =
      mset (queue_items (get_or_add_implicit_producer t q)) + mset (if ok then xs else [])"
    using assms(3) a(1) producer_enqueue_bulk_any [OF _ assms(2)]
    by (intro on_producer_any [OF a(1)]) (auto simp: enqueue_bulk_def wf_queue_def)
  then show ?thesis using a(2) by simp
qed

lemma enqueue_wf: "wf_queue q \<Longrightarrow> wf_queue (snd (enqueue t x q))"
  using enqueue_any [of q t x] by (cases "enqueue t x q") auto

lemma enqueue_bulk_wf: "wf_queue q \<Longrightarrow> length xs < 2 ^ 62 \<Longrightarrow> wf_queue (snd (enqueue_bulk t xs q))"
  using enqueue_bulk_any [of q xs t] by (cases "enqueue_bulk t xs q") auto

lemma enqueue_appends:
  assumes "wf_queue q" and "queue_room 0 q"
  shows "\<exists>q'. enqueue t x q = (True, q') \<and> wf_queue q'
    \<and> mset (queue_items q') = add_mset x (mset (queue_items q))
    \<and> (\<forall>t'. items_of t' q' = items_of t' q @ (if t' = t then [x] else []))"
proof -
  note a = add_producer_wf [OF assms(1), where t = t]
  have room: "queue_room 0 (get_or_add_implicit_producer t q)"
    using add_producer_room [OF assms(2)] by simp
  have "\<exists>p'. producer_enqueue x p = (True, p') \<and> wf_producer p'
      \<and> producer_items p' = producer_items p @ [x] \<and> owner p' = owner p"
    if "p \<in> set (get_or_add_implicit_producer t q)" for p
    using that a(1) room by (intro producer_enqueue_items) (auto simp: wf_queue_def queue_room_def)
  from on_producer_appends [OF a(1,4) this] show ?thesis
    by (auto simp: enqueue_def a)
qed

lemma enqueue_bulk_appends:
  assumes "wf_queue q" and "queue_room (length xs) q" and "length xs < 2 ^ 62"
  shows "\<exists>q'. enqueue_bulk t xs q = (True, q') \<and> wf_queue q'
    \<and> mset (queue_items q') = mset (queue_items q) + mset xs
    \<and> (\<forall>t'. items_of t' q' = items_of t' q @ (if t' = t then xs else []))"
proof -
  note a = add_producer_wf [OF assms(1), where t = t]
  have room: "queue_room (length xs) (get_or_add_implicit_producer t q)"
    using assms(3) by (intro add_producer_room [OF assms(2)]) simp
  have "\<exists>p'. producer_enqueue_bulk xs p = (True, p') \<and> wf_producer p'
      \<and> producer_items p' = producer_items p @ xs \<and> owner p' = owner p"
    if "p \<in> set (get_or_add_implicit_producer t q)" for p
    using that a(1) room assms(3) by (intro producer_enqueue_bulk_items) (auto simp: wf_queue_def queue_room_def)
  from on_producer_appends [OF a(1,4) this] show ?thesis
    by (auto simp: enqueue_bulk_def a)
qed

lemma size_approx_pos: "wf_producer p \<Longrightarrow> size_approx p > 0 \<longleftrightarrow> producer_items p \<noteq> []"
  using length_producer_items [of p]
  by (auto simp: size_approx_def circular_less_than_iff wf_producer_def producer_size_def
      word_less_nat_alt)

definition best_ok :: "'a ConcurrentQueue \<Rightarrow> nat \<Rightarrow> nat option \<Rightarrow> nat option \<Rightarrow> bool" where
  "best_ok ps i b b' \<longleftrightarrow> (case b' of
      None \<Rightarrow> b = None \<and> (\<forall>p \<in> set ps. size_approx p = 0)
    | Some j \<Rightarrow> b = Some j \<or> (i \<le> j \<and> j < i + length ps \<and> size_approx (ps ! (j - i)) > 0))"

lemma best_ok_skip: "best_ok ps (Suc i) b b' \<Longrightarrow> size_approx p = 0 \<or> b \<noteq> None \<Longrightarrow> best_ok (p # ps) i b b'"
  by (auto simp: best_ok_def nth_Cons' split: option.splits)

lemma best_ok_take: "best_ok ps (Suc i) (Some i) b' \<Longrightarrow> size_approx p > 0 \<Longrightarrow> best_ok (p # ps) i b b'"
  by (auto simp: best_ok_def nth_Cons' split: option.splits)

lemma best_producer_ok:
  "best_producer ps i n bs b = (m, b') \<Longrightarrow> (b = None \<Longrightarrow> n = 0 \<and> bs = 0) \<Longrightarrow> best_ok ps i b b'"
proof (induction ps arbitrary: i n bs b)
  case Nil
  then show ?case by (auto simp: best_ok_def split: option.splits)
next
  case (Cons p ps)
  consider "\<not> n < 3" | "n < 3" "size_approx p = 0" | "n < 3" "size_approx p > 0" "size_approx p > bs"
    | "n < 3" "size_approx p > 0" "\<not> size_approx p > bs"
    using word_neq_0_conv [of "size_approx p"] by blast
  then show ?case
  proof cases
    case 1
    then show ?thesis using Cons.prems by (auto simp: best_ok_def split: option.splits)
  next
    case 2
    then have "best_ok ps (Suc i) b b'" using Cons.prems by (intro Cons.IH) auto
    then show ?thesis using 2 by (intro best_ok_skip) simp_all
  next
    case 3
    then have "best_ok ps (Suc i) (Some i) b'" using Cons.prems by (intro Cons.IH) auto
    then show ?thesis using 3 by (intro best_ok_take) simp_all
  next
    case 4
    then have b: "b \<noteq> None" using Cons.prems(2) by auto
    then have "best_ok ps (Suc i) b b'" using 4 Cons.prems by (intro Cons.IH) auto
    then show ?thesis using b by (intro best_ok_skip) simp_all
  qed
qed

text \<open>\<open>try_dequeue\<close> fails only on an empty queue, and otherwise takes the head of one producer.\<close>

lemma try_dequeue_empty:
  assumes "wf_queue q" and "queue_items q = []"
  shows "try_dequeue q = (None, q)"
proof (cases "best_producer q 0 0 0 None")
  case (Pair m b)
  have zero: "size_approx p = 0" if "p \<in> set q" for p
    using assms that size_approx_pos [of p] word_neq_0_conv [of "size_approx p"]
    by (auto simp: wf_queue_def queue_items_def)
  have "b = None"
    using best_producer_ok [OF Pair] zero by (auto simp: best_ok_def split: option.splits)
  with Pair show ?thesis by (simp add: try_dequeue_def)
qed

lemma try_dequeue_some:
  assumes "wf_queue q" and "queue_items q \<noteq> []"
  obtains i x xs p' where "i < length q" "producer_items (q ! i) = x # xs"
    "try_dequeue q = (Some x, q[i := p'])" "wf_producer p'" "producer_items p' = xs" "owner p' = owner (q ! i)"
proof (cases "best_producer q 0 0 0 None")
  case (Pair m b)
  obtain p where "p \<in> set q" "size_approx p \<noteq> 0"
    using assms size_approx_pos by (auto simp: wf_queue_def queue_items_def) force
  then obtain i where b: "b = Some i" and i: "i < length q" "size_approx (q ! i) > 0"
    using best_producer_ok [OF Pair] by (auto simp: best_ok_def split: option.splits)
  have wf: "wf_producer (q ! i)" using assms(1) i by (simp add: wf_queue_def)
  with i(2) obtain x xs where x: "producer_items (q ! i) = x # xs"
    by (auto simp: size_approx_pos neq_Nil_conv)
  from producer_dequeue_items [OF wf x] obtain p' where
    p': "producer_dequeue (q ! i) = (Some x, p')" "wf_producer p'" "producer_items p' = xs" "owner p' = owner (q ! i)"
    by auto
  have "try_dequeue q = (Some x, q[i := p'])"
    using Pair b p'(1) by (simp add: try_dequeue_def)
  with i(1) x p' show ?thesis by (intro that)
qed


lemma try_dequeue_bulk_items:
  assumes "wf_queue q"
  shows "\<exists>q'. try_dequeue_bulk mx q = (take mx (queue_items q), q') \<and> wf_queue q'
    \<and> map owner q' = map owner q \<and> queue_items q' = drop mx (queue_items q)"
  using assms unfolding try_dequeue_bulk_def
proof (induction q arbitrary: mx)
  case Nil
  then show ?case by (simp add: queue_items_def)
next
  case (Cons p q)
  obtain p' where p': "producer_dequeue_bulk mx p = (take mx (producer_items p), p')" "wf_producer p'"
    "producer_items p' = drop mx (producer_items p)" "owner p' = owner p"
    using producer_dequeue_bulk_items [of p mx] Cons.prems by (auto simp: wf_queue_def)
  obtain q' where q': "dequeue_bulk_loop (mx - length (producer_items p)) q =
      (take (mx - length (producer_items p)) (queue_items q), q')" "wf_queue q'"
    "map owner q' = map owner q" "queue_items q' = drop (mx - length (producer_items p)) (queue_items q)"
    using Cons.IH [of "mx - length (producer_items p)"] Cons.prems by (auto simp: wf_queue_def)
  show ?case
  proof (cases "mx \<le> length (producer_items p)")
    case True
    then show ?thesis using p' Cons.prems by (auto simp: wf_queue_def queue_items_def)
  next
    case False
    then have "mx - min (length (producer_items p)) mx = mx - length (producer_items p)" by simp
    then show ?thesis
      using False p' q' Cons.prems
      by (auto simp: wf_queue_def queue_items_def min_absorb1 simp flip: set_map)
  qed
qed

lemma try_dequeue_bulk_wf: "wf_queue q \<Longrightarrow> wf_queue (snd (try_dequeue_bulk n q))"
  using try_dequeue_bulk_items [of q n] by auto

section \<open>What a consumer may rely on\<close>

text \<open>A consumer that dequeues up to \<open>n\<close> times and stops at the first failure.\<close>

primrec deq_iter :: "('q \<Rightarrow> 'a option \<times> 'q) \<Rightarrow> nat \<Rightarrow> 'q \<Rightarrow> 'a list \<times> 'q" where
  "deq_iter deq 0 q = ([], q)"
| "deq_iter deq (Suc n) q =
     (case deq q of
        (None, q') \<Rightarrow> ([], q')
      | (Some x, q') \<Rightarrow> (case deq_iter deq n q' of (xs, q'') \<Rightarrow> (x # xs, q'')))"

text \<open>The contract of a queue with several producers: nothing is lost, made up or duplicated.\<close>

locale bag_queue =
  fixes inv :: "'q \<Rightarrow> bool"
    and bag :: "'q \<Rightarrow> 'a multiset"
    and deq :: "'q \<Rightarrow> 'a option \<times> 'q"
  assumes deq_empty: "inv q \<Longrightarrow> bag q = {#} \<Longrightarrow> deq q = (None, q)"
    and deq_some: "inv q \<Longrightarrow> bag q \<noteq> {#} \<Longrightarrow>
      \<exists>x q'. deq q = (Some x, q') \<and> inv q' \<and> bag q = add_mset x (bag q')"
begin

lemma deq_none_iff: "inv q \<Longrightarrow> fst (deq q) = None \<longleftrightarrow> bag q = {#}"
  using deq_empty [of q] deq_some [of q] by (cases "bag q = {#}") auto

lemma deq_iter_conserves:
  "inv q \<Longrightarrow> deq_iter deq n q = (xs, q') \<Longrightarrow>
   inv q' \<and> bag q = mset xs + bag q' \<and> length xs = min n (size (bag q))"
proof (induction n arbitrary: q xs)
  case (Suc n)
  show ?case
  proof (cases "bag q = {#}")
    case True
    then show ?thesis using Suc.prems deq_empty [OF Suc.prems(1) True] by simp
  next
    case False
    then obtain x q1 where q1: "deq q = (Some x, q1)" "inv q1" "bag q = add_mset x (bag q1)"
      using deq_some Suc.prems(1) by blast
    with Suc.prems(2) obtain ys where ys: "deq_iter deq n q1 = (ys, q')" "xs = x # ys"
      by (auto split: prod.splits)
    have len: "length ys = min n (size (bag q1))" and b: "bag q1 = mset ys + bag q'" and "inv q'"
      using Suc.IH [OF q1(2) ys(1)] by blast+
    moreover have "length xs = min (Suc n) (size (bag q))" unfolding ys(2) q1(3) by (simp add: len)
    moreover have "bag q = mset xs + bag q'" unfolding ys(2) q1(3) b by simp
    ultimately show ?thesis by blast
  qed
qed simp

end

text \<open>The contract of a queue with one producer: first in, first out.\<close>

locale fifo_queue =
  fixes inv :: "'q \<Rightarrow> bool"
    and items :: "'q \<Rightarrow> 'a list"
    and deq :: "'q \<Rightarrow> 'a option \<times> 'q"
  assumes deq_nil: "inv q \<Longrightarrow> items q = [] \<Longrightarrow> deq q = (None, q)"
    and deq_head: "inv q \<Longrightarrow> items q = x # xs \<Longrightarrow>
      \<exists>q'. deq q = (Some x, q') \<and> inv q' \<and> items q' = xs"
begin

lemma deq_iter_order:
  "inv q \<Longrightarrow> deq_iter deq n q = (xs, q') \<Longrightarrow>
   inv q' \<and> xs = take n (items q) \<and> items q' = drop n (items q)"
proof (induction n arbitrary: q xs)
  case (Suc n)
  show ?case
  proof (cases "items q")
    case Nil
    then show ?thesis using Suc.prems deq_nil [OF Suc.prems(1) Nil] by simp
  next
    case (Cons y ys)
    then obtain q1 where q1: "deq q = (Some y, q1)" "inv q1" "items q1 = ys"
      using deq_head Suc.prems(1) by blast
    with Suc.prems(2) obtain zs where zs: "deq_iter deq n q1 = (zs, q')" "xs = y # zs"
      by (auto split: prod.splits)
    from Suc.IH [OF q1(2) zs(1)] show ?thesis unfolding zs(2) Cons using q1(3) by simp
  qed
qed simp

end

sublocale fifo_queue \<subseteq> bag_queue inv "\<lambda>q. mset (items q)" deq
proof
  fix q assume "inv q" and "mset (items q) \<noteq> {#}"
  then show "\<exists>x q'. deq q = (Some x, q') \<and> inv q' \<and> mset (items q) = add_mset x (mset (items q'))"
    using deq_head by (cases "items q") force+
qed (simp add: deq_nil)

lemma wf_queue_update:
  assumes "wf_queue q" and "i < length q" and "wf_producer p" and "owner p = owner (q ! i)"
  shows "wf_queue (q[i := p])"
proof -
  have "map owner (q[i := p]) = map owner q"
    using assms(2,4) by (simp add: map_update list_update_same_conv)
  then show ?thesis
    using assms by (auto simp: wf_queue_def dest!: set_update_subset_insert [THEN subsetD])
qed

lemma queue_items_update:
  assumes "i < length q" and "producer_items (q ! i) = x # producer_items p"
  shows "mset (queue_items q) = add_mset x (mset (queue_items (q[i := p])))"
proof -
  have "q = take i q @ q ! i # drop (Suc i) q" using assms(1) by (rule id_take_nth_drop)
  then have "queue_items q =
      queue_items (take i q) @ (x # producer_items p) @ queue_items (drop (Suc i) q)"
    using assms(2) by (metis (no_types) queue_items_def concat_append map_append concat.simps(2) list.simps(9))
  moreover have "queue_items (q[i := p]) =
      queue_items (take i q) @ producer_items p @ queue_items (drop (Suc i) q)"
    using assms(1) by (simp add: upd_conv_take_nth_drop queue_items_def)
  ultimately show ?thesis by simp
qed

interpretation cq_bag: bag_queue wf_queue "\<lambda>q. mset (queue_items q)" try_dequeue
proof
  fix q :: "'a ConcurrentQueue"
  assume wf: "wf_queue q" and "mset (queue_items q) \<noteq> {#}"
  then have "queue_items q \<noteq> []" by simp
  with wf obtain i x xs p' where r: "i < length q" "producer_items (q ! i) = x # xs"
    "try_dequeue q = (Some x, q[i := p'])" "wf_producer p'" "producer_items p' = xs" "owner p' = owner (q ! i)"
    by (rule try_dequeue_some)
  then show "\<exists>x q'. try_dequeue q = (Some x, q') \<and> wf_queue q' \<and>
      mset (queue_items q) = add_mset x (mset (queue_items q'))"
    using wf_queue_update [OF wf r(1,4,6)] queue_items_update [OF r(1), of x p'] by auto
qed (simp add: try_dequeue_empty)

interpretation cq_fifo: fifo_queue "\<lambda>q. wf_queue q \<and> length q \<le> 1" queue_items try_dequeue
proof
  fix q :: "'a ConcurrentQueue" and x xs
  assume q: "wf_queue q \<and> length q \<le> 1" and items: "queue_items q = x # xs"
  then have wf: "wf_queue q" and ne: "queue_items q \<noteq> []" by simp_all
  obtain i y ys p' where r: "i < length q" "producer_items (q ! i) = y # ys"
    "try_dequeue q = (Some y, q[i := p'])" "wf_producer p'" "producer_items p' = ys" "owner p' = owner (q ! i)"
    by (rule try_dequeue_some [OF wf ne])
  obtain p where p: "q = [p]" using q r(1) by (cases q) auto
  then show "\<exists>q'. try_dequeue q = (Some x, q') \<and> (wf_queue q' \<and> length q' \<le> 1) \<and> queue_items q' = xs"
    using wf_queue_update [OF wf r(1,4,6)] r items by (simp add: queue_items_def)
qed (simp add: try_dequeue_empty)


section \<open>Properties\<close>

text \<open>
  C11. Nothing is lost or duplicated.  Starting from a well-formed queue, with any number of
  producers, \<open>n\<close> calls of \<open>try_dequeue\<close> deliver the smaller of \<open>n\<close> and the number of stored
  elements; what was delivered and what remains are together exactly what was stored.
\<close>

theorem try_dequeue_conserves:
  "wf_queue q \<Longrightarrow> deq_iter try_dequeue n q = (xs, q') \<Longrightarrow>
   wf_queue q' \<and> mset (queue_items q) = mset xs + mset (queue_items q')
   \<and> length xs = min n (length (queue_items q))"
  using cq_bag.deq_iter_conserves [of q n xs q'] by simp

theorem try_dequeue_conserves_witness:
  "length (fst (deq_iter try_dequeue 5 (snd (enqueue 2 (8 :: nat) (snd (enqueue 1 7 new_queue)))))) = 2"
proof -
  let ?q = "snd (enqueue 2 (8 :: nat) (snd (enqueue 1 7 new_queue)))"
  obtain q1 where q1: "enqueue 1 (7 :: nat) new_queue = (True, q1)" "wf_queue q1"
    "mset (queue_items q1) = {#7#}"
    using enqueue_appends [OF wf_new_queue, of 1 "7 :: nat"]
    by (auto simp: queue_room_def new_queue_def queue_items_def)
  have "queue_room 0 q1"
  proof -
    have "snd (enqueue 1 (7 :: nat) new_queue) = q1" using q1(1) by simp
    moreover have "queue_room 0 (snd (enqueue 1 (7 :: nat) new_queue))"
      by (simp add: enqueue_def new_queue_def get_or_add_implicit_producer_def add_producer_def
          new_producer_def producer_enqueue_def queue_room_def producer_size_def
          circular_less_than_iff BLOCK_SIZE_def)
    ultimately show ?thesis by simp
  qed
  then obtain q2 where q2: "enqueue 2 8 q1 = (True, q2)" "wf_queue q2"
    "mset (queue_items q2) = {#7, 8#}"
    using enqueue_appends [OF q1(2), of 2 8] q1(3) by auto
  have "length (queue_items q2) = 2"
    using arg_cong [OF q2(3), of size] by simp
  moreover obtain xs q' where r: "deq_iter try_dequeue 5 q2 = (xs, q')"
    by (cases "deq_iter try_dequeue 5 q2")
  ultimately show ?thesis
    using try_dequeue_conserves [OF q2(2) r] q1(1) q2(1) by simp
qed

lemma enqueue_single:
  assumes "wf_queue q" and "length q \<le> 1" and "\<forall>p \<in> set q. owner p = t"
    and "length (queue_items q) + 64 < 2 ^ 63"
  shows "\<exists>q'. enqueue t x q = (True, q') \<and> wf_queue q' \<and> length q' \<le> 1
    \<and> (\<forall>p \<in> set q'. owner p = t) \<and> queue_items q' = queue_items q @ [x]"
proof (cases q)
  case Nil
  have "\<exists>p'. producer_enqueue x (new_producer t) = (True, p') \<and> wf_producer p'
      \<and> producer_items p' = [] @ [x] \<and> owner p' = t"
    using producer_enqueue_items [OF wf_new_producer, of t x]
    by (simp add: producer_size_def items_new_producer) (simp add: new_producer_def)
  then show ?thesis
    using Nil by (auto simp: enqueue_def get_or_add_implicit_producer_def add_producer_def wf_queue_def
        queue_items_def) (auto simp: new_producer_def)
next
  case (Cons p ps)
  then have q: "q = [p]" and p: "wf_producer p" "owner p = t" using assms by (auto simp: wf_queue_def)
  have "producer_size p + 32 < 2 ^ 63"
    using assms(4) length_producer_items [OF p(1)] by (simp add: q queue_items_def)
  from producer_enqueue_items [OF p(1) this, of x] show ?thesis
    using q p by (auto simp: enqueue_def get_or_add_implicit_producer_def wf_queue_def queue_items_def)
qed

lemma enqueue_all_single:
  assumes "wf_queue q" and "length q \<le> 1" and "\<forall>p \<in> set q. owner p = t"
    and "length (queue_items q) + length xs + 64 < 2 ^ 63"
  shows "wf_queue (foldl (\<lambda>q x. snd (enqueue t x q)) q xs)
    \<and> length (foldl (\<lambda>q x. snd (enqueue t x q)) q xs) \<le> 1
    \<and> queue_items (foldl (\<lambda>q x. snd (enqueue t x q)) q xs) = queue_items q @ xs"
  using assms
proof (induction xs arbitrary: q)
  case (Cons x xs)
  obtain q' where q': "enqueue t x q = (True, q')" "wf_queue q'" "length q' \<le> 1"
    "\<forall>p \<in> set q'. owner p = t" "queue_items q' = queue_items q @ [x]"
    using enqueue_single [OF Cons.prems(1-3), of x] Cons.prems(4) by auto
  then show ?case using Cons.IH [OF q'(2-4)] Cons.prems(4) by simp
qed simp

text \<open>A queue into which one thread has put some elements.\<close>

definition filled :: "tid \<Rightarrow> 'a list \<Rightarrow> 'a ConcurrentQueue" where
  "filled t xs = foldl (\<lambda>q x. snd (enqueue t x q)) new_queue xs"

lemma filled_facts:
  assumes "length xs + 64 < 2 ^ 63"
  shows "wf_queue (filled t xs)" and "length (filled t xs) \<le> 1" and "queue_items (filled t xs) = xs"
  using enqueue_all_single [OF wf_new_queue, of t xs] assms
  by (simp_all add: filled_def new_queue_def queue_items_def)

lemma filled_try_dequeue:
  assumes "length xs + 65 < 2 ^ 63"
  obtains q where "try_dequeue (filled t (x # xs)) = (Some x, q)" "wf_queue q" "queue_items q = xs"
  using cq_fifo.deq_head [of "filled t (x # xs)" x xs] filled_facts [of "x # xs" t] assms by auto

lemma filled_room: "length xs + n + 128 < 2 ^ 63 \<Longrightarrow> queue_room n (filled t xs)"
proof -
  assume len: "length xs + n + 128 < 2 ^ 63"
  have "producer_size p \<le> length xs" if "p \<in> set (filled t xs)" for p
  proof -
    have "filled t xs = [p]" "wf_producer p"
      using that filled_facts(1,2) [of xs t] len by (cases "filled t xs"; auto simp: wf_queue_def)+
    then show ?thesis using filled_facts(3) [of xs t] len length_producer_items [of p] by (simp add: queue_items_def)
  qed
  then show ?thesis using len by (force simp: queue_room_def)
qed

lemma queue_room_nil [simp]: "queue_room n new_queue" "filled t [] = new_queue"
  by (simp_all add: queue_room_def new_queue_def filled_def)

lemma single_item:
  assumes "wf_queue q" and "queue_items q = []" and "queue_room 0 q" and "enqueue t x q = (ok, q1)"
  obtains q2 where "ok" and "try_dequeue q1 = (Some x, q2)" and "wf_queue q2" and "queue_items q2 = []"
proof -
  obtain q' where q': "enqueue t x q = (True, q')" "wf_queue q'" "mset (queue_items q') = {#x#}"
    using enqueue_appends [OF assms(1,3), of t x] assms(2) by auto
  have "\<exists>y q''. try_dequeue q' = (Some y, q'') \<and> wf_queue q'' \<and> {#x#} = add_mset y (mset (queue_items q''))"
    using cq_bag.deq_some [OF q'(2)] q'(3) by auto
  then show ?thesis using that q'(1) assms(4) by auto
qed

text \<open>
  C12. First in, first out.  What one thread enqueues into a new queue is delivered by
  \<open>try_dequeue\<close> completely and in the order of the enqueues, for any number of elements short of
  the 63-bit capacity.
\<close>

theorem single_producer_fifo:
  "length xs + 64 < 2 ^ 63 \<Longrightarrow>
   fst (deq_iter try_dequeue (length xs) (foldl (\<lambda>q x. snd (enqueue t x q)) new_queue xs)) = xs"
proof -
  assume len: "length xs + 64 < 2 ^ 63"
  let ?q = "foldl (\<lambda>q x. snd (enqueue t x q)) new_queue xs"
  have q: "wf_queue ?q \<and> length ?q \<le> 1" "queue_items ?q = xs"
    using enqueue_all_single [OF wf_new_queue, of t xs] len
    by (simp_all add: new_queue_def queue_items_def)
  obtain ys q' where r: "deq_iter try_dequeue (length xs) ?q = (ys, q')"
    by (cases "deq_iter try_dequeue (length xs) ?q")
  then have "ys = take (length xs) (queue_items ?q)"
    using cq_fifo.deq_iter_order [OF q(1)] by blast
  then show ?thesis using r q(2) by simp
qed

theorem single_producer_fifo_witness:
  "fst (deq_iter try_dequeue 3 (foldl (\<lambda>q x. snd (enqueue 9 x q)) new_queue [5, 6, 7 :: nat])) = [5, 6, 7]"
  using single_producer_fifo [of "[5, 6, 7 :: nat]" 9] by (simp add: numeral_3_eq_3)

end
