(* ===== verification/Ddp.thy ===== *)
theory Ddp
  imports Mpa Concurrent_Queue
begin

text \<open>
  \<open>suiw/ddp/\<close>: direct data placement.  A message is cut into segments, one MPA frame each.  A
  tagged segment names a registered buffer and an absolute address (\<open>TO\<close>) in it; an untagged
  segment names a queue of posted buffers and an offset (\<open>MO\<close>) in the buffer taken from it.
  The stream context holds the socket, the posted buffers and the registered buffers; the
  memory of the process is passed alongside.
\<close>

section \<open>Buffers\<close>

record untagged_buffer =
  ub_data :: addr
  ub_len :: u32
  ub_next :: addr

record untagged_buffer_queue =
  utq_q :: "untagged_buffer ConcurrentQueue"
  utq_msn :: int

record pd_t =
  pd_id :: u32

record stag_t =
  stag_tag :: u32
  stag_pd :: pd_t

record tagged_buffer =
  tb_stag :: stag_t
  tb_data :: addr
  tb_len :: u64
  tb_access_ctrl :: int

section \<open>Headers\<close>

definition MAX_UNTAGGED_BUFFERS :: nat where "MAX_UNTAGGED_BUFFERS = 3"
definition DDP_CTRL_SIZE :: int where "DDP_CTRL_SIZE = 1"
definition DDP_TAGGED_HDR_SIZE :: int where "DDP_TAGGED_HDR_SIZE = 13"
definition DDP_UNTAGGED_HDR_SIZE :: int where "DDP_UNTAGGED_HDR_SIZE = 17"

definition DDP_HDR_T :: u8 where "DDP_HDR_T = 0x80"
definition DDP_HDR_L :: u8 where "DDP_HDR_L = 0x40"
definition DDP_HDR_RSVD :: u8 where "DDP_HDR_RSVD = 0x3C"
definition DDP_HDR_DV :: u8 where "DDP_HDR_DV = 0x3"

text \<open>
  \<open>bits |= DDP_FLAG_LAST\<close> on an 8-bit field: the flag is the big-endian image of \<open>0x4000\<close>, which
  on this host is \<open>0x40\<close> in the low byte.
\<close>

definition ddp_set_tagged :: "u8 \<Rightarrow> u8" where "ddp_set_tagged bs = bs"
definition ddp_is_tagged :: "u8 \<Rightarrow> bool" where "ddp_is_tagged bs \<longleftrightarrow> DDP_HDR_T AND bs \<noteq> 0"

record ddp_tagged_meta =
  tm_rsvdULP1 :: u8
  tm_tag :: u32
  tm_TO :: u64

record ddp_untagged_meta =
  um_rsvdULP1 :: u8
  um_rsvdULP2 :: u32
  um_qn :: u32
  um_msn :: u32
  um_mo :: u32

text \<open>The packed layouts, in the byte order the fields hold at that moment.\<close>

definition enc_tagged :: "ddp_tagged_meta \<Rightarrow> bytes" where
  "enc_tagged h = tm_rsvdULP1 h # le_bytes 4 (tm_tag h) @ le_bytes 8 (tm_TO h)"

definition dec_tagged :: "bytes \<Rightarrow> ddp_tagged_meta" where
  "dec_tagged bs = \<lparr>tm_rsvdULP1 = hd bs, tm_tag = of_le (take 4 (drop 1 bs)),
     tm_TO = of_le (take 8 (drop 5 bs))\<rparr>"

definition enc_untagged :: "ddp_untagged_meta \<Rightarrow> bytes" where
  "enc_untagged h = um_rsvdULP1 h # le_bytes 4 (um_rsvdULP2 h) @ le_bytes 4 (um_qn h)
     @ le_bytes 4 (um_msn h) @ le_bytes 4 (um_mo h)"

definition dec_untagged :: "bytes \<Rightarrow> ddp_untagged_meta" where
  "dec_untagged bs = \<lparr>um_rsvdULP1 = hd bs, um_rsvdULP2 = of_le (take 4 (drop 1 bs)),
     um_qn = of_le (take 4 (drop 5 bs)), um_msn = of_le (take 4 (drop 9 bs)),
     um_mo = of_le (take 4 (drop 13 bs))\<rparr>"

text \<open>
  A message.  The two kinds of metadata share 17 bytes, kept as \<open>msg_meta\<close>; the two kinds of
  buffer share storage too, and reading \<open>untag_buf.data\<close> after a tagged buffer was stored
  yields the bytes of its \<open>stag\<close>.
\<close>

datatype ddp_msg_buf = UntagBuf untagged_buffer | TagBuf tagged_buffer

fun untag_buf_data :: "ddp_msg_buf \<Rightarrow> addr" where
  "untag_buf_data (UntagBuf b) = ub_data b"
| "untag_buf_data (TagBuf b) =
     ucast (stag_tag (tb_stag b)) OR push_bit 32 (ucast (pd_id (stag_pd (tb_stag b))))"

record ddp_message =
  msg_bits :: u8
  msg_meta :: bytes
  msg_buf :: ddp_msg_buf
  msg_len :: int

record ddp_stream_context =
  ddp_sockfd :: sock
  ddp_pd :: pd_t
  ddp_queues :: "untagged_buffer_queue list"
  tagged_buffers :: "u32 \<rightharpoonup> tagged_buffer"

definition ddp_init_stream :: "sock \<Rightarrow> pd_t \<Rightarrow> ddp_stream_context" where
  "ddp_init_stream sockfd pd =
     \<lparr>ddp_sockfd = sockfd, ddp_pd = pd,
      ddp_queues = replicate MAX_UNTAGGED_BUFFERS \<lparr>utq_q = new_queue, utq_msn = 1\<rparr>,
      tagged_buffers = Map.empty\<rparr>"

text \<open>\<open>ddp_kill_stream\<close> frees the queue array and the context; the socket stays the caller's.\<close>

definition ddp_kill_stream :: "ddp_stream_context \<Rightarrow> ddp_stream_context option \<times> sock" where
  "ddp_kill_stream ctx = (None, ddp_sockfd ctx)"

section \<open>Sending\<close>

text \<open>
  The inner \<open>while\<close> loop over one scatter/gather element.  \<open>Inl\<close> is an early return with an
  error; \<open>Inr\<close> carries the header bits, the metadata, the host-order offset and the socket to
  the next element.
\<close>

definition segment_len :: "int \<Rightarrow> int" where
  "segment_len remaining_bytes = (if remaining_bytes > MULPDU then MULPDU else remaining_bytes)"

definition segment_addr :: "sge \<Rightarrow> int \<Rightarrow> addr" where
  "segment_addr g remaining_bytes =
     sge_addr g + ucast (sge_length g - of_int remaining_bytes)"

lemma segment_len_pos: "0 < r \<Longrightarrow> 0 < segment_len r" and segment_len_le: "segment_len r \<le> r"
  by (auto simp: segment_len_def MULPDU_def EMSS_def)

lemma segment_decreases: "0 < r \<Longrightarrow> nat (r - segment_len r) < nat r"
  using segment_len_pos [of r] by simp

function ddp_send_tagged_sge ::
    "mem \<Rightarrow> bool \<Rightarrow> sge \<Rightarrow> int \<Rightarrow> u8 \<Rightarrow> ddp_tagged_meta \<Rightarrow> u64 \<Rightarrow> sock
     \<Rightarrow> (int \<times> sock) + (u8 \<times> ddp_tagged_meta \<times> u64 \<times> sock)" where
  "ddp_send_tagged_sge m last_sge g remaining_bytes bs hdr2 ho_TO s =
     (if remaining_bytes > 0 then
        let packet_len = segment_len remaining_bytes;
            bs1 = (if last_sge \<and> packet_len = remaining_bytes then bs OR ucast DDP_FLAG_LAST else bs)
        in case mpa_send s [[bs1], enc_tagged hdr2,
                  mem_read m (segment_addr g remaining_bytes) (nat packet_len)] of (ret, s1) \<Rightarrow>
             if ret < 0 then Inl (ret, s1)
             else
               let ho_TO1 = ho_TO + of_int packet_len
               in ddp_send_tagged_sge m last_sge g (remaining_bytes - packet_len) bs1
                    (hdr2\<lparr>tm_TO := htonll ho_TO1\<rparr>) ho_TO1 s1
      else Inr (bs, hdr2, ho_TO, s))"
  by pat_completeness auto
termination
  by (relation "measure (\<lambda>(m, l, g, r, _). nat r)") (use segment_decreases in auto)

fun ddp_send_tagged_loop ::
    "mem \<Rightarrow> sge list \<Rightarrow> u8 \<Rightarrow> ddp_tagged_meta \<Rightarrow> u64 \<Rightarrow> sock \<Rightarrow> int \<times> sock" where
  "ddp_send_tagged_loop m [] bs hdr2 ho_TO s = (0, s)"
| "ddp_send_tagged_loop m (g # gs) bs hdr2 ho_TO s =
     (case ddp_send_tagged_sge m (gs = []) g (sint (sge_length g)) bs hdr2 ho_TO s of
        Inl r \<Rightarrow> r
      | Inr (bs1, hdr3, ho_TO1, s1) \<Rightarrow> ddp_send_tagged_loop m gs bs1 hdr3 ho_TO1 s1)"

definition ddp_send_tagged ::
    "mem \<Rightarrow> ddp_stream_context \<Rightarrow> ddp_tagged_meta \<Rightarrow> sge list \<Rightarrow> int \<times> ddp_stream_context" where
  "ddp_send_tagged m ctx next_hdr sge_list =
     (case ddp_send_tagged_loop m sge_list (0 OR DDP_HDR_T OR 1) next_hdr (ntohll (tm_TO next_hdr))
             (ddp_sockfd ctx) of (ret, s) \<Rightarrow> (ret, ctx\<lparr>ddp_sockfd := s\<rparr>))"

function ddp_send_untagged_sge ::
    "mem \<Rightarrow> bool \<Rightarrow> sge \<Rightarrow> int \<Rightarrow> u8 \<Rightarrow> ddp_untagged_meta \<Rightarrow> sock
     \<Rightarrow> (int \<times> sock) + (u8 \<times> ddp_untagged_meta \<times> sock)" where
  "ddp_send_untagged_sge m last_sge g remaining_bytes bs hdr2 s =
     (if remaining_bytes > 0 then
        let packet_len = segment_len remaining_bytes;
            bs1 = (if last_sge \<and> packet_len = remaining_bytes then bs OR ucast DDP_FLAG_LAST else bs)
        in case mpa_send s [[bs1], enc_untagged hdr2,
                  mem_read m (segment_addr g remaining_bytes) (nat packet_len)] of (ret, s1) \<Rightarrow>
             if ret < 0 then Inl (ret, s1)
             else ddp_send_untagged_sge m last_sge g (remaining_bytes - packet_len) bs1
                    (hdr2\<lparr>um_mo := um_mo hdr2 + of_int packet_len\<rparr>) s1
      else Inr (bs, hdr2, s))"
  by pat_completeness auto
termination
  by (relation "measure (\<lambda>(m, l, g, r, _). nat r)") (use segment_decreases in auto)

fun ddp_send_untagged_loop ::
    "mem \<Rightarrow> sge list \<Rightarrow> u8 \<Rightarrow> ddp_untagged_meta \<Rightarrow> sock \<Rightarrow> int \<times> sock" where
  "ddp_send_untagged_loop m [] bs hdr2 s = (0, s)"
| "ddp_send_untagged_loop m (g # gs) bs hdr2 s =
     (case ddp_send_untagged_sge m (gs = []) g (sint (sge_length g)) bs hdr2 s of
        Inl r \<Rightarrow> r
      | Inr (bs1, hdr3, s1) \<Rightarrow> ddp_send_untagged_loop m gs bs1 hdr3 s1)"

definition ddp_send_untagged ::
    "mem \<Rightarrow> ddp_stream_context \<Rightarrow> ddp_untagged_meta \<Rightarrow> sge list \<Rightarrow> int \<times> ddp_stream_context" where
  "ddp_send_untagged m ctx next_hdr sge_list =
     (case ddp_send_untagged_loop m sge_list (0 OR 1) (next_hdr\<lparr>um_mo := 0\<rparr>) (ddp_sockfd ctx) of
        (ret, s) \<Rightarrow> (ret, ctx\<lparr>ddp_sockfd := s\<rparr>))"

declare ddp_send_tagged_sge.simps [simp del] ddp_send_untagged_sge.simps [simp del]

section \<open>Posting and checking buffers\<close>

definition ddp_post_recv ::
    "tid \<Rightarrow> ddp_stream_context \<Rightarrow> int \<Rightarrow> untagged_buffer list \<Rightarrow> ddp_stream_context" where
  "ddp_post_recv t ctx qn bufs =
     (if qn < 0 \<or> qn \<ge> int MAX_UNTAGGED_BUFFERS then ctx
      else
        let i = nat qn; ut_q = ddp_queues ctx ! i
        in ctx\<lparr>ddp_queues := (ddp_queues ctx)
             [i := ut_q\<lparr>utq_q := snd (enqueue_bulk t bufs (utq_q ut_q))\<rparr>]\<rparr>)"

text \<open>The result is the index of the queue; the stored \<open>msn\<close> is compared as a \<open>uint32_t\<close>.\<close>

definition ddp_check_untagged_hdr :: "ddp_stream_context \<Rightarrow> ddp_untagged_meta \<Rightarrow> nat option" where
  "ddp_check_untagged_hdr ctx hdr =
     (if unat (um_qn hdr) \<ge> MAX_UNTAGGED_BUFFERS then None
      else
        let qn = unat (um_qn hdr)
        in if (of_int (utq_msn (ddp_queues ctx ! qn)) :: u32) > um_msn hdr then None
           else Some qn)"

definition register_tagged_buffer ::
    "ddp_stream_context \<Rightarrow> tagged_buffer \<Rightarrow> int \<times> tagged_buffer \<times> ddp_stream_context" where
  "register_tagged_buffer ctx buf =
     (let buf1 = buf\<lparr>tb_stag := (tb_stag buf)\<lparr>stag_tag := ucast (tb_data buf)\<rparr>\<rparr>
      in (0, buf1, ctx\<lparr>tagged_buffers := (tagged_buffers ctx)(stag_tag (tb_stag buf1) \<mapsto> buf1)\<rparr>))"

definition deregister_tagged_buffer ::
    "ddp_stream_context \<Rightarrow> stag_t \<Rightarrow> int \<times> ddp_stream_context" where
  "deregister_tagged_buffer ctx stag =
     (if tagged_buffers ctx (stag_tag stag) = None then 0 else 1,
      ctx\<lparr>tagged_buffers := (tagged_buffers ctx)(stag_tag stag := None)\<rparr>)"

definition ddp_check_stag :: "ddp_stream_context \<Rightarrow> ddp_tagged_meta \<Rightarrow> tagged_buffer option" where
  "ddp_check_stag ctx hdr =
     (case tagged_buffers ctx (tm_tag hdr) of
        None \<Rightarrow> None
      | Some b \<Rightarrow>
          if tb_data b > tm_TO hdr \<or> tb_data b + tb_len b < tm_TO hdr then None else Some b)"

section \<open>Receiving\<close>

text \<open>
  The loop over the segments of a tagged message.  \<open>packed_hdr\<close> is the structure the header of
  every further segment is read into; the address of the next payload is its \<open>TO\<close> field.
  \<open>Inl\<close> is the return value of an early return, \<open>Inr\<close> the accumulated payload length.
\<close>

definition packed_bits :: "bytes \<Rightarrow> u8" where "packed_bits p = hd p"

partial_function (option) ddp_recv_tagged_loop ::
    "bytes \<Rightarrow> siw_mpa_packet \<Rightarrow> int \<Rightarrow> int \<Rightarrow> sock \<Rightarrow> mem \<Rightarrow> ((int + int) \<times> sock \<times> mem) option" where
  "ddp_recv_tagged_loop packed_hdr pkt mpa_payload_len ddp_payload_len s m =
     Option.bind (mpa_recv s pkt mpa_payload_len) (\<lambda>(ret, bs, pkt1, s1).
       let TO = tm_TO (dec_tagged (tl packed_hdr));
           m1 = mem_write m TO bs;
           ddp_payload_len1 = ddp_payload_len + mpa_payload_len
       in if ret < 0 then Some (Inl (-1), s1, m1)
          else if packed_bits packed_hdr AND ucast DDP_FLAG_LAST \<noteq> 0
          then Some (Inr ddp_payload_len1, s1, m1)
          else
            Option.bind (mpa_recv s1 (pkt1\<lparr>bytes_rcvd := 0\<rparr>) (DDP_CTRL_SIZE + DDP_TAGGED_HDR_SIZE))
              (\<lambda>(ret, hs, pkt2, s2).
                let p1 = buf_put packed_hdr 0 hs
                in if ret < 0 then Some (Inl (-1), s2, m1)
                   else
                     let h = dec_tagged (tl p1);
                         p2 = packed_bits p1 # enc_tagged (h\<lparr>tm_TO := ntohll (tm_TO h)\<rparr>) @ drop 14 p1
                     in ddp_recv_tagged_loop p2 pkt2
                          (uint (ulpdu_len pkt2) - (DDP_CTRL_SIZE + DDP_TAGGED_HDR_SIZE))
                          ddp_payload_len1 s2 m1))"

partial_function (option) ddp_recv_untagged_loop ::
    "addr \<Rightarrow> bytes \<Rightarrow> siw_mpa_packet \<Rightarrow> int \<Rightarrow> int \<Rightarrow> sock \<Rightarrow> mem \<Rightarrow> ((int + int) \<times> sock \<times> mem) option" where
  "ddp_recv_untagged_loop dat packed_hdr pkt mpa_payload_len ddp_payload_len s m =
     Option.bind (mpa_recv s pkt mpa_payload_len) (\<lambda>(ret, bs, pkt1, s1).
       let mo = um_mo (dec_untagged (tl packed_hdr));
           m1 = mem_write m (dat + ucast mo) bs;
           ddp_payload_len1 = ddp_payload_len + mpa_payload_len
       in if ret < 0 then Some (Inl (-1), s1, m1)
          else if packed_bits packed_hdr AND ucast DDP_FLAG_LAST \<noteq> 0
          then Some (Inr ddp_payload_len1, s1, m1)
          else
            Option.bind (mpa_recv s1 (pkt1\<lparr>bytes_rcvd := 0\<rparr>) (DDP_CTRL_SIZE + DDP_UNTAGGED_HDR_SIZE))
              (\<lambda>(ret, hs, pkt2, s2).
                let p1 = buf_put packed_hdr 0 hs
                in if ret < 0 then Some (Inl (-1), s2, m1)
                   else
                     let h = dec_untagged (tl p1);
                         p2 = packed_bits p1 # enc_untagged (h\<lparr>um_mo := ntohl (um_mo h)\<rparr>)
                     in ddp_recv_untagged_loop dat p2 pkt2
                          (uint (ulpdu_len pkt2) - (DDP_CTRL_SIZE + DDP_UNTAGGED_HDR_SIZE))
                          ddp_payload_len1 s2 m1))"

text \<open>
  The two branches of \<open>ddp_recv\<close>, entered with the control byte in \<open>msg_bits\<close>.  The fields of
  \<open>packed_hdr\<close> that the source leaves uninitialised are zero here; none of them is read before
  the next header overwrites it.
\<close>

definition ddp_recv_tagged ::
    "ddp_stream_context \<Rightarrow> ddp_message \<Rightarrow> siw_mpa_packet \<Rightarrow> sock \<Rightarrow> mem
     \<Rightarrow> (int \<times> ddp_stream_context \<times> ddp_message \<times> mem) option" where
  "ddp_recv_tagged ctx msg pkt s m =
     (let mpa_payload_len = uint (ulpdu_len pkt) - (DDP_CTRL_SIZE + DDP_TAGGED_HDR_SIZE)
      in if mpa_payload_len < 0 then Some (-1, ctx\<lparr>ddp_sockfd := s\<rparr>, msg, m)
      else Option.bind (mpa_recv s pkt DDP_TAGGED_HDR_SIZE) (\<lambda>(ret, hs, pkt1, s1).
        let msg1 = msg\<lparr>msg_meta := buf_put (msg_meta msg) 0 hs\<rparr>; ctx1 = ctx\<lparr>ddp_sockfd := s1\<rparr>
        in if ret < 0 then Some (ret, ctx1, msg1, m)
        else
          let h = dec_tagged (msg_meta msg1);
              h1 = h\<lparr>tm_tag := ntohl (tm_tag h), tm_TO := ntohll (tm_TO h)\<rparr>;
              msg2 = msg1\<lparr>msg_meta := buf_put (msg_meta msg1) 0 (enc_tagged h1)\<rparr>
          in case ddp_check_stag ctx h1 of
               None \<Rightarrow> Some (-1, ctx1, msg2, m)
             | Some b \<Rightarrow>
                 let msg3 = msg2\<lparr>msg_buf := TagBuf b\<rparr>;
                     packed_hdr = msg_bits msg
                       # enc_tagged \<lparr>tm_rsvdULP1 = 0, tm_tag = 0, tm_TO = tm_TO h1\<rparr> @ replicate 4 0
                 in Option.bind (ddp_recv_tagged_loop packed_hdr pkt1 mpa_payload_len 0 s1 m)
                      (\<lambda>(r, s2, m2). case r of
                          Inl e \<Rightarrow> Some (e, ctx\<lparr>ddp_sockfd := s2\<rparr>, msg3, m2)
                        | Inr len \<Rightarrow> Some (0, ctx\<lparr>ddp_sockfd := s2\<rparr>, msg3\<lparr>msg_len := len\<rparr>, m2))))"

definition ddp_recv_untagged ::
    "ddp_stream_context \<Rightarrow> ddp_message \<Rightarrow> siw_mpa_packet \<Rightarrow> sock \<Rightarrow> mem
     \<Rightarrow> (int \<times> ddp_stream_context \<times> ddp_message \<times> mem) option" where
  "ddp_recv_untagged ctx msg pkt s m =
     (let mpa_payload_len = uint (ulpdu_len pkt) - (DDP_CTRL_SIZE + DDP_UNTAGGED_HDR_SIZE)
      in if mpa_payload_len < 0 then Some (-1, ctx\<lparr>ddp_sockfd := s\<rparr>, msg, m)
      else Option.bind (mpa_recv s pkt DDP_UNTAGGED_HDR_SIZE) (\<lambda>(ret, hs, pkt1, s1).
        let msg1 = msg\<lparr>msg_meta := buf_put (msg_meta msg) 0 hs\<rparr>; ctx1 = ctx\<lparr>ddp_sockfd := s1\<rparr>
        in if ret < 0 then Some (ret, ctx1, msg1, m)
        else
          let h = dec_untagged (msg_meta msg1);
              h1 = h\<lparr>um_mo := ntohl (um_mo h), um_qn := ntohl (um_qn h), um_msn := ntohl (um_msn h)\<rparr>;
              msg2 = msg1\<lparr>msg_meta := enc_untagged h1\<rparr>
          in case ddp_check_untagged_hdr ctx h1 of
               None \<Rightarrow> Some (-1, ctx1, msg2, m)
             | Some i \<Rightarrow>
                 (case try_dequeue (utq_q (ddp_queues ctx ! i)) of (found, q1) \<Rightarrow>
                 let ctx2 = ctx\<lparr>ddp_queues := (ddp_queues ctx)
                       [i := (ddp_queues ctx ! i)\<lparr>utq_q := q1\<rparr>]\<rparr>;
                     msg3 = (case found of None \<Rightarrow> msg2 | Some b \<Rightarrow> msg2\<lparr>msg_buf := UntagBuf b\<rparr>);
                     packed_hdr = msg_bits msg # enc_untagged \<lparr>um_rsvdULP1 = 0, um_rsvdULP2 = 0,
                       um_qn = 0, um_msn = 0, um_mo = um_mo h1\<rparr>
                 in Option.bind (ddp_recv_untagged_loop (untag_buf_data (msg_buf msg3)) packed_hdr
                        pkt1 mpa_payload_len 0 s1 m)
                      (\<lambda>(r, s2, m2). case r of
                          Inl e \<Rightarrow> Some (e, ctx2\<lparr>ddp_sockfd := s2\<rparr>, msg3, m2)
                        | Inr len \<Rightarrow> Some (0, ctx2\<lparr>ddp_sockfd := s2\<rparr>,
                            msg3\<lparr>msg_meta := enc_untagged (h1\<lparr>um_mo := 0\<rparr>), msg_len := len\<rparr>, m2)))))"

definition ddp_recv ::
    "ddp_stream_context \<Rightarrow> ddp_message \<Rightarrow> mem
     \<Rightarrow> (int \<times> ddp_stream_context \<times> ddp_message \<times> mem) option" where
  "ddp_recv ctx msg m =
     Option.bind (mpa_recv (ddp_sockfd ctx) init_mpa_packet DDP_CTRL_SIZE) (\<lambda>(ret, bs, pkt, s).
       let msg1 = msg\<lparr>msg_bits := hd (buf_put [msg_bits msg] 0 bs)\<rparr>
       in if ret < DDP_CTRL_SIZE then Some (ret, ctx\<lparr>ddp_sockfd := s\<rparr>, msg1, m)
          else if msg_bits msg1 AND DDP_HDR_T \<noteq> 0 then ddp_recv_tagged ctx msg1 pkt s m
          else ddp_recv_untagged ctx msg1 pkt s m)"


section \<open>Layouts\<close>

lemma length_enc_tagged [simp]: "length (enc_tagged h) = 13"
  and length_enc_untagged [simp]: "length (enc_untagged u) = 17"
  by (simp_all add: enc_tagged_def enc_untagged_def)

lemma dec_enc_tagged [simp]: "dec_tagged (enc_tagged h @ r) = h"
  by (simp add: dec_tagged_def enc_tagged_def of_le_le_bytes_full)

lemma dec_enc_untagged [simp]: "dec_untagged (enc_untagged h @ r) = h"
  by (simp add: dec_untagged_def enc_untagged_def of_le_le_bytes_full)

interpretation tagged_codec: fixed_codec enc_tagged dec_tagged 13 "\<lambda>_. True"
  by unfold_locales (use dec_enc_tagged [of _ "[]"] in simp_all)

interpretation untagged_codec: fixed_codec enc_untagged dec_untagged 17 "\<lambda>_. True"
  by unfold_locales (use dec_enc_untagged [of _ "[]"] in simp_all)

section \<open>A stream of segments\<close>

text \<open>
  A segment on the wire: the control byte, the packed metadata and the payload, in one MPA
  frame.  \<open>place_segs\<close> is where a receiver puts the payloads of a list of segments, given how
  it computes the destination from the header it last read.
\<close>

type_synonym seg = "u8 \<times> bytes \<times> bytes"

definition seg_frame :: "seg \<Rightarrow> bytes" where
  "seg_frame = (\<lambda>(b, h, pl). mpa_frame [[b], h, pl])"

definition seg_stream :: "seg list \<Rightarrow> bytes" where
  "seg_stream sgs = concat (map seg_frame sgs)"

definition seg_payload :: "seg list \<Rightarrow> bytes" where
  "seg_payload sgs = concat (map (\<lambda>(b, h, pl). pl) sgs)"

fun place_segs ::
    "(bytes \<Rightarrow> addr) \<Rightarrow> (bytes \<Rightarrow> bytes) \<Rightarrow> bytes \<Rightarrow> seg list \<Rightarrow> mem \<Rightarrow> mem" where
  "place_segs dest fixhdr p [] m = m"
| "place_segs dest fixhdr p ((b, h, pl) # sgs) m =
     (let p1 = fixhdr (buf_put p 0 (b # h))
      in place_segs dest fixhdr p1 sgs (mem_write m (dest p1) pl))"

definition is_last :: "u8 \<Rightarrow> bool" where
  "is_last b \<longleftrightarrow> b AND ucast DDP_FLAG_LAST \<noteq> 0"

text \<open>Segments with headers of \<open>n\<close> bytes and a payload, the last of them and no other flagged.\<close>

fun segs_ok :: "nat \<Rightarrow> seg list \<Rightarrow> bool" where
  "segs_ok n [] \<longleftrightarrow> False"
| "segs_ok n ((b, h, pl) # sgs) \<longleftrightarrow>
     length h = n \<and> pl \<noteq> [] \<and> length pl < 65500 \<and> (if sgs = [] then is_last b else \<not> is_last b \<and> segs_ok n sgs)"

lemma seg_stream_Cons: "seg_stream (x # xs) = seg_frame x @ seg_stream xs"
  by (simp add: seg_stream_def)

lemma seg_payload_Cons: "seg_payload ((b, h, pl) # xs) = pl @ seg_payload xs"
  by (simp add: seg_payload_def)

lemma length_frame_parts: "length (concat [[b], h, pl]) = 1 + length h + length pl"
  by simp

text \<open>Reading the headers of a segment leaves its payload as the next bytes of the stream.\<close>

lemma mpa_recv_seg_header:
  assumes "bytes_rcvd p = 0" and "rx s = RxData (seg_frame (b, h, pl) @ d) # es"
    and "pl \<noteq> []" and "length h + length pl < 65535" and "n = 1 + int (length h)"
  shows "mpa_recv s p n = Some (2 + n, b # h,
      p\<lparr>ulpdu_len := of_nat (1 + length h + length pl), bytes_rcvd := 2 + n\<rparr>,
      s\<lparr>rx := RxData (pl @ mpa_trailer (int (1 + length h + length pl)) @ d) # es\<rparr>)"
proof -
  let ?l = "mpa_ulpdu_len [[b], h, pl]"
  have l: "?l = of_nat (1 + length h + length pl)" by (simp add: mpa_ulpdu_len_concat)
  have u: "uint ?l = int (1 + length h + length pl)"
    using uint_mpa_ulpdu_len [of "[[b], h, pl]"] assms(4) by simp
  let ?d = "(b # h) @ pl @ mpa_trailer (uint ?l) @ d"
  have "rx s = RxData (le_bytes 2 (htons ?l) @ ?d) # es"
    using assms(2) by (simp add: seg_frame_def mpa_frame_eq)
  then have "mpa_recv s p n = mpa_recv (s\<lparr>rx := RxData ?d # es\<rparr>) (p\<lparr>ulpdu_len := ?l, bytes_rcvd := 2\<rparr>) n"
    by (rule mpa_recv_first [OF assms(1)])
  also have "\<dots> = Some (2 + int 0 + int (length (b # h)), b # h,
      (p\<lparr>ulpdu_len := ?l, bytes_rcvd := 2\<rparr>)\<lparr>bytes_rcvd := 2 + int 0 + int (length (b # h))\<rparr>,
      (s\<lparr>rx := RxData ?d # es\<rparr>)\<lparr>rx := RxData (pl @ mpa_trailer (uint ?l) @ d) # es\<rparr>)"
    using assms(3,5) u
      mpa_recv_mid [of "p\<lparr>ulpdu_len := ?l, bytes_rcvd := 2\<rparr>" 0 "s\<lparr>rx := RxData ?d # es\<rparr>" "b # h"]
    by (cases pl) simp_all
  finally show ?thesis using assms(5) by (simp only: u) (simp add: l)
qed

text \<open>Reading the payload takes the trailer with it.\<close>

lemma mpa_recv_seg_payload:
  assumes "bytes_rcvd p = 3 + int n" and "ulpdu_len p = of_nat (1 + n + length pl)"
    and "rx s = RxData (pl @ mpa_trailer (int (1 + n + length pl)) @ d) # es"
    and "pl \<noteq> []" and "n + length pl < 65535"
  shows "\<exists>r p'. mpa_recv s p (int (length pl)) = Some (r, pl, p', s\<lparr>rx := RxData d # es\<rparr>) \<and> 0 \<le> r"
proof -
  have u: "uint (ulpdu_len p) = int (1 + n + length pl)"
    unfolding assms(2) using assms(5) by (intro uint_of_nat_u16) simp
  have "0 \<le> mpa_padding (uint (ulpdu_len p))" by (simp add: mpa_padding_def)
  then show ?thesis
    using mpa_recv_last [of p "1 + n" s pl d es "int (length pl)"] assms u by auto
qed


text \<open>
  What the two receive loops have in common: a payload goes to an address computed from the
  header in \<open>packed_hdr\<close>, the flag in its control byte ends the loop, and otherwise the next
  header is read over it and brought into host order.
\<close>

locale segment_loop =
  fixes loop :: "bytes \<Rightarrow> siw_mpa_packet \<Rightarrow> int \<Rightarrow> int \<Rightarrow> sock \<Rightarrow> mem \<Rightarrow> ((int + int) \<times> sock \<times> mem) option"
    and n :: nat
    and dest :: "bytes \<Rightarrow> addr"
    and fixhdr :: "bytes \<Rightarrow> bytes"
  assumes small: "n < 30"
    and bits_fix: "packed_bits (fixhdr (b # bs)) = b"
    and loop_eq: "loop p pkt len acc s m =
      Option.bind (mpa_recv s pkt len) (\<lambda>(ret, bs, pkt1, s1).
        if ret < 0 then Some (Inl (-1), s1, mem_write m (dest p) bs)
        else if is_last (packed_bits p) then Some (Inr (acc + len), s1, mem_write m (dest p) bs)
        else Option.bind (mpa_recv s1 (pkt1\<lparr>bytes_rcvd := 0\<rparr>) (1 + int n)) (\<lambda>(ret, hs, pkt2, s2).
          if ret < 0 then Some (Inl (-1), s2, mem_write m (dest p) bs)
          else loop (fixhdr (buf_put p 0 hs)) pkt2 (uint (ulpdu_len pkt2) - (1 + int n))
                 (acc + len) s2 (mem_write m (dest p) bs)))"
begin

lemma loop_stream:
  assumes "bytes_rcvd pkt = 3 + int n" and "ulpdu_len pkt = of_nat (1 + n + length pl)"
    and "pl \<noteq> []" and "length pl < 65500"
    and "rx s = RxData (pl @ mpa_trailer (int (1 + n + length pl)) @ seg_stream sgs @ d) # es"
    and "if sgs = [] then is_last (packed_bits p) else \<not> is_last (packed_bits p) \<and> segs_ok n sgs"
  shows "loop p pkt (int (length pl)) acc s m =
    Some (Inr (acc + int (length pl) + int (length (seg_payload sgs))), s\<lparr>rx := RxData d # es\<rparr>,
      place_segs dest fixhdr p sgs (mem_write m (dest p) pl))"
  using assms
proof (induction sgs arbitrary: p pkt pl acc s m)
  case Nil
  then obtain r p' where "mpa_recv s pkt (int (length pl)) = Some (r, pl, p', s\<lparr>rx := RxData d # es\<rparr>)" "0 \<le> r"
    using mpa_recv_seg_payload [of pkt n pl s d es] small by (auto simp: seg_stream_def)
  then show ?case using Nil by (subst loop_eq) (simp add: seg_payload_def)
next
  case (Cons sg sgs)
  obtain b h pl' where sg: "sg = (b, h, pl')" by (cases sg)
  have h: "length h = n" "pl' \<noteq> []" "length pl' < 65500"
    "if sgs = [] then is_last b else \<not> is_last b \<and> segs_ok n sgs"
    using Cons.prems(6) sg by auto
  let ?s1 = "s\<lparr>rx := RxData (seg_stream (sg # sgs) @ d) # es\<rparr>"
  obtain r p1 where p1: "mpa_recv s pkt (int (length pl)) = Some (r, pl, p1, ?s1)" "0 \<le> r"
    using mpa_recv_seg_payload [OF Cons.prems(1,2,5,3)] Cons.prems(4) small by auto
  let ?p2 = "p1\<lparr>ulpdu_len := of_nat (1 + length h + length pl'), bytes_rcvd := 2 + (1 + int n)\<rparr>"
  let ?s2 = "s\<lparr>rx := RxData (pl' @ mpa_trailer (int (1 + n + length pl')) @ seg_stream sgs @ d) # es\<rparr>"
  have "mpa_recv ?s1 (p1\<lparr>bytes_rcvd := 0\<rparr>) (1 + int n) = Some (2 + (1 + int n), b # h, ?p2, ?s2)"
    using mpa_recv_seg_header [of "p1\<lparr>bytes_rcvd := 0\<rparr>" ?s1 b h pl' "seg_stream sgs @ d" es "1 + int n"]
      h small sg by (simp add: seg_stream_Cons)
  moreover have u: "uint (of_nat (1 + length h + length pl') :: u16) = 1 + int n + int (length pl')"
    using h small by (subst uint_of_nat_u16) auto
  ultimately have step: "loop p pkt (int (length pl)) acc s m =
      loop (fixhdr (buf_put p 0 (b # h))) ?p2 (int (length pl')) (acc + int (length pl)) ?s2 (mem_write m (dest p) pl)"
    using p1 Cons.prems(6) by (subst loop_eq) simp
  have bits: "packed_bits (fixhdr (buf_put p 0 (b # h))) = b"
    by (simp add: buf_put_def bits_fix)
  show ?case unfolding step
    using Cons.IH [of ?p2 pl' ?s2 "fixhdr (buf_put p 0 (b # h))" "acc + int (length pl)"
        "mem_write m (dest p) pl"] h bits
    by (simp add: sg seg_payload_Cons Let_def)
qed

end

definition tagged_dest :: "bytes \<Rightarrow> addr" where
  "tagged_dest p = tm_TO (dec_tagged (tl p))"

definition tagged_fix :: "bytes \<Rightarrow> bytes" where
  "tagged_fix p = (let h = dec_tagged (tl p)
     in packed_bits p # enc_tagged (h\<lparr>tm_TO := ntohll (tm_TO h)\<rparr>) @ drop 14 p)"

definition untagged_dest :: "addr \<Rightarrow> bytes \<Rightarrow> addr" where
  "untagged_dest a p = a + ucast (um_mo (dec_untagged (tl p)))"

definition untagged_fix :: "bytes \<Rightarrow> bytes" where
  "untagged_fix p = (let h = dec_untagged (tl p)
     in packed_bits p # enc_untagged (h\<lparr>um_mo := ntohl (um_mo h)\<rparr>))"

lemma ddp_hdr_sizes:
  "DDP_CTRL_SIZE + DDP_TAGGED_HDR_SIZE = 1 + int 13" "DDP_CTRL_SIZE + DDP_UNTAGGED_HDR_SIZE = 1 + int 17"
  by (simp_all add: DDP_CTRL_SIZE_def DDP_TAGGED_HDR_SIZE_def DDP_UNTAGGED_HDR_SIZE_def)

lemma packed_bits_fix: "packed_bits (tagged_fix (b # bs)) = b" "packed_bits (untagged_fix (b # bs)) = b"
  by (simp_all add: tagged_fix_def untagged_fix_def packed_bits_def Let_def)

interpretation tagged: segment_loop ddp_recv_tagged_loop 13 tagged_dest tagged_fix
  by (unfold_locales, simp, rule packed_bits_fix, subst ddp_recv_tagged_loop.simps,
      unfold tagged_dest_def tagged_fix_def is_last_def Let_def ddp_hdr_sizes, rule refl)

interpretation untagged: segment_loop "ddp_recv_untagged_loop a" 17 "untagged_dest a" untagged_fix for a
  by (unfold_locales, simp, rule packed_bits_fix, subst ddp_recv_untagged_loop.simps,
      unfold untagged_dest_def untagged_fix_def is_last_def Let_def ddp_hdr_sizes, rule refl)


section \<open>What the senders put on the wire\<close>

definition sge_bytes :: "mem \<Rightarrow> sge \<Rightarrow> bytes" where
  "sge_bytes m g = mem_read m (sge_addr g) (unat (sge_length g))"

definition gather :: "mem \<Rightarrow> sge list \<Rightarrow> bytes" where
  "gather m gs = concat (map (sge_bytes m) gs)"

text \<open>The payload of one element, cut at every \<open>MULPDU\<close> = 65014 bytes.\<close>

function chunks :: "bytes \<Rightarrow> bytes list" where
  "chunks xs = (if xs = [] then [] else take 65014 xs # chunks (drop 65014 xs))"
  by pat_completeness auto
termination
  by (relation "measure length") auto

declare chunks.simps [simp del]

definition payloads :: "mem \<Rightarrow> sge list \<Rightarrow> bytes list" where
  "payloads m gs = concat (map (\<lambda>g. chunks (sge_bytes m g)) gs)"

text \<open>Elements an \<open>int\<close> can count, the last of them not empty.\<close>

definition sges_ok :: "sge list \<Rightarrow> bool" where
  "sges_ok gs \<longleftrightarrow> gs \<noteq> [] \<and> sge_length (last gs) \<noteq> 0 \<and> (\<forall>g \<in> set gs. unat (sge_length g) < 2 ^ 31)"

lemma chunks_Nil [simp]: "chunks [] = []"
  by (simp add: chunks.simps)

lemma concat_chunks [simp]: "concat (chunks xs) = xs"
proof (induction xs rule: chunks.induct)
  case (1 xs)
  then show ?case by (cases "xs = []") (simp_all add: chunks.simps [of xs])
qed

lemma chunks_sizes: "pl \<in> set (chunks xs) \<Longrightarrow> pl \<noteq> [] \<and> length pl \<le> 65014"
proof (induction xs rule: chunks.induct)
  case (1 xs)
  then show ?case by (cases "xs = []") (auto simp: chunks.simps [of xs])
qed

lemma chunks_eq_Nil [simp]: "chunks xs = [] \<longleftrightarrow> xs = []"
  by (subst chunks.simps) simp

lemma MULPDU_eq: "MULPDU = 65014"
  by (simp add: MULPDU_def EMSS_def)

lemma chunks_mem_read:
  assumes "0 < r"
  shows "chunks (mem_read m a (nat r)) = mem_read m a (nat (segment_len r))
    # chunks (mem_read m (a + of_int (segment_len r)) (nat (r - segment_len r)))"
proof -
  let ?p = "nat (segment_len r)" and ?q = "nat (r - segment_len r)"
  have nat_r: "nat r = ?p + ?q"
    using segment_len_pos [OF assms] segment_len_le [of r] by simp
  have split: "mem_read m a (nat r) = mem_read m a ?p @ mem_read m (a + of_nat ?p) ?q"
    unfolding nat_r by (rule mem_read_add)
  have ne: "mem_read m a (nat r) \<noteq> []" using assms by (simp add: mem_read_def)
  have "?p = 65014 \<or> ?q = 0 \<and> ?p \<le> 65014" by (auto simp: segment_len_def MULPDU_eq)
  then have "take 65014 (mem_read m a (nat r)) = mem_read m a ?p"
    and "drop 65014 (mem_read m a (nat r)) = mem_read m (a + of_nat ?p) ?q"
    unfolding split by auto
  moreover have "(of_nat ?p :: addr) = of_int (segment_len r)"
    using segment_len_pos [OF assms] by simp
  ultimately show ?thesis using ne by (subst chunks.simps) simp
qed

lemma segment_addr_eq:
  assumes "0 \<le> r" and "r \<le> uint (sge_length g)"
  shows "segment_addr g r = sge_addr g + of_int (uint (sge_length g) - r)"
proof -
  have "sge_length g - of_int r = of_int (uint (sge_length g) - r)" by simp
  moreover have "uint (of_int (uint (sge_length g) - r) :: u32) = uint (sge_length g) - r"
    unfolding uint_word_of_int using assms uint_bounded [of "sge_length g"] by simp
  ultimately have "uint (sge_length g - of_int r) = uint (sge_length g) - r" by (simp only:)
  moreover have "(ucast w :: addr) = of_int (uint w)" for w :: u32 by simp
  ultimately show ?thesis by (simp only: segment_addr_def)
qed

lemma segment_addr_next:
  assumes "0 < r" and "r \<le> uint (sge_length g)"
  shows "segment_addr g (r - segment_len r) = segment_addr g r + of_int (segment_len r)"
  using assms segment_len_pos [of r] segment_len_le [of r] by (simp add: segment_addr_eq)

fun tagged_segs :: "bool \<Rightarrow> u8 \<Rightarrow> u32 \<Rightarrow> u64 \<Rightarrow> bytes list \<Rightarrow> seg list" where
  "tagged_segs fin rv tg to [] = []"
| "tagged_segs fin rv tg to (pl # pls) =
     (if fin \<and> pls = [] then 0xC1 else 0x81,
      enc_tagged \<lparr>tm_rsvdULP1 = rv, tm_tag = tg, tm_TO = htonll to\<rparr>, pl)
     # tagged_segs fin rv tg (to + of_nat (length pl)) pls"

lemma tagged_segs_append:
  "ys \<noteq> [] \<Longrightarrow> tagged_segs True rv tg to (xs @ ys) =
     tagged_segs False rv tg to xs @ tagged_segs True rv tg (to + of_nat (length (concat xs))) ys"
  by (induction xs arbitrary: to) (auto simp: add.assoc)

lemma seg_stream_append: "seg_stream (xs @ ys) = seg_stream xs @ seg_stream ys"
  by (simp add: seg_stream_def)

lemma DDP_FLAG_LAST_eq: "(ucast DDP_FLAG_LAST :: u8) = 0x40"
  by code_simp

lemma ddp_send_tagged_sge_wire:
  assumes "tx_plan s = []" and "0 \<le> r" and "r \<le> uint (sge_length g)"
  shows "ddp_send_tagged_sge m l g r 0x81 \<lparr>tm_rsvdULP1 = rv, tm_tag = tg, tm_TO = htonll to\<rparr> to s =
    Inr (if l \<and> 0 < r then 0xC1 else 0x81,
         \<lparr>tm_rsvdULP1 = rv, tm_tag = tg, tm_TO = htonll (to + of_int r)\<rparr>, to + of_int r,
         s\<lparr>tx := tx s @ seg_stream (tagged_segs l rv tg to
                    (chunks (mem_read m (segment_addr g r) (nat r))))\<rparr>)"
  using assms
proof (induction "nat r" arbitrary: r to s rule: less_induct)
  case less
  show ?case
  proof (cases "0 < r")
    case False
    then show ?thesis using less.prems by (subst ddp_send_tagged_sge.simps) (simp add: seg_stream_def)
  next
    case True
    let ?p = "segment_len r" and ?a = "segment_addr g r"
    let ?h = "\<lparr>tm_rsvdULP1 = rv, tm_tag = tg, tm_TO = htonll to\<rparr>"
    let ?fr = "\<lambda>b. mpa_frame [[b], enc_tagged ?h, mem_read m ?a (nat ?p)]"
    have p: "0 < ?p" "?p \<le> r" using True segment_len_pos segment_len_le by auto
    have ch: "chunks (mem_read m ?a (nat r)) =
        mem_read m ?a (nat ?p) # chunks (mem_read m (?a + of_int ?p) (nat (r - ?p)))"
      by (rule chunks_mem_read [OF True])
    have nilq: "chunks (mem_read m (?a + of_int ?p) (nat (r - ?p))) = [] \<longleftrightarrow> r = ?p"
      using p by (auto simp: mem_read_def)
    have to: "to + of_nat (nat ?p) = to + of_int ?p" using p by simp
    show ?thesis
    proof (cases "r = ?p")
      case only: True
      then show ?thesis
        using True less.prems(1) p ch to
        by (subst ddp_send_tagged_sge.simps, simp only: mpa_send_ok)
          (simp add: ddp_send_tagged_sge.simps [of _ _ _ 0] seg_stream_def seg_frame_def DDP_FLAG_LAST_eq Let_def)
    next
      case more: False
      have "ddp_send_tagged_sge m l g r 0x81 ?h to s = ddp_send_tagged_sge m l g (r - ?p) 0x81
          \<lparr>tm_rsvdULP1 = rv, tm_tag = tg, tm_TO = htonll (to + of_int ?p)\<rparr> (to + of_int ?p)
          (s\<lparr>tx := tx s @ ?fr 0x81\<rparr>)"
        using True more less.prems(1) by (subst ddp_send_tagged_sge.simps) (simp add: mpa_send_ok Let_def)
      also have "\<dots> = Inr (if l \<and> 0 < r - ?p then 0xC1 else 0x81,
         \<lparr>tm_rsvdULP1 = rv, tm_tag = tg, tm_TO = htonll (to + of_int ?p + of_int (r - ?p))\<rparr>,
         to + of_int ?p + of_int (r - ?p),
         (s\<lparr>tx := tx s @ ?fr 0x81\<rparr>)\<lparr>tx := tx (s\<lparr>tx := tx s @ ?fr 0x81\<rparr>)
            @ seg_stream (tagged_segs l rv tg (to + of_int ?p)
                (chunks (mem_read m (segment_addr g (r - ?p)) (nat (r - ?p)))))\<rparr>)"
        using p less.prems by (intro less.hyps) auto
      finally show ?thesis
        using True more p ch nilq to segment_addr_next [OF True less.prems(3)]
        by (simp add: seg_stream_Cons seg_frame_def)
    qed
  qed
qed


lemma sint_u32_small: "unat (w :: u32) < 2 ^ 31 \<Longrightarrow> sint w = uint w"
proof -
  assume "unat w < 2 ^ 31"
  then have "uint w < 2 ^ 31" by (simp add: unat_eq_nat_uint nat_less_iff del: nat_uint_eq)
  then show ?thesis
    unfolding sint_uint by (intro signed_take_bit_int_eq_self) (simp_all add: order_trans [of _ 0])
qed

lemma payloads_nonempty: "sges_ok gs \<Longrightarrow> payloads m gs \<noteq> []"
proof -
  assume ok: "sges_ok gs"
  then have "sge_bytes m (last gs) \<noteq> []" by (simp add: sge_bytes_def sges_ok_def mem_read_def unat_gt_0)
  then show ?thesis using ok last_in_set [of gs] by (fastforce simp: payloads_def sges_ok_def)
qed

lemma ddp_send_tagged_loop_wire:
  assumes "sges_ok gs" and "tx_plan s = []"
  shows "ddp_send_tagged_loop m gs 0x81 \<lparr>tm_rsvdULP1 = rv, tm_tag = tg, tm_TO = htonll to\<rparr> to s =
    (0, s\<lparr>tx := tx s @ seg_stream (tagged_segs True rv tg to (payloads m gs))\<rparr>)"
  using assms
proof (induction gs arbitrary: to s)
  case (Cons g gs)
  have len: "sint (sge_length g) = uint (sge_length g)"
    using Cons.prems(1) by (intro sint_u32_small) (simp add: sges_ok_def)
  have all: "mem_read m (segment_addr g (uint (sge_length g))) (nat (uint (sge_length g))) = sge_bytes m g"
    by (simp add: segment_addr_eq sge_bytes_def)
  note w = ddp_send_tagged_sge_wire [OF Cons.prems(2), of "uint (sge_length g)" g m "gs = []" rv tg to, unfolded all]
  show ?case
  proof (cases "gs = []")
    case True
    then show ?thesis using w by (simp add: len payloads_def)
  next
    case False
    then have ok: "sges_ok gs" using Cons.prems(1) by (simp add: sges_ok_def)
    let ?s1 = "s\<lparr>tx := tx s @ seg_stream (tagged_segs False rv tg to (chunks (sge_bytes m g)))\<rparr>"
    have ne: "payloads m gs \<noteq> []" by (rule payloads_nonempty [OF ok])
    have step: "ddp_send_tagged_loop m (g # gs) 0x81 \<lparr>tm_rsvdULP1 = rv, tm_tag = tg, tm_TO = htonll to\<rparr> to s =
        ddp_send_tagged_loop m gs 0x81 \<lparr>tm_rsvdULP1 = rv, tm_tag = tg,
          tm_TO = htonll (to + of_int (uint (sge_length g)))\<rparr> (to + of_int (uint (sge_length g))) ?s1"
      using w False by (simp add: len)
    have off: "of_int (uint (sge_length g)) = (of_nat (length (concat (chunks (sge_bytes m g)))) :: u64)"
      by (simp add: sge_bytes_def)
    have "ddp_send_tagged_loop m (g # gs) 0x81 \<lparr>tm_rsvdULP1 = rv, tm_tag = tg, tm_TO = htonll to\<rparr> to s =
      (0, ?s1\<lparr>tx := tx ?s1 @ seg_stream (tagged_segs True rv tg (to + of_int (uint (sge_length g))) (payloads m gs))\<rparr>)"
      unfolding step using Cons.prems(2) by (intro Cons.IH [OF ok]) simp
    moreover have "seg_stream (tagged_segs True rv tg to (payloads m (g # gs))) =
        seg_stream (tagged_segs False rv tg to (chunks (sge_bytes m g))) @
        seg_stream (tagged_segs True rv tg (to + of_int (uint (sge_length g))) (payloads m gs))"
      unfolding off using tagged_segs_append [OF ne] by (simp add: payloads_def seg_stream_append)
    ultimately show ?thesis by simp
  qed
qed (simp add: sges_ok_def)

lemma concat_payloads: "concat (payloads m gs) = gather m gs"
  by (induction gs) (simp_all add: payloads_def gather_def)

lemma payloads_sizes: "\<forall>pl \<in> set (payloads m gs). pl \<noteq> [] \<and> length pl \<le> 65014"
  using chunks_sizes by (auto simp: payloads_def)


section \<open>Tagged delivery\<close>

lemma tagged_dest_fix:
  "tagged_dest (tagged_fix (buf_put p 0 (b # enc_tagged h))) = ntohll (tm_TO h)"
  by (simp add: tagged_dest_def tagged_fix_def buf_put_def Let_def)

lemma place_tagged_segs:
  "place_segs tagged_dest tagged_fix p (tagged_segs fin rv tg to pls) m = mem_write m to (concat pls)"
  by (induction pls arbitrary: p to m) (simp_all add: Let_def tagged_dest_fix mem_write_append)

lemma is_last_bits: "is_last 0xC1" "\<not> is_last 0x81" "is_last 0x41" "\<not> is_last 0x01"
  by (simp_all add: is_last_def DDP_FLAG_LAST_eq)

lemma segs_ok_tagged:
  "pls \<noteq> [] \<Longrightarrow> (\<And>pl. pl \<in> set pls \<Longrightarrow> pl \<noteq> [] \<and> length pl \<le> 65014) \<Longrightarrow>
   segs_ok 13 (tagged_segs True rv tg to pls)"
proof (induction pls arbitrary: to)
  case (Cons pl pls)
  then have "pl \<noteq> []" "length pl < 65500" by fastforce+
  then show ?case using Cons by (cases pls) (auto simp: is_last_bits)
qed simp

lemma seg_payload_tagged: "seg_payload (tagged_segs fin rv tg to pls) = concat pls"
  by (induction pls arbitrary: to) (simp_all add: seg_payload_def)

text \<open>The control byte and the metadata of the first segment are read by two calls.\<close>

lemma mpa_recv_ctrl:
  assumes "rx s = RxData (seg_frame (b, h, pl) @ d) # es" and "h \<noteq> []" and "pl \<noteq> []"
    and "length h + length pl < 65535"
  shows "mpa_recv s init_mpa_packet 1 = Some (3, [b],
      \<lparr>ulpdu_len = of_nat (1 + length h + length pl), crc = 0, bytes_rcvd = 3\<rparr>,
      s\<lparr>rx := RxData (h @ pl @ mpa_trailer (int (1 + length h + length pl)) @ d) # es\<rparr>)"
    and "mpa_recv (s\<lparr>rx := RxData (h @ pl @ mpa_trailer (int (1 + length h + length pl)) @ d) # es\<rparr>)
        \<lparr>ulpdu_len = of_nat (1 + length h + length pl), crc = 0, bytes_rcvd = 3\<rparr> (int (length h)) =
      Some (3 + int (length h), h,
        \<lparr>ulpdu_len = of_nat (1 + length h + length pl), crc = 0, bytes_rcvd = 3 + int (length h)\<rparr>,
        s\<lparr>rx := RxData (pl @ mpa_trailer (int (1 + length h + length pl)) @ d) # es\<rparr>)"
proof -
  let ?l = "of_nat (1 + length h + length pl) :: u16"
  let ?t = "h @ pl @ mpa_trailer (int (1 + length h + length pl)) @ d"
  have pos: "0 < int (length h) + int (length pl)" "0 < int (length pl)" using assms(2,3) by (cases h; cases pl; simp)+
  have l: "mpa_ulpdu_len [[b], h, pl] = ?l" by (simp add: mpa_ulpdu_len_concat)
  have u: "uint ?l = int (1 + length h + length pl)" using assms(4) by (intro uint_of_nat_u16) simp
  have "rx s = RxData (le_bytes 2 (htons ?l) @ [b] @ ?t) # es"
    using assms(1) by (simp only: seg_frame_def mpa_frame_eq prod.case l u) simp
  then have "mpa_recv s init_mpa_packet 1 =
      mpa_recv (s\<lparr>rx := RxData ([b] @ ?t) # es\<rparr>) (init_mpa_packet\<lparr>ulpdu_len := ?l, bytes_rcvd := 2\<rparr>) 1"
    by (intro mpa_recv_first) (simp_all add: init_mpa_packet_def)
  also have "\<dots> = Some (3, [b], \<lparr>ulpdu_len = ?l, crc = 0, bytes_rcvd = 3\<rparr>, s\<lparr>rx := RxData ?t # es\<rparr>)"
    using mpa_recv_mid [of "init_mpa_packet\<lparr>ulpdu_len := ?l, bytes_rcvd := 2\<rparr>" 0
        "s\<lparr>rx := RxData ([b] @ ?t) # es\<rparr>" "[b]" ?t es] pos(1) u
    by (simp add: init_mpa_packet_def)
  finally show "mpa_recv s init_mpa_packet 1 = Some (3, [b], \<lparr>ulpdu_len = ?l, crc = 0, bytes_rcvd = 3\<rparr>,
      s\<lparr>rx := RxData ?t # es\<rparr>)" .
  show "mpa_recv (s\<lparr>rx := RxData ?t # es\<rparr>) \<lparr>ulpdu_len = ?l, crc = 0, bytes_rcvd = 3\<rparr> (int (length h)) =
      Some (3 + int (length h), h, \<lparr>ulpdu_len = ?l, crc = 0, bytes_rcvd = 3 + int (length h)\<rparr>,
        s\<lparr>rx := RxData (pl @ mpa_trailer (int (1 + length h + length pl)) @ d) # es\<rparr>)"
    using mpa_recv_mid [of "\<lparr>ulpdu_len = ?l, crc = 0, bytes_rcvd = 3\<rparr>" 1 "s\<lparr>rx := RxData ?t # es\<rparr>" h] assms(2) pos u
    by simp
qed

text \<open>A stream of tagged segments whose first header passes the check is placed as one block.\<close>

lemma ddp_recv_tagged_stream:
  assumes "rx (ddp_sockfd ctx) = RxData (seg_stream (tagged_segs True rv (htonl tg) to pls) @ d) # es"
    and "pls \<noteq> []" and "\<forall>pl \<in> set pls. pl \<noteq> [] \<and> length pl \<le> 65014"
    and "ddp_check_stag ctx \<lparr>tm_rsvdULP1 = rv, tm_tag = tg, tm_TO = to\<rparr> = Some b"
  shows "\<exists>msg'. ddp_recv ctx msg m =
      Some (0, ctx\<lparr>ddp_sockfd := (ddp_sockfd ctx)\<lparr>rx := RxData d # es\<rparr>\<rparr>, msg', mem_write m to (concat pls))
    \<and> msg_len msg' = int (length (concat pls)) \<and> msg_buf msg' = TagBuf b
    \<and> dec_tagged (msg_meta msg') = \<lparr>tm_rsvdULP1 = rv, tm_tag = tg, tm_TO = to\<rparr>
    \<and> ddp_is_tagged (msg_bits msg')"
proof -
  obtain pl rest where pls: "pls = pl # rest" using assms(2) by (cases pls) auto
  have pl: "pl \<noteq> []" "length pl \<le> 65014" using assms(3) pls by auto
  define bb :: u8 where "bb = (if rest = [] then 0xC1 else 0x81)"
  let ?h = "\<lparr>tm_rsvdULP1 = rv, tm_tag = htonl tg, tm_TO = htonll to\<rparr>"
  let ?sgs = "tagged_segs True rv (htonl tg) (to + of_nat (length pl)) rest"
  let ?s = "ddp_sockfd ctx"
  let ?t = "pl @ mpa_trailer (int (14 + length pl)) @ seg_stream ?sgs @ d"
  have "rx ?s = RxData (seg_frame (bb, enc_tagged ?h, pl) @ (seg_stream ?sgs @ d)) # es"
    using assms(1) by (simp add: pls bb_def seg_stream_Cons)
  note r = mpa_recv_ctrl [OF this, simplified]
  let ?p = "\<lparr>ulpdu_len = of_nat (14 + length pl) :: u16, crc = 0, bytes_rcvd = 3\<rparr>"
  have r1: "mpa_recv ?s init_mpa_packet 1 = Some (3, [bb], ?p, ?s\<lparr>rx := RxData (enc_tagged ?h @ ?t) # es\<rparr>)"
    and r2: "mpa_recv (?s\<lparr>rx := RxData (enc_tagged ?h @ ?t) # es\<rparr>) ?p 13 =
      Some (16, enc_tagged ?h, ?p\<lparr>bytes_rcvd := 16\<rparr>, ?s\<lparr>rx := RxData ?t # es\<rparr>)"
    using r pl by (simp_all add: enc_tagged_def)
  have u: "uint (of_nat (14 + length pl) :: u16) = 14 + int (length pl)"
    using pl by (subst uint_of_nat_u16) simp_all
  let ?ph = "bb # enc_tagged \<lparr>tm_rsvdULP1 = 0, tm_tag = 0, tm_TO = to\<rparr> @ replicate 4 0"
  have rest: "if ?sgs = [] then is_last (packed_bits ?ph) else \<not> is_last (packed_bits ?ph) \<and> segs_ok 13 ?sgs"
  proof (cases rest)
    case Nil
    then show ?thesis by (simp add: bb_def packed_bits_def is_last_bits)
  next
    case (Cons x xs)
    then have "segs_ok 13 ?sgs" using assms(3) pls by (intro segs_ok_tagged) auto
    then show ?thesis using Cons by (simp add: bb_def packed_bits_def is_last_bits)
  qed
  have loop: "ddp_recv_tagged_loop ?ph (?p\<lparr>bytes_rcvd := 16\<rparr>) (int (length pl)) 0 (?s\<lparr>rx := RxData ?t # es\<rparr>) m =
      Some (Inr (int (length (concat pls))), ?s\<lparr>rx := RxData d # es\<rparr>, mem_write m to (concat pls))"
    using tagged.loop_stream [of "?p\<lparr>bytes_rcvd := 16\<rparr>" pl "?s\<lparr>rx := RxData ?t # es\<rparr>" ?sgs d es ?ph 0 m] pl rest
    by (simp add: place_tagged_segs seg_payload_tagged pls mem_write_append)
      (simp add: tagged_dest_def)
  have T: "bb AND DDP_HDR_T \<noteq> 0" "ddp_is_tagged bb"
    by (simp_all add: bb_def DDP_HDR_T_def ddp_is_tagged_def)
  show ?thesis
    unfolding ddp_recv_def DDP_CTRL_SIZE_def r1
    using T r2 loop assms(4) u
    by (simp add: ddp_recv_tagged_def DDP_CTRL_SIZE_def DDP_TAGGED_HDR_SIZE_def Let_def buf_put_def)
qed


section \<open>Untagged segments\<close>

text \<open>The offset is put on the wire as it is; only the receiver converts it.\<close>

fun untagged_segs :: "bool \<Rightarrow> ddp_untagged_meta \<Rightarrow> bytes list \<Rightarrow> seg list" where
  "untagged_segs fin h [] = []"
| "untagged_segs fin h (pl # pls) =
     (if fin \<and> pls = [] then 0x41 else 0x01, enc_untagged h, pl)
     # untagged_segs fin (h\<lparr>um_mo := um_mo h + of_nat (length pl)\<rparr>) pls"

lemma untagged_segs_append:
  "ys \<noteq> [] \<Longrightarrow> untagged_segs True h (xs @ ys) =
     untagged_segs False h xs @ untagged_segs True (h\<lparr>um_mo := um_mo h + of_nat (length (concat xs))\<rparr>) ys"
  by (induction xs arbitrary: h) (auto simp: add.assoc)

lemma ddp_send_untagged_sge_wire:
  assumes "tx_plan s = []" and "0 \<le> r" and "r \<le> uint (sge_length g)"
  shows "ddp_send_untagged_sge m l g r 0x01 h s =
    Inr (if l \<and> 0 < r then 0x41 else 0x01, h\<lparr>um_mo := um_mo h + of_int r\<rparr>,
         s\<lparr>tx := tx s @ seg_stream (untagged_segs l h
                    (chunks (mem_read m (segment_addr g r) (nat r))))\<rparr>)"
  using assms
proof (induction "nat r" arbitrary: r h s rule: less_induct)
  case less
  show ?case
  proof (cases "0 < r")
    case False
    then show ?thesis using less.prems by (subst ddp_send_untagged_sge.simps) (simp add: seg_stream_def)
  next
    case True
    let ?p = "segment_len r" and ?a = "segment_addr g r"
    let ?fr = "mpa_frame [[0x01], enc_untagged h, mem_read m ?a (nat ?p)]"
    let ?h = "h\<lparr>um_mo := um_mo h + of_int ?p\<rparr>"
    have p: "0 < ?p" "?p \<le> r" using True segment_len_pos segment_len_le by auto
    note ch = chunks_mem_read [OF True, of m ?a]
    have nilq: "chunks (mem_read m (?a + of_int ?p) (nat (r - ?p))) = [] \<longleftrightarrow> r = ?p"
      using p by (auto simp: mem_read_def)
    have mo: "um_mo h + of_nat (nat ?p) = um_mo h + of_int ?p" using p by simp
    show ?thesis
    proof (cases "r = ?p")
      case only: True
      then show ?thesis
        using True less.prems(1) p ch mo
        by (subst ddp_send_untagged_sge.simps, simp only: mpa_send_ok)
          (simp add: ddp_send_untagged_sge.simps [of _ _ _ 0] seg_stream_def seg_frame_def DDP_FLAG_LAST_eq Let_def)
    next
      case more: False
      have "ddp_send_untagged_sge m l g r 0x01 h s =
          ddp_send_untagged_sge m l g (r - ?p) 0x01 ?h (s\<lparr>tx := tx s @ ?fr\<rparr>)"
        using True more less.prems(1) by (subst ddp_send_untagged_sge.simps) (simp add: mpa_send_ok Let_def)
      also have "\<dots> = Inr (if l \<and> 0 < r - ?p then 0x41 else 0x01, ?h\<lparr>um_mo := um_mo ?h + of_int (r - ?p)\<rparr>,
         (s\<lparr>tx := tx s @ ?fr\<rparr>)\<lparr>tx := tx (s\<lparr>tx := tx s @ ?fr\<rparr>)
            @ seg_stream (untagged_segs l ?h
                (chunks (mem_read m (segment_addr g (r - ?p)) (nat (r - ?p)))))\<rparr>)"
        using p less.prems by (intro less.hyps) auto
      finally show ?thesis
        using True more p ch nilq mo segment_addr_next [OF True less.prems(3)]
        by (simp add: seg_stream_Cons seg_frame_def)
    qed
  qed
qed

lemma ddp_send_untagged_loop_wire:
  assumes "sges_ok gs" and "tx_plan s = []"
  shows "ddp_send_untagged_loop m gs 0x01 h s =
    (0, s\<lparr>tx := tx s @ seg_stream (untagged_segs True h (payloads m gs))\<rparr>)"
  using assms
proof (induction gs arbitrary: h s)
  case (Cons g gs)
  have len: "sint (sge_length g) = uint (sge_length g)"
    using Cons.prems(1) by (intro sint_u32_small) (simp add: sges_ok_def)
  have all: "mem_read m (segment_addr g (uint (sge_length g))) (nat (uint (sge_length g))) = sge_bytes m g"
    by (simp add: segment_addr_eq sge_bytes_def)
  note w = ddp_send_untagged_sge_wire [OF Cons.prems(2), of "uint (sge_length g)" g m "gs = []" h, unfolded all]
  show ?case
  proof (cases "gs = []")
    case True
    then show ?thesis using w by (simp add: len payloads_def)
  next
    case False
    then have ok: "sges_ok gs" using Cons.prems(1) by (simp add: sges_ok_def)
    let ?h = "h\<lparr>um_mo := um_mo h + of_int (uint (sge_length g))\<rparr>"
    let ?s1 = "s\<lparr>tx := tx s @ seg_stream (untagged_segs False h (chunks (sge_bytes m g)))\<rparr>"
    have off: "of_int (uint (sge_length g)) = (of_nat (length (concat (chunks (sge_bytes m g)))) :: u32)"
      by (simp add: sge_bytes_def)
    have "ddp_send_untagged_loop m (g # gs) 0x01 h s = ddp_send_untagged_loop m gs 0x01 ?h ?s1"
      using w False by (simp add: len)
    also have "\<dots> = (0, ?s1\<lparr>tx := tx ?s1 @ seg_stream (untagged_segs True ?h (payloads m gs))\<rparr>)"
      using Cons.prems(2) by (intro Cons.IH [OF ok]) simp
    finally show ?thesis
      unfolding off using untagged_segs_append [OF payloads_nonempty [OF ok], of h "chunks (sge_bytes m g)"]
      by (simp add: payloads_def seg_stream_append)
  qed
qed (simp add: sges_ok_def)

lemma untagged_segs_eq_Nil [simp]: "untagged_segs fin h pls = [] \<longleftrightarrow> pls = []"
  by (cases pls) simp_all

lemma segs_ok_untagged:
  "pls \<noteq> [] \<Longrightarrow> (\<And>pl. pl \<in> set pls \<Longrightarrow> pl \<noteq> [] \<and> length pl \<le> 65014) \<Longrightarrow>
   segs_ok 17 (untagged_segs True h pls)"
proof (induction pls arbitrary: h)
  case (Cons pl pls)
  then have "pl \<noteq> []" "length pl < 65500" by fastforce+
  moreover have "segs_ok 17 (untagged_segs True (h\<lparr>um_mo := um_mo h + of_nat (length pl)\<rparr>) pls)"
    if "pls \<noteq> []" using Cons.prems(2) that by (intro Cons.IH) auto
  ultimately show ?case by (simp add: is_last_bits)
qed simp

lemma seg_payload_untagged: "seg_payload (untagged_segs fin h pls) = concat pls"
  by (induction pls arbitrary: h) (simp_all add: seg_payload_def)

text \<open>Where the receiver puts the payloads: each offset with its bytes reversed.\<close>

fun place_untagged :: "addr \<Rightarrow> u32 \<Rightarrow> bytes list \<Rightarrow> mem \<Rightarrow> mem" where
  "place_untagged a mo [] m = m"
| "place_untagged a mo (pl # pls) m =
     place_untagged a (mo + of_nat (length pl)) pls (mem_write m (a + ucast (ntohl mo)) pl)"

lemma untagged_dest_fix:
  "untagged_dest a (untagged_fix (buf_put p 0 (b # enc_untagged h))) = a + ucast (ntohl (um_mo h))"
  by (simp add: untagged_dest_def untagged_fix_def buf_put_def Let_def)
    (use dec_enc_untagged [of _ "[]"] in simp)

lemma place_untagged_segs:
  "place_segs (untagged_dest a) untagged_fix p (untagged_segs fin h pls) m = place_untagged a (um_mo h) pls m"
  by (induction pls arbitrary: p h m) (simp_all add: Let_def untagged_dest_fix)


lemma ntohl_0 [simp]: "ntohl 0 = 0"
  by code_simp

lemma ddp_recv_untagged_stream:
  fixes rv r2 q n
  defines "h1 \<equiv> \<lparr>um_rsvdULP1 = rv, um_rsvdULP2 = r2, um_qn = q, um_msn = n, um_mo = 0\<rparr>"
  assumes "rx (ddp_sockfd ctx) = RxData (seg_stream (untagged_segs True
        (h1\<lparr>um_qn := htonl q, um_msn := htonl n\<rparr>) pls) @ d) # es"
    and "pls \<noteq> []" and "\<forall>pl \<in> set pls. pl \<noteq> [] \<and> length pl \<le> 65014"
    and "ddp_check_untagged_hdr ctx h1 = Some i"
    and "try_dequeue (utq_q (ddp_queues ctx ! i)) = (found, q1)"
  shows "\<exists>msg'. ddp_recv ctx msg m =
      Some (0, ctx\<lparr>ddp_queues := (ddp_queues ctx)[i := (ddp_queues ctx ! i)\<lparr>utq_q := q1\<rparr>],
                  ddp_sockfd := (ddp_sockfd ctx)\<lparr>rx := RxData d # es\<rparr>\<rparr>, msg',
            place_untagged (untag_buf_data (msg_buf msg')) 0 pls m)
    \<and> msg_len msg' = int (length (concat pls)) \<and> dec_untagged (msg_meta msg') = h1
    \<and> msg_buf msg' = (case found of None \<Rightarrow> msg_buf msg | Some b \<Rightarrow> UntagBuf b)
    \<and> \<not> ddp_is_tagged (msg_bits msg')"
proof -
  obtain pl rest where pls: "pls = pl # rest" using assms(3) by (cases pls) auto
  have pl: "pl \<noteq> []" "length pl \<le> 65014" using assms(4) pls by auto
  define bb :: u8 where "bb = (if rest = [] then 0x41 else 0x01)"
  define a where "a = untag_buf_data (case found of None \<Rightarrow> msg_buf msg | Some b \<Rightarrow> UntagBuf b)"
  let ?h = "h1\<lparr>um_qn := htonl q, um_msn := htonl n\<rparr>"
  let ?sgs = "untagged_segs True (?h\<lparr>um_mo := of_nat (length pl)\<rparr>) rest"
  let ?s = "ddp_sockfd ctx"
  let ?t = "pl @ mpa_trailer (int (18 + length pl)) @ seg_stream ?sgs @ d"
  have "rx ?s = RxData (seg_frame (bb, enc_untagged ?h, pl) @ (seg_stream ?sgs @ d)) # es"
    using assms(2) by (simp add: pls bb_def seg_stream_Cons h1_def)
  note r = mpa_recv_ctrl [OF this, simplified]
  let ?p = "\<lparr>ulpdu_len = of_nat (18 + length pl) :: u16, crc = 0, bytes_rcvd = 3\<rparr>"
  have r1: "mpa_recv ?s init_mpa_packet 1 = Some (3, [bb], ?p, ?s\<lparr>rx := RxData (enc_untagged ?h @ ?t) # es\<rparr>)"
    and r2: "mpa_recv (?s\<lparr>rx := RxData (enc_untagged ?h @ ?t) # es\<rparr>) ?p 17 =
      Some (20, enc_untagged ?h, ?p\<lparr>bytes_rcvd := 20\<rparr>, ?s\<lparr>rx := RxData ?t # es\<rparr>)"
    using r pl by (simp_all add: enc_untagged_def)
  have u: "uint (of_nat (18 + length pl) :: u16) = 18 + int (length pl)"
    using pl by (subst uint_of_nat_u16) simp_all
  let ?ph = "bb # enc_untagged \<lparr>um_rsvdULP1 = 0, um_rsvdULP2 = 0, um_qn = 0, um_msn = 0, um_mo = 0\<rparr>"
  have rest: "if ?sgs = [] then is_last (packed_bits ?ph) else \<not> is_last (packed_bits ?ph) \<and> segs_ok 17 ?sgs"
  proof (cases "rest = []")
    case False
    then have "segs_ok 17 ?sgs" using assms(4) pls by (intro segs_ok_untagged) auto
    then show ?thesis using False by (simp add: bb_def packed_bits_def is_last_bits)
  qed (simp add: bb_def packed_bits_def is_last_bits)
  have dest: "untagged_dest a ?ph = a"
    using dec_enc_untagged [of _ "[]"] by (simp add: untagged_dest_def)
  have loop: "ddp_recv_untagged_loop a ?ph (?p\<lparr>bytes_rcvd := 20\<rparr>) (int (length pl)) 0 (?s\<lparr>rx := RxData ?t # es\<rparr>) m =
      Some (Inr (int (length (concat pls))), ?s\<lparr>rx := RxData d # es\<rparr>, place_untagged a 0 pls m)"
    using untagged.loop_stream [of "?p\<lparr>bytes_rcvd := 20\<rparr>" pl "?s\<lparr>rx := RxData ?t # es\<rparr>" ?sgs d es ?ph a 0 m] pl rest
    by (simp add: place_untagged_segs seg_payload_untagged pls dest)
  have T: "bb AND DDP_HDR_T = 0" "\<not> ddp_is_tagged bb"
    by (simp_all add: bb_def DDP_HDR_T_def ddp_is_tagged_def)
  have dec: "dec_untagged (enc_untagged h) = h" for h using dec_enc_untagged [of h "[]"] by simp
  have h1: "ddp_check_untagged_hdr ctx \<lparr>um_rsvdULP1 = rv, um_rsvdULP2 = r2, um_qn = q, um_msn = n, um_mo = 0\<rparr> = Some i"
    using assms(5) by (simp add: h1_def)
  show ?thesis
    unfolding ddp_recv_def DDP_CTRL_SIZE_def r1
    using T r2 loop h1 assms(6) u
    by (cases found)
      (simp_all add: ddp_recv_untagged_def DDP_CTRL_SIZE_def DDP_UNTAGGED_HDR_SIZE_def Let_def buf_put_def
        h1_def a_def dec)
qed


section \<open>The invariant of a stream context\<close>

definition ddp_ok :: "ddp_stream_context \<Rightarrow> bool" where
  "ddp_ok ctx \<longleftrightarrow> length (ddp_queues ctx) = MAX_UNTAGGED_BUFFERS
     \<and> (\<forall>q \<in> set (ddp_queues ctx). utq_msn q = 1 \<and> wf_queue (utq_q q))"

lemma ddp_ok_sockfd [simp]: "ddp_ok (ctx\<lparr>ddp_sockfd := s\<rparr>) = ddp_ok ctx"
  by (simp add: ddp_ok_def)

lemma ddp_ok_update:
  assumes "ddp_ok ctx" and "i < 3" and "wf_queue q"
  shows "ddp_ok (ctx\<lparr>ddp_queues := (ddp_queues ctx)[i := (ddp_queues ctx ! i)\<lparr>utq_q := q\<rparr>]\<rparr>)"
proof -
  have "ddp_queues ctx ! i \<in> set (ddp_queues ctx)"
    using assms(1,2) by (simp add: ddp_ok_def MAX_UNTAGGED_BUFFERS_def)
  then show ?thesis
    using assms by (auto simp: ddp_ok_def dest!: set_update_subset_insert [THEN subsetD])
qed

lemma try_dequeue_wf: "wf_queue q \<Longrightarrow> wf_queue (snd (try_dequeue q))"
  using cq_bag.deq_empty [of q] cq_bag.deq_some [of q]
  by (cases "queue_items q = []") (auto simp: try_dequeue_empty)

lemma ddp_check_untagged_bound: "ddp_check_untagged_hdr ctx h = Some i \<Longrightarrow> i < 3"
  by (auto simp: ddp_check_untagged_hdr_def MAX_UNTAGGED_BUFFERS_def Let_def split: if_splits)

lemma ddp_recv_tagged_ok:
  "ddp_ok ctx \<Longrightarrow> ddp_recv_tagged ctx msg pkt s m = Some (r, ctx', msg', m') \<Longrightarrow> ddp_ok ctx'"
  by (auto simp: ddp_recv_tagged_def Let_def split: if_splits option.splits sum.splits bind_splits)

lemma ddp_recv_untagged_ok:
  assumes "ddp_ok ctx" and "ddp_recv_untagged ctx msg pkt s m = Some (r, ctx', msg', m')"
  shows "ddp_ok ctx'"
proof -
  have key: "ddp_ok (ctx\<lparr>ddp_queues := (ddp_queues ctx)[i := (ddp_queues ctx ! i)\<lparr>utq_q := q1\<rparr>]\<rparr>)"
    if "ddp_check_untagged_hdr ctx h = Some i"
    "try_dequeue (utq_q (ddp_queues ctx ! i)) = (f, q1)" for h i f q1
  proof -
    have "wf_queue (utq_q (ddp_queues ctx ! i))"
      using assms(1) ddp_check_untagged_bound [OF that(1)] by (simp add: ddp_ok_def MAX_UNTAGGED_BUFFERS_def)
    from try_dequeue_wf [OF this] have "wf_queue q1" using that(2) by simp
    then show ?thesis using ddp_ok_update [OF assms(1) ddp_check_untagged_bound [OF that(1)]] by blast
  qed
  show ?thesis
    using assms
    by (auto simp: ddp_recv_untagged_def Let_def intro: key
        split: if_splits option.splits sum.splits bind_splits prod.splits)
qed

section \<open>Properties\<close>

lemma htonll_ntohll [simp]: "htonll (ntohll x) = x"
  by (simp add: ntohll_eq_htonll) (metis ntohll_eq_htonll ntohll_htonll)

lemma ddp_send_tagged_stream:
  assumes "sges_ok gs" and "tx_plan (ddp_sockfd a) = []"
  shows "ddp_send_tagged m a \<lparr>tm_rsvdULP1 = rv, tm_tag = tg, tm_TO = htonll to\<rparr> gs =
    (0, a\<lparr>ddp_sockfd := (ddp_sockfd a)\<lparr>tx := tx (ddp_sockfd a)
       @ seg_stream (tagged_segs True rv tg to (payloads m gs))\<rparr>\<rparr>)"
  using ddp_send_tagged_loop_wire [OF assms, of m rv tg to]
  by (simp add: ddp_send_tagged_def DDP_HDR_T_def)

lemma ddp_send_untagged_stream:
  assumes "sges_ok gs" and "tx_plan (ddp_sockfd a) = []"
  shows "ddp_send_untagged m a h gs =
    (0, a\<lparr>ddp_sockfd := (ddp_sockfd a)\<lparr>tx := tx (ddp_sockfd a)
       @ seg_stream (untagged_segs True (h\<lparr>um_mo := 0\<rparr>) (payloads m gs))\<rparr>\<rparr>)"
  using ddp_send_untagged_loop_wire [OF assms, of m "h\<lparr>um_mo := 0\<rparr>"]
  by (simp add: ddp_send_untagged_def)


definition demo_sock :: "bytes \<Rightarrow> sock" where
  "demo_sock bs = \<lparr>rx = [RxData bs], tx = [], tx_plan = [], errno = 0\<rparr>"

definition demo_mem :: mem where
  "demo_mem a = ucast a"

definition demo_sges :: "sge list" where
  "demo_sges = [\<lparr>sge_addr = 16, sge_length = 2, sge_lkey = 0\<rparr>, \<lparr>sge_addr = 32, sge_length = 1, sge_lkey = 0\<rparr>]"

lemma demo_gather: "gather demo_mem demo_sges = [16, 17, 32]" and demo_sges_ok: "sges_ok demo_sges"
  by (simp_all add: gather_def demo_sges_def sge_bytes_def demo_mem_def mem_read_def upt_conv_Cons sges_ok_def)



text \<open>
  C21. Segmentation.  \<open>ddp_send_tagged\<close> cuts every element at 65014 bytes.  The segments it
  sends carry the gathered bytes in order, none is empty, no length field wraps, and the offset
  of each segment is the offset of the message advanced by what was sent before it.
\<close>

theorem ddp_send_tagged_segments:
  assumes "sges_ok gs" and "tx_plan (ddp_sockfd a) = []"
    and "ddp_send_tagged m a \<lparr>tm_rsvdULP1 = rv, tm_tag = tg, tm_TO = htonll to\<rparr> gs = (r, a')"
  shows "r = 0 \<and> (\<exists>pls. tx (ddp_sockfd a') = tx (ddp_sockfd a) @ concat (map (\<lambda>i.
        mpa_frame [[if Suc i = length pls then 0xC1 else 0x81],
          enc_tagged \<lparr>tm_rsvdULP1 = rv, tm_tag = tg,
            tm_TO = htonll (to + of_nat (length (concat (take i pls))))\<rparr>, pls ! i]) [0..<length pls])
    \<and> concat pls = gather m gs
    \<and> (\<forall>pl \<in> set pls. pl \<noteq> [] \<and> length pl \<le> 65014
         \<and> uint (mpa_ulpdu_len [[0x81], enc_tagged \<lparr>tm_rsvdULP1 = rv, tm_tag = tg, tm_TO = to\<rparr>, pl]) =
             14 + int (length pl)))"
proof -
  have segs: "seg_stream (tagged_segs True rv tg to pls) = concat (map (\<lambda>i.
        mpa_frame [[if Suc i = length pls then 0xC1 else 0x81],
          enc_tagged \<lparr>tm_rsvdULP1 = rv, tm_tag = tg,
            tm_TO = htonll (to + of_nat (length (concat (take i pls))))\<rparr>, pls ! i]) [0..<length pls])"
    for pls to
    by (induction pls arbitrary: to)
      (simp_all add: seg_stream_def seg_frame_def upt_conv_Cons map_Suc_upt [symmetric] o_def add.assoc del: upt_Suc)
  have "r = 0" "tx (ddp_sockfd a') = tx (ddp_sockfd a) @ seg_stream (tagged_segs True rv tg to (payloads m gs))"
    using assms(2,3) by (auto simp: ddp_send_tagged_stream [OF assms(1)])
  moreover have "uint (mpa_ulpdu_len [[0x81], enc_tagged h, pl]) = 14 + int (length pl)"
    if "length pl \<le> 65014" for pl h
    using that by (subst uint_mpa_ulpdu_len) simp_all
  ultimately show ?thesis
    using concat_payloads [of m gs] payloads_sizes [of m gs]
    by (intro conjI exI [of _ "payloads m gs"]) (auto simp: segs)
qed

theorem ddp_send_tagged_segments_witness:
  "\<exists>r a'. ddp_send_tagged demo_mem (ddp_init_stream (demo_sock []) \<lparr>pd_id = 0\<rparr>)
     \<lparr>tm_rsvdULP1 = 0, tm_tag = 9, tm_TO = htonll 5\<rparr> demo_sges = (r, a') \<and> r = 0"
proof -
  let ?a = "ddp_init_stream (demo_sock []) \<lparr>pd_id = 0\<rparr>"
  obtain r a' where s: "ddp_send_tagged demo_mem ?a \<lparr>tm_rsvdULP1 = 0, tm_tag = 9, tm_TO = htonll 5\<rparr> demo_sges = (r, a')"
    by (cases "ddp_send_tagged demo_mem ?a \<lparr>tm_rsvdULP1 = 0, tm_tag = 9, tm_TO = htonll 5\<rparr> demo_sges")
  have "tx_plan (ddp_sockfd ?a) = []" by (simp add: ddp_init_stream_def demo_sock_def)
  from ddp_send_tagged_segments [OF demo_sges_ok this s] s show ?thesis by blast
qed

text \<open>
  An untagged message of one segment lands at the start of the buffer the queue yields.
\<close>

lemma ddp_untagged_one_segment:
  assumes "unat (sge_length g) \<le> 65014" and "sge_length g \<noteq> 0"
    and "tx_plan (ddp_sockfd a) = []" and "tx (ddp_sockfd a) = []"
    and "ddp_send_untagged m a \<lparr>um_rsvdULP1 = rv, um_rsvdULP2 = r2, um_qn = htonl q, um_msn = htonl n, um_mo = x\<rparr>
           [g] = (r, a')"
    and "rx (ddp_sockfd c) = RxData (tx (ddp_sockfd a') @ d) # es"
    and "ddp_ok c" and "unat q < 3" and "n \<noteq> 0"
    and "try_dequeue (utq_q (ddp_queues c ! unat q)) = (Some b, q')"
  shows "r = 0 \<and> (\<exists>c' msg'. ddp_recv c msg m' = Some (0, c', msg', mem_write m' (ub_data b) (sge_bytes m g))
    \<and> utq_q (ddp_queues c' ! unat q) = q'
    \<and> msg_len msg' = int (unat (sge_length g)) \<and> msg_buf msg' = UntagBuf b)"
proof -
  let ?h1 = "\<lparr>um_rsvdULP1 = rv, um_rsvdULP2 = r2, um_qn = q, um_msn = n, um_mo = 0\<rparr>"
  have ok: "sges_ok [g]" using assms(1,2) by (simp add: sges_ok_def)
  have pl: "payloads m [g] = [sge_bytes m g]"
    using assms(1,2) by (simp add: payloads_def sge_bytes_def mem_read_def unat_gt_0 chunks.simps)
  have a': "r = 0" "tx (ddp_sockfd a') =
      seg_stream (untagged_segs True (?h1\<lparr>um_qn := htonl q, um_msn := htonl n\<rparr>) (payloads m [g]))"
    using assms(3,4,5) by (auto simp: ddp_send_untagged_stream [OF ok])
  have "1 \<le> n" using assms(9) by (simp add: word_le_nat_alt Suc_le_eq unat_gt_0)
  then have chk: "ddp_check_untagged_hdr c ?h1 = Some (unat q)"
    using assms(7-9) by (simp add: ddp_check_untagged_hdr_def MAX_UNTAGGED_BUFFERS_def ddp_ok_def not_less)
  from ddp_recv_untagged_stream [OF _ payloads_nonempty [OF ok, of m] payloads_sizes chk assms(10),
    where d = d and es = es and msg = msg and m = m'] a' assms(6)
  obtain msg' where "ddp_recv c msg m' = Some (0, c\<lparr>ddp_queues := (ddp_queues c)[unat q := (ddp_queues c ! unat q)\<lparr>utq_q := q'\<rparr>],
       ddp_sockfd := (ddp_sockfd c)\<lparr>rx := RxData d # es\<rparr>\<rparr>, msg', place_untagged (untag_buf_data (msg_buf msg')) 0 (payloads m [g]) m')"
    "msg_len msg' = int (length (concat (payloads m [g])))" "msg_buf msg' = UntagBuf b" by auto
  then show ?thesis
    using a'(1) assms(7,8) by (auto simp: pl sge_bytes_def ddp_ok_def MAX_UNTAGGED_BUFFERS_def)
qed


definition demo_buf :: untagged_buffer where
  "demo_buf = \<lparr>ub_data = 500, ub_len = 16, ub_next = 0\<rparr>"

definition demo_ctx :: "bytes \<Rightarrow> ddp_stream_context" where
  "demo_ctx bs = ddp_post_recv 1 (ddp_init_stream (demo_sock bs) \<lparr>pd_id = 0\<rparr>) 0 [demo_buf]"

definition demo_msg :: ddp_message where
  "demo_msg = \<lparr>msg_bits = 0, msg_meta = replicate 17 0,
     msg_buf = UntagBuf \<lparr>ub_data = 0, ub_len = 0, ub_next = 0\<rparr>, msg_len = 0\<rparr>"

lemma ddp_init_ok: "ddp_ok (ddp_init_stream s pd)"
  by (auto simp: ddp_ok_def ddp_init_stream_def wf_new_queue)

text \<open>Posting buffers to a queue with room appends them behind what this thread posted.\<close>

lemma ddp_post_recv_ok:
  assumes "ddp_ok ctx" and "0 \<le> qn" and "qn < 3" and "length bufs < 2 ^ 62"
    and "queue_room (length bufs) (utq_q (ddp_queues ctx ! nat qn))"
  shows "\<exists>q'. ddp_post_recv t ctx qn bufs = ctx\<lparr>ddp_queues := (ddp_queues ctx)
        [nat qn := (ddp_queues ctx ! nat qn)\<lparr>utq_q := q'\<rparr>]\<rparr> \<and> wf_queue q'
    \<and> mset (queue_items q') = mset (queue_items (utq_q (ddp_queues ctx ! nat qn))) + mset bufs
    \<and> items_of t q' = items_of t (utq_q (ddp_queues ctx ! nat qn)) @ bufs"
proof -
  have "wf_queue (utq_q (ddp_queues ctx ! nat qn))"
    using assms(1-3) by (simp add: ddp_ok_def MAX_UNTAGGED_BUFFERS_def)
  from enqueue_bulk_appends [OF this assms(5,4), of t] show ?thesis
    using assms(2,3) by (auto simp: ddp_post_recv_def MAX_UNTAGGED_BUFFERS_def Let_def)
qed

lemma demo_ctx_facts:
  "ddp_ok (demo_ctx bs)" "rx (ddp_sockfd (demo_ctx bs)) = [RxData bs]"
  "\<exists>q'. try_dequeue (utq_q (ddp_queues (demo_ctx bs) ! 0)) = (Some demo_buf, q')"
proof -
  let ?c = "ddp_init_stream (demo_sock bs) \<lparr>pd_id = 0\<rparr>"
  have q0: "utq_q (ddp_queues ?c ! 0) = new_queue" "length (ddp_queues ?c) = 3"
    by (simp_all add: ddp_init_stream_def MAX_UNTAGGED_BUFFERS_def)
  obtain q' where q': "demo_ctx bs = ?c\<lparr>ddp_queues := (ddp_queues ?c)[0 := (ddp_queues ?c ! 0)\<lparr>utq_q := q'\<rparr>]\<rparr>"
    "wf_queue q'" "mset (queue_items q') = {#demo_buf#}"
    using ddp_post_recv_ok [OF ddp_init_ok, of 0 "[demo_buf]" "demo_sock bs" "\<lparr>pd_id = 0\<rparr>" 1]
    by (auto simp: demo_ctx_def q0 queue_room_def queue_items_def new_queue_def)
  show "ddp_ok (demo_ctx bs)" unfolding q'(1) by (rule ddp_ok_update [OF ddp_init_ok _ q'(2)]) simp
  show "rx (ddp_sockfd (demo_ctx bs)) = [RxData bs]" by (simp add: q'(1) ddp_init_stream_def demo_sock_def)
  have "\<exists>x q''. try_dequeue q' = (Some x, q'') \<and> {#demo_buf#} = add_mset x (mset (queue_items q''))"
    using cq_bag.deq_some [OF q'(2)] q'(3) by auto
  then have "\<exists>q''. try_dequeue q' = (Some demo_buf, q'')" by auto
  then show "\<exists>q'. try_dequeue (utq_q (ddp_queues (demo_ctx bs) ! 0)) = (Some demo_buf, q')"
    using q0 by (simp add: q'(1))
qed

text \<open>
  The second segment of an untagged message is stored at a byte-swapped offset.
\<close>

lemma ddp_untagged_second_segment_misplaced:
  assumes "unat (sge_length g) = 65014 + k" and "0 < k" and "k \<le> 65014"
    and "tx_plan (ddp_sockfd a) = []" and "tx (ddp_sockfd a) = []"
    and "ddp_send_untagged m a \<lparr>um_rsvdULP1 = rv, um_rsvdULP2 = r2, um_qn = htonl q, um_msn = htonl n, um_mo = x\<rparr>
           [g] = (r, a')"
    and "rx (ddp_sockfd c) = RxData (tx (ddp_sockfd a') @ d) # es"
    and "ddp_ok c" and "unat q < 3" and "n \<noteq> 0"
    and "try_dequeue (utq_q (ddp_queues c ! unat q)) = (Some b, q')"
  shows "\<exists>c' msg'. ddp_recv c msg m' = Some (0, c', msg',
      mem_write (mem_write m' (ub_data b) (take 65014 (sge_bytes m g)))
        (ub_data b + 0xF6FD0000) (drop 65014 (sge_bytes m g)))"
proof -
  let ?h1 = "\<lparr>um_rsvdULP1 = rv, um_rsvdULP2 = r2, um_qn = q, um_msn = n, um_mo = 0\<rparr>"
  have "sge_length g \<noteq> 0" using assms(1) by auto
  then have ok: "sges_ok [g]" using assms(1,3) by (simp add: sges_ok_def)
  have len: "length (sge_bytes m g) = 65014 + k" using assms(1) by (simp add: sge_bytes_def)
  have pl: "payloads m [g] = [take 65014 (sge_bytes m g), drop 65014 (sge_bytes m g)]"
    using len assms(2,3)
    by (simp add: payloads_def chunks.simps [of "sge_bytes m g"] chunks.simps [of "drop 65014 (sge_bytes m g)"])
      auto
  have a': "tx (ddp_sockfd a') =
      seg_stream (untagged_segs True (?h1\<lparr>um_qn := htonl q, um_msn := htonl n\<rparr>) (payloads m [g]))"
    using assms(4-6) by (auto simp: ddp_send_untagged_stream [OF ok])
  have "1 \<le> n" using assms(10) by (simp add: word_le_nat_alt Suc_le_eq unat_gt_0)
  then have chk: "ddp_check_untagged_hdr c ?h1 = Some (unat q)"
    using assms(8-10) by (simp add: ddp_check_untagged_hdr_def MAX_UNTAGGED_BUFFERS_def ddp_ok_def not_less)
  have "(ucast (ntohl 65014) :: addr) = 0xF6FD0000" by code_simp
  then show ?thesis
    using ddp_recv_untagged_stream [OF _ payloads_nonempty [OF ok, of m] payloads_sizes chk assms(11),
        where d = d and es = es and msg = msg and m = m'] a' assms(7) len
    by (auto simp: pl)
qed


text \<open>
  C35. A registered buffer is not a bound.  The check of a tagged segment admits the offset one
  past the end of the buffer and never looks at the length of the payload: a non-empty segment
  aimed there is accepted and its bytes are stored behind the registered region.
\<close>

theorem ddp_tagged_past_the_end:
  assumes "tagged_buffers c tg = Some b" and "tb_data b \<le> tb_data b + tb_len b"
    and "pl \<noteq> []" and "length pl \<le> 65014"
    and "rx (ddp_sockfd c) = RxData (mpa_frame [[0xC1], enc_tagged \<lparr>tm_rsvdULP1 = rv, tm_tag = htonl tg,
           tm_TO = htonll (tb_data b + tb_len b)\<rparr>, pl]) # es"
  shows "\<exists>c' msg' m'. ddp_recv c msg m = Some (0, c', msg', m')
    \<and> mem_read m' (tb_data b + tb_len b) (length pl) = pl"
proof -
  let ?to = "tb_data b + tb_len b"
  have "ddp_check_stag c \<lparr>tm_rsvdULP1 = rv, tm_tag = tg, tm_TO = ?to\<rparr> = Some b"
    using assms(1,2) by (simp add: ddp_check_stag_def not_less)
  moreover have "rx (ddp_sockfd c) = RxData (seg_stream (tagged_segs True rv (htonl tg) ?to [pl]) @ []) # es"
    using assms(5) by (simp add: seg_stream_def seg_frame_def)
  ultimately obtain msg' where "ddp_recv c msg m =
      Some (0, c\<lparr>ddp_sockfd := (ddp_sockfd c)\<lparr>rx := RxData [] # es\<rparr>\<rparr>, msg', mem_write m ?to (concat [pl]))"
    using ddp_recv_tagged_stream [of c rv tg ?to "[pl]" "[]" es b msg m] assms(3,4) by auto
  moreover have "length pl \<le> 2 ^ 64" using assms(4) by simp
  ultimately show ?thesis by (auto simp: mem_read_write_same)
qed

theorem ddp_tagged_past_the_end_witness:
  "\<exists>c' msg' m'. ddp_recv ((ddp_init_stream (demo_sock (mpa_frame [[0xC1], enc_tagged
        \<lparr>tm_rsvdULP1 = 0, tm_tag = htonl 7, tm_TO = htonll 108\<rparr>, [1, 2, 3]])) \<lparr>pd_id = 0\<rparr>)\<lparr>tagged_buffers :=
        [7 \<mapsto> \<lparr>tb_stag = \<lparr>stag_tag = 7, stag_pd = \<lparr>pd_id = 0\<rparr>\<rparr>, tb_data = 100, tb_len = 8, tb_access_ctrl = 0\<rparr>]\<rparr>)
      demo_msg (\<lambda>_. 0) = Some (0, c', msg', m') \<and> mem_read m' 108 3 = [1, 2, 3]"
  using ddp_tagged_past_the_end [of "(ddp_init_stream (demo_sock (mpa_frame [[0xC1], enc_tagged
        \<lparr>tm_rsvdULP1 = 0, tm_tag = htonl 7, tm_TO = htonll 108\<rparr>, [1, 2, 3]])) \<lparr>pd_id = 0\<rparr>)\<lparr>tagged_buffers :=
        [7 \<mapsto> \<lparr>tb_stag = \<lparr>stag_tag = 7, stag_pd = \<lparr>pd_id = 0\<rparr>\<rparr>, tb_data = 100, tb_len = 8, tb_access_ctrl = 0\<rparr>]\<rparr>"
      7 "\<lparr>tb_stag = \<lparr>stag_tag = 7, stag_pd = \<lparr>pd_id = 0\<rparr>\<rparr>, tb_data = 100, tb_len = 8, tb_access_ctrl = 0\<rparr>"
      "[1, 2, 3]" 0 "[]" demo_msg "\<lambda>_. 0"]
  by (simp add: ddp_init_stream_def demo_sock_def numeral_3_eq_3)

text \<open>
  C25. The registry of tagged buffers.  A registered buffer is found under the low 32 bits of
  its address by exactly the offsets from its start to one past its end, registration replaces
  whatever was registered under the same 32 bits and touches no other tag, and deregistration
  removes the tag and reports whether it was there.
\<close>

theorem register_tagged_buffer_lookup:
  "register_tagged_buffer ctx b = (r, b', ctx') \<Longrightarrow>
   r = 0 \<and> b' = b\<lparr>tb_stag := (tb_stag b)\<lparr>stag_tag := ucast (tb_data b)\<rparr>\<rparr>
   \<and> ddp_check_stag ctx' \<lparr>tm_rsvdULP1 = rv, tm_tag = ucast (tb_data b), tm_TO = to\<rparr> =
       (if tb_data b \<le> to \<and> to \<le> tb_data b + tb_len b then Some b' else None)
   \<and> (tg \<noteq> ucast (tb_data b) \<longrightarrow>
       ddp_check_stag ctx' \<lparr>tm_rsvdULP1 = rv, tm_tag = tg, tm_TO = to\<rparr> =
       ddp_check_stag ctx \<lparr>tm_rsvdULP1 = rv, tm_tag = tg, tm_TO = to\<rparr>)
   \<and> fst (deregister_tagged_buffer ctx' (tb_stag b')) = 1
   \<and> ddp_check_stag (snd (deregister_tagged_buffer ctx' (tb_stag b')))
       \<lparr>tm_rsvdULP1 = rv, tm_tag = ucast (tb_data b), tm_TO = to\<rparr> = None"
  by (auto simp: register_tagged_buffer_def deregister_tagged_buffer_def ddp_check_stag_def Let_def not_less)

theorem register_tagged_buffer_lookup_witness:
  "\<exists>r b' ctx'. register_tagged_buffer (demo_ctx []) \<lparr>tb_stag = \<lparr>stag_tag = 0, stag_pd = \<lparr>pd_id = 0\<rparr>\<rparr>,
        tb_data = 16, tb_len = 4, tb_access_ctrl = 0\<rparr> = (r, b', ctx')
     \<and> ddp_check_stag ctx' \<lparr>tm_rsvdULP1 = 0, tm_tag = 16, tm_TO = 20\<rparr> = Some b'"
proof -
  let ?b = "\<lparr>tb_stag = \<lparr>stag_tag = 0, stag_pd = \<lparr>pd_id = 0\<rparr>\<rparr>, tb_data = 16, tb_len = 4, tb_access_ctrl = 0\<rparr>"
  obtain r b' ctx' where r: "register_tagged_buffer (demo_ctx []) ?b = (r, b', ctx')"
    by (cases "register_tagged_buffer (demo_ctx []) ?b")
  from register_tagged_buffer_lookup [OF r, of 0 "20" 0] r show ?thesis by auto
qed


lemma ddp_post_recv_keeps:
  assumes "ddp_ok ctx" and "length bufs < 2 ^ 62"
  shows "ddp_ok (ddp_post_recv t ctx qn bufs)"
proof (cases "0 \<le> qn \<and> qn < 3")
  case True
  then have i: "nat qn < 3" by linarith
  then have "wf_queue (utq_q (ddp_queues ctx ! nat qn))"
    using assms(1) by (simp add: ddp_ok_def MAX_UNTAGGED_BUFFERS_def)
  from ddp_ok_update [OF assms(1) i enqueue_bulk_wf [OF this assms(2), of t]] True show ?thesis
    by (auto simp: ddp_post_recv_def MAX_UNTAGGED_BUFFERS_def Let_def)
next
  case False
  then show ?thesis using assms(1) by (auto simp: ddp_post_recv_def MAX_UNTAGGED_BUFFERS_def)
qed

lemma ddp_recv_keeps:
  "ddp_ok ctx \<Longrightarrow> ddp_recv ctx msg m = Some (r, ctx', msg', m') \<Longrightarrow> ddp_ok ctx'"
  by (auto simp: ddp_recv_def Let_def split: if_splits bind_splits
      dest: ddp_recv_tagged_ok ddp_recv_untagged_ok)

lemma ddp_registry_keeps:
  "ddp_ok ctx \<Longrightarrow> ddp_ok (snd (snd (register_tagged_buffer ctx b)))"
  "ddp_ok ctx \<Longrightarrow> ddp_ok (snd (deregister_tagged_buffer ctx st))"
  by (simp_all add: register_tagged_buffer_def deregister_tagged_buffer_def ddp_ok_def Let_def)

lemma ddp_send_keeps:
  "ddp_ok ctx \<Longrightarrow> ddp_ok (snd (ddp_send_tagged m ctx h gs))"
  "ddp_ok ctx \<Longrightarrow> ddp_ok (snd (ddp_send_untagged m ctx u gs))"
  by (simp_all add: ddp_send_tagged_def ddp_send_untagged_def split: prod.splits)



text \<open>
  A message for an empty queue overwrites the buffer of an earlier message and the call returns 0.
\<close>

lemma ddp_recv_empty_queue_stale_buffer:
  assumes "ddp_ok c" and "unat q < 3" and "n \<noteq> 0" and "queue_items (utq_q (ddp_queues c ! unat q)) = []"
    and "pl \<noteq> []" and "length pl \<le> 65014"
    and "rx (ddp_sockfd c) = RxData (mpa_frame [[0x41], enc_untagged \<lparr>um_rsvdULP1 = rv, um_rsvdULP2 = r2,
           um_qn = htonl q, um_msn = htonl n, um_mo = 0\<rparr>, pl]) # es"
  shows "\<exists>c' msg'. ddp_recv c msg m = Some (0, c', msg', mem_write m (untag_buf_data (msg_buf msg)) pl)
    \<and> msg_buf msg' = msg_buf msg"
proof -
  let ?h1 = "\<lparr>um_rsvdULP1 = rv, um_rsvdULP2 = r2, um_qn = q, um_msn = n, um_mo = 0\<rparr>"
  have wf: "wf_queue (utq_q (ddp_queues c ! unat q))"
    using assms(1,2) by (simp add: ddp_ok_def MAX_UNTAGGED_BUFFERS_def)
  have "1 \<le> n" using assms(3) by (simp add: word_le_nat_alt Suc_le_eq unat_gt_0)
  then have chk: "ddp_check_untagged_hdr c ?h1 = Some (unat q)"
    using assms(1-3) by (simp add: ddp_check_untagged_hdr_def MAX_UNTAGGED_BUFFERS_def ddp_ok_def not_less)
  have "rx (ddp_sockfd c) = RxData (seg_stream (untagged_segs True
      (?h1\<lparr>um_qn := htonl q, um_msn := htonl n\<rparr>) [pl]) @ []) # es"
    using assms(7) by (simp add: seg_stream_def seg_frame_def)
  from ddp_recv_untagged_stream [OF this _ _ chk try_dequeue_empty [OF wf assms(4)], where msg = msg and m = m]
  show ?thesis using assms(5,6) by auto
qed

end
