(* ===== verification/Completion_Queue.thy ===== *)
theory Completion_Queue
  imports Ddp
begin

text \<open>
  \<open>common/cq.h\<close> and \<open>common/cq.cpp\<close>: work requests, work completions, completion queues and work
  queues.  A pointer to a stream context, a protection domain or a completion queue is kept as
  its address; \<open>sg_list\<close> is the address of an array of scatter/gather elements.
\<close>

section \<open>Enumerations\<close>

datatype wc_status =
    WC_SUCCESS
  | WC_LOC_LEN_ERR
  | WC_LOC_QP_OP_ERR
  | WC_LOC_EEC_OP_ERR
  | WC_LOC_PROT_ERR
  | WC_WR_FLUSH_ERR
  | WC_MW_BIND_ERR
  | WC_BAD_RESP_ERR
  | WC_LOC_ACCESS_ERR
  | WC_REM_INV_REQ_ERR
  | WC_REM_ACCESS_ERR
  | WC_REM_OP_ERR
  | WC_RETRY_EXC_ERR
  | WC_RNR_RETRY_EXC_ERR
  | WC_LOC_RDD_VIOL_ERR
  | WC_REM_INV_RD_REQ_ERR
  | WC_REM_ABORT_ERR
  | WC_INV_EECN_ERR
  | WC_INV_EEC_STATE_ERR
  | WC_FATAL_ERR
  | WC_RESP_TIMEOUT_ERR
  | WC_GENERAL_ERR
  | WC_TM_ERR
  | WC_TM_RNDV_INCOMPLETE

datatype wc_opcode =
    WC_WRITE
  | WC_READ_REQUEST
  | WC_READ_RESPONSE
  | WC_SEND
  | WC_SEND_INVALIDATE
  | WC_SEND_SOLICIT
  | WC_SEND_SOLICIT_INVALIDATE
  | WC_TERMINATE
  | WC_RECV

fun wc_opcode_val :: "wc_opcode \<Rightarrow> u32" where
  "wc_opcode_val WC_WRITE = 0"
| "wc_opcode_val WC_READ_REQUEST = 1"
| "wc_opcode_val WC_READ_RESPONSE = 2"
| "wc_opcode_val WC_SEND = 3"
| "wc_opcode_val WC_SEND_INVALIDATE = 4"
| "wc_opcode_val WC_SEND_SOLICIT = 5"
| "wc_opcode_val WC_SEND_SOLICIT_INVALIDATE = 6"
| "wc_opcode_val WC_TERMINATE = 7"
| "wc_opcode_val WC_RECV = push_bit 7 1"

definition WC_IP_CSUM_OK_SHIFT :: nat where "WC_IP_CSUM_OK_SHIFT = 2"

datatype wc_flags =
  WC_GRH | WC_WITH_IMM | WC_IP_CSUM_OK | WC_WITH_INV | WC_TM_SYNC_REQ | WC_TM_MATCH | WC_TM_DATA_VALID

fun wc_flags_val :: "wc_flags \<Rightarrow> u32" where
  "wc_flags_val WC_GRH = push_bit 0 1"
| "wc_flags_val WC_WITH_IMM = push_bit 1 1"
| "wc_flags_val WC_IP_CSUM_OK = push_bit WC_IP_CSUM_OK_SHIFT 1"
| "wc_flags_val WC_WITH_INV = push_bit 3 1"
| "wc_flags_val WC_TM_SYNC_REQ = push_bit 4 1"
| "wc_flags_val WC_TM_MATCH = push_bit 5 1"
| "wc_flags_val WC_TM_DATA_VALID = push_bit 6 1"

section \<open>Work completions and completion queues\<close>

text \<open>The opcode is stored as the number it was cast from.\<close>

record work_completion =
  wc_wr_id :: u64
  wc_status :: wc_status
  wc_opcode :: u32
  wc_vendor_err :: u32
  wc_byte_len :: u32
  wc_imm_data :: u32
  wc_qp_num :: u32
  wc_src_qp :: u32
  wc_wc_flags :: u32
  wc_pkey_index :: u16
  wc_slid :: u16
  wc_sl :: u8
  wc_dlid_path_bits :: u8

record cq =
  cq_ctx :: addr
  cq_q :: "work_completion ConcurrentQueue"
  cq_pending_q :: "work_completion ConcurrentQueue"

text \<open>The size passed to the queue constructor is only a hint for its first allocation.\<close>

definition create_cq :: "addr \<Rightarrow> int \<Rightarrow> cq" where
  "create_cq ctx num_cqe = \<lparr>cq_ctx = ctx, cq_q = new_queue, cq_pending_q = new_queue\<rparr>"

text \<open>After \<open>destroy_cq\<close> there is no queue.\<close>

definition destroy_cq :: "cq \<Rightarrow> int \<times> cq option" where
  "destroy_cq c = (0, None)"

definition poll_cq :: "cq \<Rightarrow> int \<Rightarrow> int \<times> work_completion list \<times> cq" where
  "poll_cq c num_entries =
     (case try_dequeue_bulk (size_of_int num_entries) (cq_q c) of (wcs, q) \<Rightarrow>
        (int (length wcs), wcs, c\<lparr>cq_q := q\<rparr>))"

section \<open>Work requests and work queues\<close>

datatype wq_state = WQS_RESET | WQS_RDY | WQS_ERR | WQS_UNKNOWN
datatype wq_type = WQT_RQ | WQT_SQ

record recv_wr =
  rwr_id :: u64
  rwr_sg_list :: addr
  rwr_num_sge :: int

text \<open>\<open>invalidate_rkey\<close> and the \<open>rdma\<close> fields are the only members of their unions.\<close>

record send_wr =
  swr_id :: u64
  swr_sg_list :: addr
  swr_num_sge :: int
  swr_opcode :: rdma_opcode
  swr_send_flags :: u32
  swr_invalidate_rkey :: u32
  swr_remote_addr :: u64
  swr_rkey :: u32

datatype wq_union = SendQ "send_wr ConcurrentQueue" | RecvQ "recv_wr ConcurrentQueue"

record wq =
  wq_context :: addr
  wq_pd :: addr
  wq_cq :: addr
  wq_num :: u32
  wq_handle :: u32
  wq_wq_state :: wq_state
  wq_wq_type :: wq_type
  wq_queue :: wq_union
  wq_events_completed :: u32
  wq_comp_mask :: u32

record wq_init_attr =
  wqa_wq_context :: addr
  wqa_wq_type :: wq_type
  wqa_max_wr :: u32
  wqa_max_sge :: u32
  wqa_pd :: addr
  wqa_cq :: addr
  wqa_comp_mask :: u32

text \<open>\<open>raw\<close> is what \<open>malloc\<close> returned; the number, handle, state and event count stay as they were.\<close>

definition create_wq :: "wq \<Rightarrow> addr \<Rightarrow> wq_init_attr \<Rightarrow> wq" where
  "create_wq raw context attr =
     raw\<lparr>wq_context := context, wq_pd := wqa_pd attr, wq_cq := wqa_cq attr, wq_wq_type := wqa_wq_type attr,
      wq_queue := (case wqa_wq_type attr of
                     WQT_SQ \<Rightarrow> SendQ new_queue
                   | WQT_RQ \<Rightarrow> RecvQ new_queue),
      wq_comp_mask := wqa_comp_mask attr\<rparr>"

definition destroy_wq :: "wq \<Rightarrow> int \<times> wq option" where
  "destroy_wq q = (0, None)"

definition send_wr_to_wce :: "send_wr \<Rightarrow> work_completion \<Rightarrow> work_completion" where
  "send_wr_to_wce wr wce =
     wce\<lparr>wc_wr_id := swr_id wr, wc_opcode := ucast (opcode_val (swr_opcode wr))\<rparr>"

section \<open>Properties\<close>

text \<open>
  C31. Polling a completion queue.  \<open>poll_cq\<close> with a non-negative limit returns exactly the first
  completions of the queue, as many as the limit allows, keeps the rest in order, and leaves the
  completions of pending reads alone.
\<close>

theorem poll_cq_takes_prefix:
  assumes "wf_queue (cq_q c)" and "0 \<le> n" and "n < 2 ^ 31"
  shows "\<exists>c'. poll_cq c n = (int (min (nat n) (length (queue_items (cq_q c)))), take (nat n) (queue_items (cq_q c)), c')
    \<and> wf_queue (cq_q c') \<and> queue_items (cq_q c') = drop (nat n) (queue_items (cq_q c))
    \<and> cq_pending_q c' = cq_pending_q c"
proof -
  have "size_of_int n = nat n" using assms(2,3) by (simp add: size_of_int_nonneg)
  then show ?thesis
    using try_dequeue_bulk_items [OF assms(1), of "nat n"] by (auto simp: poll_cq_def min.commute)
qed

definition demo_wc :: "u64 \<Rightarrow> work_completion" where
  "demo_wc i = \<lparr>wc_wr_id = i, wc_status = WC_SUCCESS, wc_opcode = 0, wc_vendor_err = 0, wc_byte_len = 0,
     wc_imm_data = 0, wc_qp_num = 0, wc_src_qp = 0, wc_wc_flags = 0, wc_pkey_index = 0, wc_slid = 0,
     wc_sl = 0, wc_dlid_path_bits = 0\<rparr>"

theorem poll_cq_takes_prefix_witness:
  "\<exists>c'. poll_cq ((create_cq 0 16)\<lparr>cq_q := filled 1 [demo_wc 7, demo_wc 8]\<rparr>) 1 = (1, [demo_wc 7], c')
     \<and> queue_items (cq_q c') = [demo_wc 8] \<and> cq_pending_q c' = new_queue"
  using poll_cq_takes_prefix [of "(create_cq 0 16)\<lparr>cq_q := filled 1 [demo_wc 7, demo_wc 8]\<rparr>" 1]
  by (simp add: filled_facts create_cq_def) blast

text \<open>
  The cast of a request opcode to a completion opcode names the same operation, except for the
  unsupported opcode.
\<close>

lemma send_wr_to_wce_opcode:
  "wc_opcode (send_wr_to_wce wr wce) = (case swr_opcode wr of
      RDMAP_RDMA_WRITE \<Rightarrow> wc_opcode_val WC_WRITE
    | RDMAP_RDMA_READ_REQ \<Rightarrow> wc_opcode_val WC_READ_REQUEST
    | RDMAP_RDMA_READ_RESP \<Rightarrow> wc_opcode_val WC_READ_RESPONSE
    | RDMAP_SEND \<Rightarrow> wc_opcode_val WC_SEND
    | RDMAP_SEND_INVAL \<Rightarrow> wc_opcode_val WC_SEND_INVALIDATE
    | RDMAP_SEND_SE \<Rightarrow> wc_opcode_val WC_SEND_SOLICIT
    | RDMAP_SEND_SE_INVAL \<Rightarrow> wc_opcode_val WC_SEND_SOLICIT_INVALIDATE
    | RDMAP_TERMINATE \<Rightarrow> wc_opcode_val WC_TERMINATE
    | RDMAP_NOT_SUPPORTED \<Rightarrow> 8)
   \<and> wc_wr_id (send_wr_to_wce wr wce) = swr_id wr
   \<and> 8 \<notin> range wc_opcode_val"
proof -
  have "wc_opcode_val x \<noteq> 8" for x by (cases x) simp_all
  then show ?thesis by (auto simp: send_wr_to_wce_def split: rdma_opcode.splits)
qed

end
