(* ===== verification/Rdmap.thy ===== *)
theory Rdmap
  imports Completion_Queue
begin

text \<open>
  \<open>suiw/rdmap/\<close>: the RDMA protocol.  An application posts work requests to queues; one thread
  (\<open>rnic_send\<close>) takes them off and sends DDP messages, another (\<open>rnic_recv\<close>) receives DDP
  messages and reacts.  The state \<open>rnic\<close> holds the stream context, the queues it refers to, the
  local variables the two threads keep from one turn of their loop to the next, and the memory.
  One turn of a loop is one step; the steps of the threads and of the application interleave.
\<close>

section \<open>Wire structures\<close>

definition SEND_QN :: int where "SEND_QN = 0"
definition READ_QN :: int where "READ_QN = 1"
definition TERMINATE_QN :: int where "TERMINATE_QN = 2"

record rdmap_read_req_fields =
  rr_sink_tag :: u32
  rr_sink_TO :: u64
  rr_rdma_rd_sz :: u32
  rr_src_tag :: u32
  rr_src_TO :: u64

definition enc_read_req :: "rdmap_read_req_fields \<Rightarrow> bytes" where
  "enc_read_req f = le_bytes 4 (rr_sink_tag f) @ le_bytes 8 (rr_sink_TO f) @ le_bytes 4 (rr_rdma_rd_sz f)
     @ le_bytes 4 (rr_src_tag f) @ le_bytes 8 (rr_src_TO f)"

definition dec_read_req :: "bytes \<Rightarrow> rdmap_read_req_fields" where
  "dec_read_req bs = \<lparr>rr_sink_tag = of_le (take 4 bs), rr_sink_TO = of_le (take 8 (drop 4 bs)),
     rr_rdma_rd_sz = of_le (take 4 (drop 12 bs)), rr_src_tag = of_le (take 4 (drop 16 bs)),
     rr_src_TO = of_le (take 8 (drop 20 bs))\<rparr>"

definition sizeof_read_req :: nat where "sizeof_read_req = 28"

definition get_rdmap_op :: "u8 \<Rightarrow> u8" where
  "get_rdmap_op bs = bs AND 0xF"

section \<open>State\<close>

text \<open>
  A thread runs, has returned a value, has failed an assertion, or has used the DDP context
  after it was freed.
\<close>

datatype thread = Running | Returned int | AssertFailed | UsedAfterFree

record rnic =
  rd_ddp :: "ddp_stream_context option"
  rd_connected :: bool
  rd_sq :: "send_wr ConcurrentQueue"
  rd_rq :: "recv_wr ConcurrentQueue"
  rd_send_cq :: cq
  rd_recv_cq :: cq
  rd_mem :: mem
  rd_sges :: "addr \<Rightarrow> sge"
  recv_thread :: thread
  recv_msg :: ddp_message
  recv_wce :: work_completion
  recv_sg :: addr
  recv_resp_id :: u64
  send_thread :: thread
  send_wce :: work_completion
  send_fields :: addr
  send_junk :: u32
  msn_send :: u32
  msn_inval :: u32
  msn_read :: u32
  app_tid :: tid
  recv_tid :: tid
  send_tid :: tid

text \<open>
  The array of \<open>num_sge\<close> elements at an address.  \<open>recv_sg\<close> is the address of the one element
  that \<open>rnic_recv\<close> keeps on its stack, \<open>send_fields\<close> that of the read request \<open>rnic_send\<close> builds on
  its stack, and \<open>send_junk\<close> what an uninitialised header field of \<open>rnic_send\<close> holds.
\<close>

definition sg_array :: "rnic \<Rightarrow> addr \<Rightarrow> int \<Rightarrow> sge list" where
  "sg_array w a n = map (\<lambda>i. rd_sges w (a + 16 * of_nat i)) [0..<nat n]"

definition cq_push :: "tid \<Rightarrow> work_completion \<Rightarrow> rnic \<Rightarrow> rnic" where
  "cq_push t wce w = w\<lparr>rd_send_cq := (rd_send_cq w)\<lparr>cq_q := snd (enqueue t wce (cq_q (rd_send_cq w)))\<rparr>\<rparr>"

definition pending_push :: "tid \<Rightarrow> work_completion \<Rightarrow> rnic \<Rightarrow> rnic" where
  "pending_push t wce w =
     w\<lparr>rd_send_cq := (rd_send_cq w)\<lparr>cq_pending_q := snd (enqueue t wce (cq_pending_q (rd_send_cq w)))\<rparr>\<rparr>"

section \<open>The receive thread\<close>

text \<open>The whole buffer member of the message union, as the queue copies it.\<close>

fun untag_buf_of :: "ddp_msg_buf \<Rightarrow> untagged_buffer" where
  "untag_buf_of (UntagBuf b) = b"
| "untag_buf_of (TagBuf b) =
     \<lparr>ub_data = untag_buf_data (TagBuf b), ub_len = ucast (tb_data b), ub_next = tb_len b\<rparr>"

definition recv_is_tagged :: "rnic \<Rightarrow> bool" where
  "recv_is_tagged w = ddp_is_tagged (msg_bits (recv_msg w))"

definition on_ddp :: "(ddp_stream_context \<Rightarrow> ddp_stream_context) \<Rightarrow> rnic \<Rightarrow> rnic" where
  "on_ddp f w = w\<lparr>rd_ddp := map_option f (rd_ddp w)\<rparr>"

definition handle_rdma_write :: "rnic \<Rightarrow> rnic" where
  "handle_rdma_write w = (if recv_is_tagged w then w else w\<lparr>recv_thread := AssertFailed\<rparr>)"

text \<open>
  A read request: fill the shared element, post the response to the send queue (again until it
  is accepted, hence \<open>None\<close> when it never is) and give the buffer back to queue 1.  An unknown
  source tag is only logged.
\<close>

definition read_resp_wr :: "rnic \<Rightarrow> rdmap_read_req_fields \<Rightarrow> send_wr" where
  "read_resp_wr w f =
     \<lparr>swr_id = recv_resp_id w, swr_sg_list = recv_sg w, swr_num_sge = 1,
      swr_opcode = RDMAP_RDMA_READ_RESP, swr_send_flags = 0, swr_invalidate_rkey = 0,
      swr_remote_addr = rr_sink_TO f, swr_rkey = rr_sink_tag f\<rparr>"

definition handle_read_req :: "rnic \<Rightarrow> rnic option" where
  "handle_read_req w =
     (if recv_is_tagged w then Some (w\<lparr>recv_thread := AssertFailed\<rparr>)
      else
        let f = dec_read_req (mem_read (rd_mem w) (untag_buf_data (msg_buf (recv_msg w))) sizeof_read_req);
            w1 = w\<lparr>rd_sges := (rd_sges w)(recv_sg w :=
                   \<lparr>sge_addr = rr_src_TO f, sge_length = rr_rdma_rd_sz f, sge_lkey = rr_src_tag f\<rparr>)\<rparr>
        in case enqueue (recv_tid w) (read_resp_wr w f) (rd_sq w1) of
             (False, q) \<Rightarrow> None
           | (True, q) \<Rightarrow>
               Some (on_ddp (\<lambda>ctx. ddp_post_recv (recv_tid w) ctx READ_QN [untag_buf_of (msg_buf (recv_msg w))])
                      (w1\<lparr>rd_sq := q, recv_resp_id := recv_resp_id w + 1\<rparr>)))"

definition handle_read_resp :: "int \<Rightarrow> rnic \<Rightarrow> rnic" where
  "handle_read_resp ret w =
     (if \<not> recv_is_tagged w then w\<lparr>recv_thread := AssertFailed\<rparr>
      else case try_dequeue (cq_pending_q (rd_send_cq w)) of
             (None, q) \<Rightarrow> w\<lparr>rd_send_cq := (rd_send_cq w)\<lparr>cq_pending_q := q\<rparr>\<rparr>
           | (Some wce, q) \<Rightarrow>
               let wce1 = wce\<lparr>wc_byte_len := of_int ret\<rparr>
               in cq_push (recv_tid w) wce1
                    (w\<lparr>rd_send_cq := (rd_send_cq w)\<lparr>cq_pending_q := q\<rparr>, recv_wce := wce1\<rparr>))"

definition handle_send :: "u8 \<Rightarrow> int \<Rightarrow> rnic \<Rightarrow> rnic" where
  "handle_send opcode ret w =
     (if recv_is_tagged w then w\<lparr>recv_thread := AssertFailed\<rparr>
      else case try_dequeue (rd_rq w) of
             (None, q) \<Rightarrow> w\<lparr>rd_rq := q\<rparr>
           | (Some wr, q) \<Rightarrow>
               let wce = (recv_wce w)\<lparr>wc_opcode := ucast opcode, wc_byte_len := of_int ret,
                           wc_status := WC_SUCCESS, wc_wr_id := rwr_id wr\<rparr>
               in cq_push (recv_tid w) wce (w\<lparr>rd_rq := q, recv_wce := wce\<rparr>))"

definition rdma_invalidate :: "rnic \<Rightarrow> stag_t \<Rightarrow> int \<times> rnic" where
  "rdma_invalidate w stag =
     (case rd_ddp w of
        None \<Rightarrow> (0, w)
      | Some ctx \<Rightarrow> (case deregister_tagged_buffer ctx stag of (r, ctx') \<Rightarrow> (r, w\<lparr>rd_ddp := Some ctx'\<rparr>)))"

text \<open>The tag to invalidate is read from the one-byte RDMAP control field.\<close>

definition handle_send_inval :: "u8 \<Rightarrow> int \<Rightarrow> rnic \<Rightarrow> rnic" where
  "handle_send_inval opcode ret w =
     (case rdma_invalidate w \<lparr>stag_tag = ucast (hd (msg_meta (recv_msg w))), stag_pd = \<lparr>pd_id = send_junk w\<rparr>\<rparr>
      of (erased, w1) \<Rightarrow>
        if erased \<le> 0 then w1\<lparr>recv_thread := Returned (-1)\<rparr> else handle_send opcode ret w1)"

definition handle_terminate :: "rnic \<Rightarrow> rnic" where
  "handle_terminate w =
     (if recv_is_tagged w then w\<lparr>recv_thread := AssertFailed\<rparr> else w\<lparr>rd_connected := False\<rparr>)"

definition rnic_recv_dispatch :: "int \<Rightarrow> rnic \<Rightarrow> rnic option" where
  "rnic_recv_dispatch ret w =
     (let opcode = get_rdmap_op (hd (msg_meta (recv_msg w)))
      in if opcode = opcode_val RDMAP_RDMA_WRITE then Some (handle_rdma_write w)
         else if opcode = opcode_val RDMAP_RDMA_READ_REQ then handle_read_req w
         else if opcode = opcode_val RDMAP_RDMA_READ_RESP then Some (handle_read_resp ret w)
         else if opcode = opcode_val RDMAP_SEND_SE_INVAL \<or> opcode = opcode_val RDMAP_SEND_INVAL
         then Some (handle_send_inval opcode ret w)
         else if opcode = opcode_val RDMAP_SEND_SE \<or> opcode = opcode_val RDMAP_SEND
         then Some (handle_send opcode ret w)
         else if opcode = opcode_val RDMAP_TERMINATE then Some (handle_terminate w)
         else Some w)"

text \<open>One turn of \<open>rnic_recv\<close>; \<open>None\<close> when the turn does not end.\<close>

definition rnic_recv :: "rnic \<Rightarrow> rnic option" where
  "rnic_recv w =
     (if recv_thread w \<noteq> Running then Some w
      else if \<not> rd_connected w then Some (w\<lparr>recv_thread := Returned 0\<rparr>)
      else case rd_ddp w of
             None \<Rightarrow> Some (w\<lparr>recv_thread := UsedAfterFree\<rparr>)
           | Some ctx \<Rightarrow>
               Option.bind (ddp_recv ctx (recv_msg w) (rd_mem w)) (\<lambda>(ret, ctx', msg, m).
                 let w1 = w\<lparr>rd_ddp := Some ctx', recv_msg := msg, rd_mem := m\<rparr>
                 in if ret < 0 then Some (w1\<lparr>recv_thread := Returned (-1)\<rparr>)
                    else rnic_recv_dispatch ret w1))"

section \<open>The send thread\<close>

definition rdma_hdr :: "send_wr \<Rightarrow> u8" where
  "rdma_hdr req = push_bit 6 1 OR opcode_val (swr_opcode req)"

text \<open>The completion that every branch but a successful read request reports at once.\<close>

definition send_completion :: "send_wr \<Rightarrow> int \<Rightarrow> rnic \<Rightarrow> work_completion" where
  "send_completion req ret w =
     (send_wr_to_wce req (send_wce w))\<lparr>wc_byte_len := of_int ret,
        wc_status := (if ret < 0 then WC_FATAL_ERR else WC_SUCCESS)\<rparr>"

definition complete_send :: "send_wr \<Rightarrow> int \<Rightarrow> rnic \<Rightarrow> rnic" where
  "complete_send req ret w =
     (let wce = send_completion req ret w in cq_push (send_tid w) wce (w\<lparr>send_wce := wce\<rparr>))"

text \<open>Code that goes through the DDP context, which may have been freed.\<close>

definition with_ddp :: "rnic \<Rightarrow> (ddp_stream_context \<Rightarrow> rnic) \<Rightarrow> rnic" where
  "with_ddp w f = (case rd_ddp w of None \<Rightarrow> w\<lparr>send_thread := UsedAfterFree\<rparr> | Some ctx \<Rightarrow> f ctx)"

definition send_send :: "send_wr \<Rightarrow> rnic \<Rightarrow> rnic" where
  "send_send req w =
     (let ddp_hdr = \<lparr>um_rsvdULP1 = rdma_hdr req, um_rsvdULP2 = send_junk w, um_qn = htonl (of_int SEND_QN),
                      um_msn = htonl (msn_send w), um_mo = 0\<rparr>;
          w1 = w\<lparr>msn_send := msn_send w + 1\<rparr>
      in with_ddp w1 (\<lambda>ctx.
           case ddp_send_untagged (rd_mem w) ctx ddp_hdr (sg_array w (swr_sg_list req) (swr_num_sge req))
           of (ret, ctx') \<Rightarrow> complete_send req ret (w1\<lparr>rd_ddp := Some ctx'\<rparr>)))"

definition send_send_inval :: "send_wr \<Rightarrow> rnic \<Rightarrow> rnic" where
  "send_send_inval req w =
     (let ddp_hdr = \<lparr>um_rsvdULP1 = rdma_hdr req, um_rsvdULP2 = htonl (swr_invalidate_rkey req),
                      um_qn = htonl (of_int SEND_QN), um_msn = htonl (msn_inval w), um_mo = 0\<rparr>;
          w1 = w\<lparr>msn_inval := msn_inval w + 1\<rparr>
      in with_ddp w1 (\<lambda>ctx.
           case ddp_send_untagged (rd_mem w) ctx ddp_hdr (sg_array w (swr_sg_list req) (swr_num_sge req))
           of (ret, ctx') \<Rightarrow> complete_send req ret (w1\<lparr>rd_ddp := Some ctx'\<rparr>)))"

definition read_req_of :: "send_wr \<Rightarrow> sge \<Rightarrow> rdmap_read_req_fields" where
  "read_req_of req g = \<lparr>rr_sink_tag = sge_lkey g, rr_sink_TO = sge_addr g, rr_rdma_rd_sz = sge_length g,
     rr_src_tag = swr_rkey req, rr_src_TO = swr_remote_addr req\<rparr>"

definition send_read_req :: "send_wr \<Rightarrow> rnic \<Rightarrow> rnic" where
  "send_read_req req w =
     (let ddp_hdr = \<lparr>um_rsvdULP1 = rdma_hdr req, um_rsvdULP2 = send_junk w, um_qn = htonl (of_int READ_QN),
                      um_msn = htonl (msn_read w), um_mo = 0\<rparr>;
          w1 = w\<lparr>msn_read := msn_read w + 1\<rparr>
      in if swr_num_sge req \<noteq> 1 then w1
         else
           let fields = read_req_of req (rd_sges w (swr_sg_list req));
               m = mem_write (rd_mem w) (send_fields w) (enc_read_req fields);
               message = \<lparr>sge_addr = send_fields w, sge_length = of_nat sizeof_read_req, sge_lkey = send_junk w\<rparr>;
               w2 = w1\<lparr>rd_mem := m\<rparr>
           in with_ddp w2 (\<lambda>ctx.
                case ddp_send_untagged m ctx ddp_hdr [message] of (ret, ctx') \<Rightarrow>
                  let w3 = w2\<lparr>rd_ddp := Some ctx'\<rparr>
                  in if ret < 0 then complete_send req ret w3
                     else (let wce = send_completion req ret w3
                           in pending_push (send_tid w) wce (w3\<lparr>send_wce := wce\<rparr>))))"

definition tagged_hdr_of :: "send_wr \<Rightarrow> ddp_tagged_meta" where
  "tagged_hdr_of req = \<lparr>tm_rsvdULP1 = rdma_hdr req, tm_tag = htonl (swr_rkey req),
     tm_TO = htonll (swr_remote_addr req)\<rparr>"

definition send_write :: "send_wr \<Rightarrow> rnic \<Rightarrow> rnic" where
  "send_write req w = with_ddp w (\<lambda>ctx.
     case ddp_send_tagged (rd_mem w) ctx (tagged_hdr_of req) (sg_array w (swr_sg_list req) (swr_num_sge req))
     of (ret, ctx') \<Rightarrow> complete_send req ret (w\<lparr>rd_ddp := Some ctx'\<rparr>))"

text \<open>A read response reports nothing, whether it was sent or not.\<close>

definition send_read_resp :: "send_wr \<Rightarrow> rnic \<Rightarrow> rnic" where
  "send_read_resp req w = with_ddp w (\<lambda>ctx.
     case ddp_send_tagged (rd_mem w) ctx (tagged_hdr_of req) (sg_array w (swr_sg_list req) (swr_num_sge req))
     of (ret, ctx') \<Rightarrow> w\<lparr>rd_ddp := Some ctx'\<rparr>)"

definition rnic_send_dispatch :: "send_wr \<Rightarrow> rnic \<Rightarrow> rnic" where
  "rnic_send_dispatch req w =
     (case swr_opcode req of
        RDMAP_SEND_SE \<Rightarrow> send_send req w
      | RDMAP_SEND \<Rightarrow> send_send req w
      | RDMAP_SEND_SE_INVAL \<Rightarrow> send_send_inval req w
      | RDMAP_SEND_INVAL \<Rightarrow> send_send_inval req w
      | RDMAP_RDMA_READ_REQ \<Rightarrow> send_read_req req w
      | RDMAP_RDMA_WRITE \<Rightarrow> send_write req w
      | RDMAP_RDMA_READ_RESP \<Rightarrow> send_read_resp req w
      | RDMAP_TERMINATE \<Rightarrow> w
      | RDMAP_NOT_SUPPORTED \<Rightarrow> w)"

text \<open>One turn of \<open>rnic_send\<close>.\<close>

definition rnic_send :: "rnic \<Rightarrow> rnic" where
  "rnic_send w =
     (if send_thread w \<noteq> Running then w
      else if \<not> rd_connected w then w\<lparr>send_thread := Returned 0\<rparr>
      else case try_dequeue (rd_sq w) of
             (None, q) \<Rightarrow> w\<lparr>rd_sq := q\<rparr>
           | (Some req, q) \<Rightarrow> rnic_send_dispatch req (w\<lparr>rd_sq := q\<rparr>))"

section \<open>The application's operations\<close>

definition rdmap_send :: "rnic \<Rightarrow> send_wr \<Rightarrow> int \<times> rnic" where
  "rdmap_send w wr =
     (case enqueue (app_tid w) wr (rd_sq w) of (ok, q) \<Rightarrow> (if ok then 1 else 0, w\<lparr>rd_sq := q\<rparr>))"

text \<open>\<open>None\<close> is the failed assertion on the opcode.\<close>

definition rdmap_write :: "rnic \<Rightarrow> send_wr \<Rightarrow> (int \<times> rnic) option" where
  "rdmap_write w wr = (if swr_opcode wr = RDMAP_RDMA_WRITE then Some (rdmap_send w wr) else None)"

definition rdmap_read :: "rnic \<Rightarrow> send_wr \<Rightarrow> (int \<times> rnic) option" where
  "rdmap_read w wr = (if swr_opcode wr = RDMAP_RDMA_READ_REQ then Some (rdmap_send w wr) else None)"

definition rdma_post_recv :: "rnic \<Rightarrow> recv_wr \<Rightarrow> int \<times> rnic" where
  "rdma_post_recv w wr =
     (let bufs = map (\<lambda>g. \<lparr>ub_data = sge_addr g, ub_len = sge_length g, ub_next = 0\<rparr>)
                   (sg_array w (rwr_sg_list wr) (rwr_num_sge wr));
          w1 = on_ddp (\<lambda>ctx. ddp_post_recv (app_tid w) ctx SEND_QN bufs) w
      in (0, w1\<lparr>rd_rq := snd (enqueue (app_tid w) wr (rd_rq w1))\<rparr>))"

definition rdma_register :: "rnic \<Rightarrow> tagged_buffer \<Rightarrow> int \<times> tagged_buffer \<times> rnic" where
  "rdma_register w buf =
     (case rd_ddp w of
        None \<Rightarrow> (0, buf, w)
      | Some ctx \<Rightarrow> (case register_tagged_buffer ctx buf of (r, buf', ctx') \<Rightarrow>
          (r, buf', w\<lparr>rd_ddp := Some ctx'\<rparr>)))"

record rdmap_stream_init_attr =
  ia_sockfd :: sock
  ia_pd :: pd_t
  ia_sq :: "send_wr ConcurrentQueue"
  ia_rq :: "recv_wr ConcurrentQueue"
  ia_send_cq :: cq
  ia_recv_cq :: cq
  ia_max_pending_read_requests :: int
  ia_sq_num :: u32
  ia_sq_type :: wq_type

text \<open>What \<open>rnic_send\<close> does before its loop.\<close>

definition rnic_send_start :: "rdmap_stream_init_attr \<Rightarrow> rnic \<Rightarrow> rnic" where
  "rnic_send_start attr w =
     (if ia_sq_type attr = WQT_SQ
      then w\<lparr>send_thread := Running, send_wce := (send_wce w)\<lparr>wc_src_qp := ia_sq_num attr\<rparr>\<rparr>
      else w\<lparr>send_thread := AssertFailed\<rparr>)"

text \<open>
  \<open>rdmap_init_stream\<close>.  \<open>alloc\<close> gives the addresses \<open>malloc\<close> returns for the read buffers, \<open>ret1\<close>
  and \<open>ret2\<close> are the results of \<open>pthread_create\<close>, and \<open>w\<close> supplies the parts of the state the call
  does not set.  The members of the two \<open>wq\<close> structures the context points to are listed one by one.  The first component is \<open>False\<close> when the call returns a null pointer.
\<close>

definition rdmap_init_stream ::
    "(nat \<Rightarrow> addr) \<Rightarrow> int \<Rightarrow> int \<Rightarrow> rdmap_stream_init_attr \<Rightarrow> rnic \<Rightarrow> bool \<times> rnic" where
  "rdmap_init_stream alloc ret1 ret2 attr w =
     (let ctx = foldl (\<lambda>c i. ddp_post_recv (app_tid w) c READ_QN
                   [\<lparr>ub_data = alloc i, ub_len = of_nat sizeof_read_req, ub_next = 0\<rparr>])
                 (ddp_init_stream (ia_sockfd attr) (ia_pd attr)) [0..<nat (ia_max_pending_read_requests attr)];
          w1 = w\<lparr>rd_ddp := Some ctx, rd_connected := True, rd_sq := ia_sq attr, rd_rq := ia_rq attr,
                 rd_send_cq := ia_send_cq attr, rd_recv_cq := ia_recv_cq attr, recv_resp_id := 1001\<rparr>
      in if ret1 \<noteq> 0 then (False, w1)
         else if ret2 \<noteq> 0 then (False, w1\<lparr>recv_thread := Running\<rparr>)
         else (True, rnic_send_start attr (w1\<lparr>recv_thread := Running\<rparr>)))"

text \<open>
  The three phases of \<open>rdmap_kill_stream\<close>: free the DDP context, clear the flag, and wait until
  both threads have ended.
\<close>

definition kill_free :: "rnic \<Rightarrow> rnic" where
  "kill_free w = w\<lparr>rd_ddp := Option.bind (rd_ddp w) (\<lambda>ctx. fst (ddp_kill_stream ctx))\<rparr>"

definition kill_disconnect :: "rnic \<Rightarrow> rnic" where
  "kill_disconnect w = w\<lparr>rd_connected := False\<rparr>"

definition kill_joined :: "rnic \<Rightarrow> bool" where
  "kill_joined w \<longleftrightarrow> recv_thread w \<noteq> Running \<and> send_thread w \<noteq> Running"

section \<open>Interleaving\<close>

inductive rnic_step :: "rnic \<Rightarrow> rnic \<Rightarrow> bool" where
  step_recv: "rnic_recv w = Some w' \<Longrightarrow> rnic_step w w'"
| step_send: "rnic_step w (rnic_send w)"
| step_post_send: "rnic_step w (snd (rdmap_send w wr))"
| step_post_recv: "rwr_num_sge wr < 2 ^ 31 \<Longrightarrow> rnic_step w (snd (rdma_post_recv w wr))"
| step_register: "rnic_step w (snd (snd (rdma_register w b)))"
| step_invalidate: "rnic_step w (snd (rdma_invalidate w st))"
| step_poll: "rnic_step w (w\<lparr>rd_send_cq := snd (snd (poll_cq (rd_send_cq w) n))\<rparr>)"
| step_app_mem: "rnic_step w (w\<lparr>rd_mem := m\<rparr>)"
| step_app_sges: "rnic_step w (w\<lparr>rd_sges := s\<rparr>)"
| step_kill_free: "rnic_step w (kill_free w)"
| step_kill_disconnect: "rnic_step w (kill_disconnect w)"

inductive_cases rnic_stepE: "rnic_step w w'"


section \<open>The invariant of the interleaved system\<close>

definition rnic_ok :: "rnic \<Rightarrow> bool" where
  "rnic_ok w \<longleftrightarrow> wf_queue (rd_sq w) \<and> wf_queue (rd_rq w) \<and> wf_queue (cq_q (rd_send_cq w))
     \<and> wf_queue (cq_pending_q (rd_send_cq w)) \<and> pred_option ddp_ok (rd_ddp w)"

lemma rnic_ok_simps [simp]:
  "rnic_ok (w\<lparr>rd_mem := m\<rparr>) = rnic_ok w" "rnic_ok (w\<lparr>rd_sges := sg\<rparr>) = rnic_ok w"
  "rnic_ok (w\<lparr>recv_thread := t\<rparr>) = rnic_ok w" "rnic_ok (w\<lparr>send_thread := t\<rparr>) = rnic_ok w"
  "rnic_ok (w\<lparr>recv_msg := ms\<rparr>) = rnic_ok w" "rnic_ok (w\<lparr>recv_wce := c\<rparr>) = rnic_ok w"
  "rnic_ok (w\<lparr>send_wce := c\<rparr>) = rnic_ok w" "rnic_ok (w\<lparr>recv_resp_id := i\<rparr>) = rnic_ok w"
  "rnic_ok (w\<lparr>rd_connected := b\<rparr>) = rnic_ok w" "rnic_ok (w\<lparr>msn_send := n\<rparr>) = rnic_ok w"
  "rnic_ok (w\<lparr>msn_inval := n\<rparr>) = rnic_ok w" "rnic_ok (w\<lparr>msn_read := n\<rparr>) = rnic_ok w"
  by (simp_all add: rnic_ok_def)

lemma rnic_ok_update:
  "rnic_ok w \<Longrightarrow> wf_queue q \<Longrightarrow> rnic_ok (w\<lparr>rd_sq := q\<rparr>)"
  "rnic_ok w \<Longrightarrow> wf_queue r \<Longrightarrow> rnic_ok (w\<lparr>rd_rq := r\<rparr>)"
  "rnic_ok w \<Longrightarrow> pred_option ddp_ok d \<Longrightarrow> rnic_ok (w\<lparr>rd_ddp := d\<rparr>)"
  "rnic_ok w \<Longrightarrow> wf_queue c \<Longrightarrow> rnic_ok (w\<lparr>rd_send_cq := (rd_send_cq w)\<lparr>cq_q := c\<rparr>\<rparr>)"
  "rnic_ok w \<Longrightarrow> wf_queue c \<Longrightarrow> rnic_ok (w\<lparr>rd_send_cq := (rd_send_cq w)\<lparr>cq_pending_q := c\<rparr>\<rparr>)"
  by (simp_all add: rnic_ok_def)

lemma rnic_ok_D:
  "rnic_ok w \<Longrightarrow> wf_queue (rd_sq w)" "rnic_ok w \<Longrightarrow> wf_queue (rd_rq w)"
  "rnic_ok w \<Longrightarrow> wf_queue (cq_q (rd_send_cq w))" "rnic_ok w \<Longrightarrow> wf_queue (cq_pending_q (rd_send_cq w))"
  "rnic_ok w \<Longrightarrow> rd_ddp w = Some ctx \<Longrightarrow> ddp_ok ctx"
  by (simp_all add: rnic_ok_def)

lemma cq_push_ok: "rnic_ok w \<Longrightarrow> rnic_ok (cq_push t c w)"
  unfolding cq_push_def by (intro rnic_ok_update enqueue_wf rnic_ok_D)

lemma pending_push_ok: "rnic_ok w \<Longrightarrow> rnic_ok (pending_push t c w)"
  unfolding pending_push_def by (intro rnic_ok_update enqueue_wf rnic_ok_D)

lemma on_ddp_ok: "rnic_ok w \<Longrightarrow> (\<And>c. ddp_ok c \<Longrightarrow> ddp_ok (f c)) \<Longrightarrow> rnic_ok (on_ddp f w)"
  by (auto simp: on_ddp_def rnic_ok_def option.pred_map pred_option_def)

lemma complete_send_ok: "rnic_ok w \<Longrightarrow> rnic_ok (complete_send req ret w)"
  by (simp add: complete_send_def Let_def cq_push_ok)

lemma with_ddp_ok:
  assumes "rnic_ok w" and "\<And>ctx. ddp_ok ctx \<Longrightarrow> rnic_ok (f ctx)"
  shows "rnic_ok (with_ddp w f)"
  using assms rnic_ok_D(5) [OF assms(1)] by (auto simp: with_ddp_def split: option.splits)

lemma handle_read_resp_ok: "rnic_ok w \<Longrightarrow> rnic_ok (handle_read_resp ret w)"
proof -
  assume ok: "rnic_ok w"
  have wf: "wf_queue q" if "try_dequeue (cq_pending_q (rd_send_cq w)) = (x, q)" for x q
    using try_dequeue_wf [OF rnic_ok_D(4) [OF ok]] that by simp
  show ?thesis
    using ok by (auto simp: handle_read_resp_def Let_def intro!: cq_push_ok
        split: prod.splits option.splits dest!: wf intro: rnic_ok_update)
qed

lemma handle_send_ok: "rnic_ok w \<Longrightarrow> rnic_ok (handle_send opcode ret w)"
proof -
  assume ok: "rnic_ok w"
  have wf: "wf_queue q" if "try_dequeue (rd_rq w) = (x, q)" for x q
    using try_dequeue_wf [OF rnic_ok_D(2) [OF ok]] that by simp
  show ?thesis
    using ok by (auto simp: handle_send_def Let_def intro!: cq_push_ok
        split: prod.splits option.splits dest!: wf intro: rnic_ok_update)
qed

lemma rdma_invalidate_ok: "rnic_ok w \<Longrightarrow> rnic_ok (snd (rdma_invalidate w st))"
  using ddp_registry_keeps(2) [of _ st] rnic_ok_D(5) [of w]
  by (auto simp: rdma_invalidate_def intro!: rnic_ok_update split: option.splits prod.splits) force

lemma handle_send_inval_ok: "rnic_ok w \<Longrightarrow> rnic_ok (handle_send_inval opcode ret w)"
  using rdma_invalidate_ok [of w "\<lparr>stag_tag = ucast (hd (msg_meta (recv_msg w))), stag_pd = \<lparr>pd_id = send_junk w\<rparr>\<rparr>"]
  by (auto simp: handle_send_inval_def handle_send_ok split: prod.splits)

lemma handle_read_req_ok:
  assumes "rnic_ok w" and "handle_read_req w = Some w'"
  shows "rnic_ok w'"
proof -
  have wf: "wf_queue q" if "enqueue t x (rd_sq w) = (ok, q)" for t x ok q
    using enqueue_wf [OF rnic_ok_D(1) [OF assms(1)], of t x] that by simp
  show ?thesis
    using assms
    by (auto simp: handle_read_req_def Let_def split: if_splits prod.splits bool.splits dest!: wf
        intro!: on_ddp_ok ddp_post_recv_keeps rnic_ok_update)
qed


lemma rnic_recv_ok:
  assumes "rnic_ok w" and "rnic_recv w = Some w'"
  shows "rnic_ok w'"
proof -
  have disp: "rnic_ok v'" if "rnic_ok v" "rnic_recv_dispatch ret v = Some v'" for v v' ret
    using that handle_read_req_ok handle_read_resp_ok handle_send_inval_ok handle_send_ok
    by (auto simp: rnic_recv_dispatch_def Let_def handle_rdma_write_def handle_terminate_def split: if_splits)
  have upd: "rnic_ok (w\<lparr>rd_ddp := Some ctx', recv_msg := msg, rd_mem := m\<rparr>)"
    if "rd_ddp w = Some ctx" "ddp_recv ctx (recv_msg w) (rd_mem w) = Some (ret, ctx', msg, m)" for ctx ret ctx' msg m
    using ddp_recv_keeps [OF rnic_ok_D(5) [OF assms(1) that(1)] that(2)] assms(1) by (simp add: rnic_ok_update)
  show ?thesis
  proof (cases "recv_thread w = Running \<and> rd_connected w \<and> rd_ddp w \<noteq> None")
    case False
    then show ?thesis using assms by (auto simp: rnic_recv_def split: if_splits option.splits)
  next
    case True
    then obtain ctx ret ctx' msg m where r: "rd_ddp w = Some ctx"
      "ddp_recv ctx (recv_msg w) (rd_mem w) = Some (ret, ctx', msg, m)"
      using assms(2) by (auto simp: rnic_recv_def split: bind_splits)
    then show ?thesis
      using True assms(2) upd [OF r] disp [OF upd [OF r]]
      by (auto simp: rnic_recv_def Let_def split: if_splits)
  qed
qed

lemma ddp_sent_ok:
  "ddp_send_tagged m ctx h gs = (ret, ctx') \<Longrightarrow> ddp_ok ctx \<Longrightarrow> ddp_ok ctx'"
  "ddp_send_untagged m ctx u gs = (ret, ctx') \<Longrightarrow> ddp_ok ctx \<Longrightarrow> ddp_ok ctx'"
  using ddp_send_keeps(1) [of ctx m h gs] ddp_send_keeps(2) [of ctx m u gs] by auto

lemma rnic_send_dispatch_ok: "rnic_ok w \<Longrightarrow> rnic_ok (rnic_send_dispatch req w)"
proof -
  assume ok: "rnic_ok w"
  have "rnic_ok (send_send req w)" "rnic_ok (send_send_inval req w)" "rnic_ok (send_write req w)"
    "rnic_ok (send_read_resp req w)"
    using ok by (auto simp: send_send_def send_send_inval_def send_write_def send_read_resp_def Let_def
        intro!: with_ddp_ok complete_send_ok rnic_ok_update split: prod.splits)
      (blast intro: ddp_sent_ok)+
  moreover have "rnic_ok (send_read_req req w)"
    using ok by (auto simp: send_read_req_def Let_def
        intro!: with_ddp_ok complete_send_ok pending_push_ok rnic_ok_update split: prod.splits)
      (blast intro: ddp_sent_ok)+
  ultimately show ?thesis using ok by (simp add: rnic_send_dispatch_def split: rdma_opcode.splits)
qed

lemma rnic_send_ok: "rnic_ok w \<Longrightarrow> rnic_ok (rnic_send w)"
proof -
  assume ok: "rnic_ok w"
  have "wf_queue q" if "try_dequeue (rd_sq w) = (x, q)" for x q
    using try_dequeue_wf [OF rnic_ok_D(1) [OF ok]] that by simp
  then show ?thesis
    using ok by (auto simp: rnic_send_def intro!: rnic_send_dispatch_ok split: prod.splits option.splits
        intro: rnic_ok_update)
qed

lemma rdma_post_recv_ok:
  assumes "rnic_ok w" and "rwr_num_sge wr < 2 ^ 31"
  shows "rnic_ok (snd (rdma_post_recv w wr))"
proof -
  let ?bufs = "map (\<lambda>g. \<lparr>ub_data = sge_addr g, ub_len = sge_length g, ub_next = 0\<rparr>)
                   (sg_array w (rwr_sg_list wr) (rwr_num_sge wr))"
  have "length ?bufs < 2 ^ 62" using assms(2) by (simp add: sg_array_def nat_less_iff)
  then have "rnic_ok (on_ddp (\<lambda>ctx. ddp_post_recv (app_tid w) ctx SEND_QN ?bufs) w)"
    by (intro on_ddp_ok ddp_post_recv_keeps assms(1))
  then show ?thesis
    by (simp add: rdma_post_recv_def Let_def enqueue_wf rnic_ok_D rnic_ok_update)
qed

lemma rdma_register_ok: "rnic_ok w \<Longrightarrow> rnic_ok (snd (snd (rdma_register w b)))"
  using ddp_registry_keeps(1) [of _ b] rnic_ok_D(5) [of w]
  by (auto simp: rdma_register_def intro!: rnic_ok_update split: option.splits prod.splits) force

lemma poll_ok: "rnic_ok w \<Longrightarrow> rnic_ok (w\<lparr>rd_send_cq := snd (snd (poll_cq (rd_send_cq w) n))\<rparr>)"
  using try_dequeue_bulk_wf [OF rnic_ok_D(3), of w "size_of_int n"]
  by (auto simp: poll_cq_def intro: rnic_ok_update split: prod.splits)



lemma rdmap_init_ok:
  assumes "wf_queue (ia_sq attr)" and "wf_queue (ia_rq attr)" and "wf_queue (cq_q (ia_send_cq attr))"
    and "wf_queue (cq_pending_q (ia_send_cq attr))"
  shows "rnic_ok (snd (rdmap_init_stream alloc ret1 ret2 attr w))"
proof -
  have "ddp_ok (foldl (\<lambda>c i. ddp_post_recv (app_tid w) c READ_QN
      [\<lparr>ub_data = alloc i, ub_len = of_nat sizeof_read_req, ub_next = 0\<rparr>]) c ns)"
    if "ddp_ok c" for c ns
    using that by (induction ns arbitrary: c) (simp_all add: ddp_post_recv_keeps)
  then show ?thesis
    using assms ddp_init_ok by (simp add: rdmap_init_stream_def rnic_send_start_def Let_def rnic_ok_def)
qed

text \<open>A connected stream with one buffer for read requests and nothing else posted.\<close>

definition demo_rnic :: "bytes \<Rightarrow> rnic" where
  "demo_rnic bs = snd (rdmap_init_stream (\<lambda>i. 4096) 0 0
     \<lparr>ia_sockfd = demo_sock bs, ia_pd = \<lparr>pd_id = 0\<rparr>, ia_sq = new_queue, ia_rq = new_queue,
      ia_send_cq = create_cq 0 8, ia_recv_cq = create_cq 0 8, ia_max_pending_read_requests = 1,
      ia_sq_num = 5, ia_sq_type = WQT_SQ\<rparr>
     \<lparr>rd_ddp = None, rd_connected = False, rd_sq = new_queue, rd_rq = new_queue,
      rd_send_cq = create_cq 0 8, rd_recv_cq = create_cq 0 8, rd_mem = demo_mem,
      rd_sges = (\<lambda>a. \<lparr>sge_addr = 32, sge_length = 3, sge_lkey = 0\<rparr>), recv_thread = Returned 0, recv_msg = demo_msg,
      recv_wce = demo_wc 0, recv_sg = 8192, recv_resp_id = 0, send_thread = Returned 0,
      send_wce = demo_wc 0, send_fields = 12288, send_junk = 0, msn_send = 1, msn_inval = 1, msn_read = 1,
      app_tid = 1, recv_tid = 2, send_tid = 3\<rparr>)"

lemma demo_rnic_ok: "rnic_ok (demo_rnic bs)"
  unfolding demo_rnic_def by (rule rdmap_init_ok) (simp_all add: create_cq_def wf_new_queue)

lemma demo_rnic_facts:
  "rd_connected (demo_rnic bs)" "recv_thread (demo_rnic bs) = Running" "send_thread (demo_rnic bs) = Running"
  "\<exists>c. rd_ddp (demo_rnic bs) = Some c \<and> rx (ddp_sockfd c) = [RxData bs] \<and> tx (ddp_sockfd c) = []
     \<and> tx_plan (ddp_sockfd c) = [] \<and> ddp_ok c"
  "rd_mem (demo_rnic bs) = demo_mem" "rd_sq (demo_rnic bs) = new_queue" "app_tid (demo_rnic bs) = 1"
  "recv_msg (demo_rnic bs) = demo_msg" "recv_tid (demo_rnic bs) = 2" "send_tid (demo_rnic bs) = 3"
  "rd_rq (demo_rnic bs) = new_queue" "rd_send_cq (demo_rnic bs) = create_cq 0 8"
  "msn_send (demo_rnic bs) = 1" "rd_sges (demo_rnic bs) a = \<lparr>sge_addr = 32, sge_length = 3, sge_lkey = 0\<rparr>"
  using rnic_ok_D(5) [OF demo_rnic_ok, of bs]
  by (auto simp: demo_rnic_def rdmap_init_stream_def rnic_send_start_def Let_def ddp_post_recv_def ddp_init_stream_def demo_sock_def)


section \<open>One turn of the threads\<close>

lemma sg_array_simps [simp]: "sg_array (w\<lparr>rd_sq := q\<rparr>) a n = sg_array w a n"
  "sg_array (w\<lparr>msn_send := k\<rparr>) a n = sg_array w a n"
  by (simp_all add: sg_array_def)

lemma rnic_send_takes:
  assumes "send_thread w = Running" and "rd_connected w" and "try_dequeue (rd_sq w) = (Some req, q)"
  shows "rnic_send w = rnic_send_dispatch req (w\<lparr>rd_sq := q\<rparr>)"
  using assms by (simp add: rnic_send_def)

lemma hd_dec: "hd bs = tm_rsvdULP1 (dec_tagged bs)" "hd bs = um_rsvdULP1 (dec_untagged bs)"
  by (simp_all add: dec_tagged_def dec_untagged_def)

lemma get_rdmap_op_hdr: "get_rdmap_op (rdma_hdr req) = opcode_val (swr_opcode req)"
  by (cases "swr_opcode req") (simp_all add: get_rdmap_op_def rdma_hdr_def)

text \<open>Receiving a tagged message hands the dispatcher a tagged message with the given opcode.\<close>

lemma rnic_recv_tagged:
  assumes "recv_thread w = Running" and "rd_connected w" and "rd_ddp w = Some c"
    and "rx (ddp_sockfd c) = RxData (seg_stream (tagged_segs True rv (htonl tg) to pls) @ d) # es"
    and "pls \<noteq> []" and "\<forall>pl \<in> set pls. pl \<noteq> [] \<and> length pl \<le> 65014"
    and "tagged_buffers c tg = Some b" and "tb_data b \<le> to" and "to \<le> tb_data b + tb_len b"
  obtains msg where "rnic_recv w = rnic_recv_dispatch 0
      (w\<lparr>rd_ddp := Some (c\<lparr>ddp_sockfd := (ddp_sockfd c)\<lparr>rx := RxData d # es\<rparr>\<rparr>), recv_msg := msg,
         rd_mem := mem_write (rd_mem w) to (concat pls)\<rparr>)"
    and "hd (msg_meta msg) = rv" and "ddp_is_tagged (msg_bits msg)"
proof -
  have "ddp_check_stag c \<lparr>tm_rsvdULP1 = rv, tm_tag = tg, tm_TO = to\<rparr> = Some b"
    using assms(7-9) by (simp add: ddp_check_stag_def not_less)
  from ddp_recv_tagged_stream [OF assms(4-6) this, of "recv_msg w" "rd_mem w"] obtain msg where
    "ddp_recv c (recv_msg w) (rd_mem w) = Some (0, c\<lparr>ddp_sockfd := (ddp_sockfd c)\<lparr>rx := RxData d # es\<rparr>\<rparr>, msg,
       mem_write (rd_mem w) to (concat pls))"
    "dec_tagged (msg_meta msg) = \<lparr>tm_rsvdULP1 = rv, tm_tag = tg, tm_TO = to\<rparr>" "ddp_is_tagged (msg_bits msg)"
    by auto
  then show ?thesis
    using assms(1-3) by (intro that [of msg]) (simp_all add: rnic_recv_def hd_dec(1))
qed

text \<open>Receiving an untagged message of one segment, with the buffer the queue yields.\<close>

lemma rnic_recv_untagged:
  assumes "recv_thread w = Running" and "rd_connected w" and "rd_ddp w = Some c"
    and "rx (ddp_sockfd c) = RxData (seg_stream (untagged_segs True \<lparr>um_rsvdULP1 = rv, um_rsvdULP2 = r2,
          um_qn = htonl q, um_msn = htonl n, um_mo = 0\<rparr> [pl]) @ d) # es"
    and "pl \<noteq> []" and "length pl \<le> 65014" and "ddp_ok c" and "unat q < 3" and "n \<noteq> 0"
    and "try_dequeue (utq_q (ddp_queues c ! unat q)) = (Some b, q1)"
  obtains msg where "rnic_recv w = rnic_recv_dispatch 0
      (w\<lparr>rd_ddp := Some (c\<lparr>ddp_queues := (ddp_queues c)[unat q := (ddp_queues c ! unat q)\<lparr>utq_q := q1\<rparr>],
           ddp_sockfd := (ddp_sockfd c)\<lparr>rx := RxData d # es\<rparr>\<rparr>), recv_msg := msg,
         rd_mem := mem_write (rd_mem w) (ub_data b) pl\<rparr>)"
    and "hd (msg_meta msg) = rv" and "\<not> ddp_is_tagged (msg_bits msg)" and "msg_buf msg = UntagBuf b"
proof -
  let ?h1 = "\<lparr>um_rsvdULP1 = rv, um_rsvdULP2 = r2, um_qn = q, um_msn = n, um_mo = 0\<rparr>"
  have "1 \<le> n" using assms(9) by (simp add: word_le_nat_alt Suc_le_eq unat_gt_0)
  then have chk: "ddp_check_untagged_hdr c ?h1 = Some (unat q)"
    using assms(7-9) by (simp add: ddp_check_untagged_hdr_def MAX_UNTAGGED_BUFFERS_def ddp_ok_def not_less)
  have "rx (ddp_sockfd c) = RxData (seg_stream (untagged_segs True
      (?h1\<lparr>um_qn := htonl q, um_msn := htonl n\<rparr>) [pl]) @ d) # es"
    using assms(4) by simp
  from ddp_recv_untagged_stream [OF this _ _ chk assms(10), of "recv_msg w" "rd_mem w"] assms(5,6)
  obtain msg where
    "ddp_recv c (recv_msg w) (rd_mem w) = Some (0, c\<lparr>ddp_queues := (ddp_queues c)[unat q := (ddp_queues c ! unat q)\<lparr>utq_q := q1\<rparr>],
       ddp_sockfd := (ddp_sockfd c)\<lparr>rx := RxData d # es\<rparr>\<rparr>, msg, mem_write (rd_mem w) (ub_data b) pl)"
    "dec_untagged (msg_meta msg) = ?h1" "\<not> ddp_is_tagged (msg_bits msg)" "msg_buf msg = UntagBuf b"
    by auto
  then show ?thesis
    using assms(1-3) by (intro that [of msg]) (simp_all add: rnic_recv_def hd_dec(2))
qed

end
