(* ===== verification/Perf_Setup.thy ===== *)
theory Perf_Setup
  imports Rdmap
begin

text \<open>
  \<open>perftest/perftest.h\<close> and the first half of \<open>perftest/perftest.cpp\<close>: the configuration of a
  benchmark, the command line, the TCP connections and the buffer.  What the kernel answers to a
  system call is an argument of the definition that makes the call.
\<close>

section \<open>Configuration\<close>

definition DEFAULT_BUF_SIZE :: int where "DEFAULT_BUF_SIZE = 1024"
definition DEFAULT_ITERS :: int where "DEFAULT_ITERS = 1024"
definition DEFAULT_IP :: string where "DEFAULT_IP = ''127.0.0.1''"
definition DEFAULT_PORT :: string where "DEFAULT_PORT = ''9999''"
definition DEFAULT_MAX_REQS :: int where "DEFAULT_MAX_REQS = 1024"

text \<open>The stream of the context is the \<open>rnic\<close> that the other definitions pass along.\<close>

record perftest_context =
  pc_port :: string
  pc_ip :: string
  pc_buf_size :: int
  pc_buf :: addr
  pc_iters :: int
  pc_max_reqs :: int
  pc_is_client :: bool
  pc_serverfd :: int

record send_data =
  sd_offset :: u64
  sd_stag :: u64
  sd_size :: u64

definition enc_send_data :: "send_data \<Rightarrow> bytes" where
  "enc_send_data d = le_bytes 8 (sd_offset d) @ le_bytes 8 (sd_stag d) @ le_bytes 8 (sd_size d)"

definition dec_send_data :: "bytes \<Rightarrow> send_data" where
  "dec_send_data bs = \<lparr>sd_offset = of_le (take 8 bs), sd_stag = of_le (take 8 (drop 8 bs)),
     sd_size = of_le (take 8 (drop 16 bs))\<rparr>"

definition sizeof_send_data :: nat where "sizeof_send_data = 24"

section \<open>The command line\<close>

text \<open>
  \<open>getopt\<close> of the C library, as the list of its results over a whole command line: the option
  character with its argument, or \<open>?\<close> with the offending character.  Words that are not options
  are passed over, and \<open>--\<close> ends the options.  The first argument is what is left of the word
  that is being scanned.
\<close>

fun opt_spec :: "string \<Rightarrow> char \<Rightarrow> bool option" where
  "opt_spec [] c = None"
| "opt_spec (x # xs) c =
     (if x = c \<and> c \<noteq> CHR '':'' then Some (xs \<noteq> [] \<and> hd xs = CHR '':'') else opt_spec xs c)"

function getopt_run :: "string \<Rightarrow> string \<Rightarrow> string list \<Rightarrow> (char \<times> string) list" where
  "getopt_run spec [] [] = []"
| "getopt_run spec [] (a # as) =
     (if a = ''--'' then []
      else if 2 \<le> length a \<and> hd a = CHR ''-'' then getopt_run spec (tl a) as
      else getopt_run spec [] as)"
| "getopt_run spec (c # cs) as =
     (case opt_spec spec c of
        None \<Rightarrow> (CHR ''?'', [c]) # getopt_run spec cs as
      | Some False \<Rightarrow> (c, []) # getopt_run spec cs as
      | Some True \<Rightarrow>
          (if cs \<noteq> [] then (c, cs) # getopt_run spec [] as
           else case as of
                  [] \<Rightarrow> [(CHR ''?'', [c])]
                | a # as' \<Rightarrow> (c, a) # getopt_run spec [] as'))"
  by pat_completeness auto
termination
  by (relation "measure (\<lambda>(spec, cs, as). length cs + sum_list (map (\<lambda>a. Suc (length a)) as))") auto

definition is_digit :: "char \<Rightarrow> bool" where
  "is_digit c \<longleftrightarrow> of_char c \<in> {48 ..< (58 :: nat)}"

fun digits_val :: "int \<Rightarrow> string \<Rightarrow> int" where
  "digits_val acc [] = acc"
| "digits_val acc (c # cs) =
     (if is_digit c then digits_val (10 * acc + (of_char c - 48)) cs else acc)"

definition is_space :: "char \<Rightarrow> bool" where
  "is_space c \<longleftrightarrow> of_char c \<in> {9, 10, 11, 12, 13, 32 :: nat}"

text \<open>
  \<open>atoi\<close>: white space, a sign, digits.  The C library reads a \<open>long\<close>, saturating, and keeps the
  low 32 bits.
\<close>

definition atoi_long :: "string \<Rightarrow> int" where
  "atoi_long s =
     (case dropWhile is_space s of
        [] \<Rightarrow> 0
      | c # cs \<Rightarrow> if c = CHR ''-'' then - digits_val 0 cs
                  else if c = CHR ''+'' then digits_val 0 cs
                  else digits_val 0 (c # cs))"

definition atoi :: "string \<Rightarrow> int" where
  "atoi s = sint (word_of_int (max (- (2 ^ 63)) (min (2 ^ 63 - 1) (atoi_long s))) :: u32)"

datatype argres = ArgOk perftest_context | ArgFail perftest_context | ArgExit int

fun argparse_loop :: "(char \<times> string) list \<Rightarrow> perftest_context \<Rightarrow> argres" where
  "argparse_loop [] c = ArgOk c"
| "argparse_loop ((opt, optarg) # os) c =
     (if opt = CHR ''s'' then argparse_loop os (c\<lparr>pc_ip := optarg\<rparr>)
      else if opt = CHR ''p'' then argparse_loop os (c\<lparr>pc_port := optarg\<rparr>)
      else if opt = CHR ''b'' then argparse_loop os (c\<lparr>pc_buf_size := atoi optarg\<rparr>)
      else if opt = CHR ''i'' then argparse_loop os (c\<lparr>pc_iters := atoi optarg\<rparr>)
      else if opt = CHR ''c'' then argparse_loop os (c\<lparr>pc_is_client := True\<rparr>)
      else if opt = CHR ''h'' then ArgExit 0
      else if opt = CHR ''r'' then argparse_loop os (c\<lparr>pc_max_reqs := atoi optarg\<rparr>)
      else ArgFail c)"

definition argparse :: "string list \<Rightarrow> perftest_context \<Rightarrow> argres" where
  "argparse args c = argparse_loop (getopt_run ''p:s:b:i:r:ch'' [] args)
     (c\<lparr>pc_buf_size := DEFAULT_BUF_SIZE, pc_iters := DEFAULT_ITERS, pc_ip := DEFAULT_IP, pc_port := DEFAULT_PORT,
        pc_is_client := False, pc_max_reqs := DEFAULT_MAX_REQS\<rparr>)"

text \<open>\<open>get_nanos\<close> of a reading of the clock.\<close>

definition get_nanos :: "int \<times> int \<Rightarrow> u64" where
  "get_nanos ts = of_int (fst ts) * 1000 * 1000 * 1000 + of_int (snd ts)"

section \<open>Connections\<close>

text \<open>
  What the calls of \<open>create_tcp_connection\<close> return.  The second component of the state is the set
  of open file descriptors.
\<close>

record tcp_answers =
  an_socket :: int
  an_getaddrinfo :: int
  an_connect :: int
  an_bind :: int
  an_listen :: int
  an_accept :: int

definition open_fd :: "int \<Rightarrow> int set \<Rightarrow> int set" where
  "open_fd fd fds = (if fd < 0 then fds else insert fd fds)"

definition close_fd :: "int \<Rightarrow> int set \<Rightarrow> int set" where
  "close_fd fd fds = fds - {fd}"

definition tcp_accept :: "tcp_answers \<Rightarrow> perftest_context \<Rightarrow> int set \<Rightarrow> int \<times> perftest_context \<times> int set" where
  "tcp_accept k config fds =
     (let sock = an_accept k; fds' = open_fd sock fds
      in if sock = -1 then (-1, config, close_fd sock fds') else (sock, config, fds'))"

definition create_tcp_connection ::
    "tcp_answers \<Rightarrow> perftest_context \<Rightarrow> int set \<Rightarrow> int \<times> perftest_context \<times> int set" where
  "create_tcp_connection k config fds =
     (let sock = an_socket k; fds1 = open_fd sock fds; failed = (\<lambda>c. (-1, c, close_fd sock fds1))
      in if sock < 0 then failed config
         else if an_getaddrinfo k \<noteq> 0 then failed config
         else if pc_is_client config then
           (if an_connect k = -1 then failed config else (sock, config, fds1))
         else if pc_serverfd config = -1 then
           (let config1 = config\<lparr>pc_serverfd := sock\<rparr>
            in if an_bind k \<noteq> 0 then failed config1
               else if an_listen k \<noteq> 0 then failed config1
               else tcp_accept k config1 fds1)
         else tcp_accept k config fds1)"

text \<open>\<open>mm\<close> is the address \<open>mmap\<close> returns, \<open>None\<close> when it fails.\<close>

definition alloc_buf :: "addr option \<Rightarrow> perftest_context \<Rightarrow> int \<times> perftest_context" where
  "alloc_buf mm c = (case mm of None \<Rightarrow> (-1, c\<lparr>pc_buf := - 1\<rparr>) | Some a \<Rightarrow> (0, c\<lparr>pc_buf := a\<rparr>))"

section \<open>Properties\<close>

text \<open>
  Which sockets \<open>create_tcp_connection\<close> leaves open: on success a listening server keeps one more than
  the connection, which nothing closes.
\<close>

lemma create_tcp_connection_sockets:
  assumes "0 \<le> an_socket k" and "an_socket k \<notin> fds" and "an_getaddrinfo k = 0"
    and "create_tcp_connection k config fds = (ret, config', fds')"
  shows "(pc_is_client config \<longrightarrow> fds' = (if ret = -1 then fds else insert ret fds) \<and> (ret = -1 \<longleftrightarrow> an_connect k = -1)
      \<and> config' = config)
    \<and> (\<not> pc_is_client config \<and> pc_serverfd config \<noteq> -1 \<and> 0 \<le> an_accept k \<longrightarrow>
        ret = an_accept k \<and> fds' = insert (an_accept k) (insert (an_socket k) fds) \<and> config' = config)"
  using assms by (auto simp: create_tcp_connection_def tcp_accept_def open_fd_def close_fd_def Let_def split: if_splits)

text \<open>Command lines built from settings.\<close>

datatype setting =
  SetIp string | SetPort string | SetBytes string | SetIters string | SetReqs string | SetClient

fun render :: "setting \<Rightarrow> string list" where
  "render (SetIp s) = [''-s'', s]"
| "render (SetPort s) = [''-p'', s]"
| "render (SetBytes s) = [''-b'', s]"
| "render (SetIters s) = [''-i'', s]"
| "render (SetReqs s) = [''-r'', s]"
| "render SetClient = [''-c'']"

fun apply_setting :: "perftest_context \<Rightarrow> setting \<Rightarrow> perftest_context" where
  "apply_setting c (SetIp s) = c\<lparr>pc_ip := s\<rparr>"
| "apply_setting c (SetPort s) = c\<lparr>pc_port := s\<rparr>"
| "apply_setting c (SetBytes s) = c\<lparr>pc_buf_size := atoi s\<rparr>"
| "apply_setting c (SetIters s) = c\<lparr>pc_iters := atoi s\<rparr>"
| "apply_setting c (SetReqs s) = c\<lparr>pc_max_reqs := atoi s\<rparr>"
| "apply_setting c SetClient = c\<lparr>pc_is_client := True\<rparr>"

lemma argparse_loop_settings:
  "argparse_loop (getopt_run ''p:s:b:i:r:ch'' [] (concat (map render ss))) c = ArgOk (foldl apply_setting c ss)"
proof (induction ss arbitrary: c)
  case (Cons x ss)
  then show ?case by (cases x) simp_all
qed simp

text \<open>
  \<open>argparse\<close> accepts every sequence of settings, whatever the arguments are, starts from the
  defaults and applies the settings in order.
\<close>

lemma argparse_settings:
  "argparse (concat (map render ss)) c = ArgOk (foldl apply_setting
     (c\<lparr>pc_buf_size := 1024, pc_iters := 1024, pc_ip := ''127.0.0.1'', pc_port := ''9999'', pc_is_client := False,
        pc_max_reqs := 1024\<rparr>) ss)"
  by (simp add: argparse_def argparse_loop_settings DEFAULT_BUF_SIZE_def DEFAULT_ITERS_def DEFAULT_IP_def
      DEFAULT_PORT_def DEFAULT_MAX_REQS_def)

end
