(* ===== verification/Rdmap_Protocol.thy ===== *)
theory Rdmap_Protocol
  imports Rdmap
begin

text \<open>
  What the two threads of one node and those of its peer achieve together: writes, sends and
  reads end to end, the accounting of completions, and what happens when reads overlap, when a
  message is of the wrong kind and when a stream ends.
\<close>

section \<open>Example nodes\<close>

text \<open>
  A connected stream: a tagged buffer of eight bytes at address 100, a buffer in each queue, a
  receive request with id 9, and some requests in the send queue.
\<close>

definition demo_node :: "send_wr list \<Rightarrow> bytes \<Rightarrow> rnic" where
  "demo_node reqs bs = (demo_rnic bs)\<lparr>
     rd_ddp := Some ((ddp_init_stream (demo_sock bs) \<lparr>pd_id = 0\<rparr>)\<lparr>
        ddp_queues := replicate 3 \<lparr>utq_q = filled 1 [demo_buf], utq_msn = 1\<rparr>,
        tagged_buffers := [100 \<mapsto> \<lparr>tb_stag = \<lparr>stag_tag = 100, stag_pd = \<lparr>pd_id = 0\<rparr>\<rparr>, tb_data = 100, tb_len = 8,
          tb_access_ctrl = 0\<rparr>]\<rparr>),
     rd_sq := filled 1 reqs, rd_rq := filled 1 [\<lparr>rwr_id = 9, rwr_sg_list = 0, rwr_num_sge = 1\<rparr>],
     rd_sges := (\<lambda>a. \<lparr>sge_addr = 100, sge_length = 3, sge_lkey = 100\<rparr>)\<rparr>"

lemma demo_node_ddp:
  obtains c where "rd_ddp (demo_node reqs bs) = Some c" "ddp_ok c" "rx (ddp_sockfd c) = [RxData bs]"
    "tx (ddp_sockfd c) = []" "tx_plan (ddp_sockfd c) = []"
    "ddp_queues c = replicate 3 \<lparr>utq_q = filled 1 [demo_buf], utq_msn = 1\<rparr>"
    "tagged_buffers c = [100 \<mapsto> \<lparr>tb_stag = \<lparr>stag_tag = 100, stag_pd = \<lparr>pd_id = 0\<rparr>\<rparr>, tb_data = 100, tb_len = 8,
          tb_access_ctrl = 0\<rparr>]"
  by (rule that [of "the (rd_ddp (demo_node reqs bs))"])
    (auto simp: demo_node_def ddp_init_stream_def demo_sock_def ddp_ok_def filled_facts MAX_UNTAGGED_BUFFERS_def)

lemma demo_node_facts [simp]:
  "rd_connected (demo_node reqs bs)" "recv_thread (demo_node reqs bs) = Running"
  "send_thread (demo_node reqs bs) = Running" "rd_mem (demo_node reqs bs) = demo_mem"
  "rd_sq (demo_node reqs bs) = filled 1 reqs" "rd_rq (demo_node reqs bs) = filled 1 [\<lparr>rwr_id = 9, rwr_sg_list = 0, rwr_num_sge = 1\<rparr>]"
  "rd_send_cq (demo_node reqs bs) = create_cq 0 8" "msn_send (demo_node reqs bs) = 1"
  "msn_read (demo_node reqs bs) = 1" "msn_inval (demo_node reqs bs) = 1"
  "rd_sges (demo_node reqs bs) = (\<lambda>a. \<lparr>sge_addr = 100, sge_length = 3, sge_lkey = 100\<rparr>)"
  "send_tid (demo_node reqs bs) = 3" "recv_tid (demo_node reqs bs) = 2"
  "send_fields (demo_node reqs bs) = 12288"
  by (simp_all add: demo_node_def demo_rnic_facts) (simp add: demo_rnic_def rdmap_init_stream_def rnic_send_start_def Let_def)+

definition demo_req :: "rdma_opcode \<Rightarrow> send_wr" where
  "demo_req op = \<lparr>swr_id = 42, swr_sg_list = 64, swr_num_sge = 1, swr_opcode = op, swr_send_flags = 0,
     swr_invalidate_rkey = 0, swr_remote_addr = 104, swr_rkey = 100\<rparr>"

lemma demo_req_facts [simp]:
  "swr_id (demo_req op) = 42" "swr_opcode (demo_req op) = op" "swr_num_sge (demo_req op) = 1"
  "swr_remote_addr (demo_req op) = 104" "swr_rkey (demo_req op) = 100"
  by (simp_all add: demo_req_def)

lemma demo_node_sges:
  "sg_array (demo_node reqs bs) x 1 = [\<lparr>sge_addr = 100, sge_length = 3, sge_lkey = 100\<rparr>]"
  "sges_ok [\<lparr>sge_addr = 100, sge_length = 3, sge_lkey = 100\<rparr>]"
  "gather demo_mem [\<lparr>sge_addr = 100, sge_length = 3, sge_lkey = 100\<rparr>] = [100, 101, 102]"
  by (simp_all add: sg_array_def sges_ok_def gather_def sge_bytes_def demo_mem_def mem_read_def upt_conv_Cons)

lemma demo_node_takes:
  obtains q where "try_dequeue (rd_sq (demo_node [req] bs)) = (Some req, q)"
  using filled_try_dequeue [of "[]" 1 req] by auto

lemma rnic_send_has_ddp:
  assumes "rd_ddp w = Some c"
  obtains c' where "rd_ddp (rnic_send w) = Some c'"
proof -
  have "rd_ddp (rnic_send_dispatch req v) \<noteq> None" if "rd_ddp v \<noteq> None" for req v
    using that by (auto simp: rnic_send_dispatch_def send_send_def send_send_inval_def send_write_def
        send_read_resp_def send_read_req_def with_ddp_def Let_def complete_send_def cq_push_def pending_push_def
        split: rdma_opcode.splits prod.splits)
  then show ?thesis
    using that assms by (fastforce simp: rnic_send_def split: prod.splits option.splits)
qed

lemma demo_node_ok: "rnic_ok (demo_node reqs bs)" if "length reqs + 64 < 2 ^ 63"
proof -
  obtain c where "rd_ddp (demo_node reqs bs) = Some c" "ddp_ok c" by (rule demo_node_ddp)
  then show ?thesis using that by (simp add: rnic_ok_def filled_facts create_cq_def wf_new_queue)
qed

section \<open>RDMA write\<close>

text \<open>Where the completion of a request goes, and what it says.\<close>

lemma complete_send_fields:
  "cq_q (rd_send_cq (complete_send req ret w)) =
     snd (enqueue (send_tid w) (send_completion req ret w) (cq_q (rd_send_cq w)))"
  "rd_ddp (complete_send req ret w) = rd_ddp w" "rd_mem (complete_send req ret w) = rd_mem w"
  "cq_pending_q (rd_send_cq (complete_send req ret w)) = cq_pending_q (rd_send_cq w)"
  by (simp_all add: complete_send_def Let_def cq_push_def)

lemma send_completion_fields:
  "wc_wr_id (send_completion req ret w) = swr_id req"
  "wc_status (send_completion req ret w) = (if ret < 0 then WC_FATAL_ERR else WC_SUCCESS)"
  "wc_opcode (send_completion req ret w) = ucast (opcode_val (swr_opcode req))"
  "wc_byte_len (send_completion req ret w) = of_int ret"
  by (simp_all add: send_completion_def send_wr_to_wce_def)

lemma send_tagged_wire:
  assumes "rd_ddp w = Some c" and "tx_plan (ddp_sockfd c) = []" and "tx (ddp_sockfd c) = []"
    and "sges_ok (sg_array w (swr_sg_list req) (swr_num_sge req))"
  shows "ddp_send_tagged (rd_mem w) c (tagged_hdr_of req) (sg_array w (swr_sg_list req) (swr_num_sge req)) =
    (0, c\<lparr>ddp_sockfd := (ddp_sockfd c)\<lparr>tx := seg_stream (tagged_segs True (rdma_hdr req) (htonl (swr_rkey req))
        (swr_remote_addr req) (payloads (rd_mem w) (sg_array w (swr_sg_list req) (swr_num_sge req))))\<rparr>\<rparr>)"
  using ddp_send_tagged_stream [OF assms(4,2)] assms(3) by (simp add: tagged_hdr_of_def)

text \<open>
  C1. RDMA write, end to end.  The requester's send thread takes a write request off its queue
  and puts one successful completion with the request's id on its completion queue.  When the
  bytes reach a peer whose registered buffer admits the remote address, its receive thread
  stores the gathered bytes there, keeps running, and reports nothing to its application.
\<close>

theorem rdma_write_end_to_end:
  assumes "send_thread a = Running" and "rd_connected a" and "try_dequeue (rd_sq a) = (Some req, q)"
    and "swr_opcode req = RDMAP_RDMA_WRITE" and "sges_ok (sg_array a (swr_sg_list req) (swr_num_sge req))"
    and "rd_ddp a = Some ca" and "tx_plan (ddp_sockfd ca) = []" and "tx (ddp_sockfd ca) = []"
    and "rd_ddp (rnic_send a) = Some ca'"
    and "recv_thread b = Running" and "rd_connected b" and "rd_ddp b = Some cb"
    and "rx (ddp_sockfd cb) = RxData (tx (ddp_sockfd ca') @ d) # es"
    and "tagged_buffers cb (swr_rkey req) = Some buf"
    and "tb_data buf \<le> swr_remote_addr req" and "swr_remote_addr req \<le> tb_data buf + tb_len buf"
  shows "(\<exists>wce. cq_q (rd_send_cq (rnic_send a)) = snd (enqueue (send_tid a) wce (cq_q (rd_send_cq a)))
      \<and> wc_wr_id wce = swr_id req \<and> wc_status wce = WC_SUCCESS \<and> wc_opcode wce = wc_opcode_val WC_WRITE) \<and>
     (\<exists>b'. rnic_recv b = Some b' \<and> recv_thread b' = Running \<and> rd_send_cq b' = rd_send_cq b
      \<and> rd_mem b' = mem_write (rd_mem b) (swr_remote_addr req)
          (gather (rd_mem a) (sg_array a (swr_sg_list req) (swr_num_sge req))))"
proof (rule conjI)
  let ?gs = "sg_array a (swr_sg_list req) (swr_num_sge req)"
  let ?c = "ca\<lparr>ddp_sockfd := (ddp_sockfd ca)\<lparr>tx := seg_stream (tagged_segs True (rdma_hdr req) (htonl (swr_rkey req))
        (swr_remote_addr req) (payloads (rd_mem a) ?gs))\<rparr>\<rparr>"
  have snd_a: "rnic_send a = complete_send req 0 (a\<lparr>rd_sq := q, rd_ddp := Some ?c\<rparr>)"
    using send_tagged_wire [OF assms(6-8,5)] assms(4,6)
    by (simp add: rnic_send_takes [OF assms(1-3)] rnic_send_dispatch_def send_write_def with_ddp_def)
  then show "\<exists>wce. cq_q (rd_send_cq (rnic_send a)) = snd (enqueue (send_tid a) wce (cq_q (rd_send_cq a)))
      \<and> wc_wr_id wce = swr_id req \<and> wc_status wce = WC_SUCCESS \<and> wc_opcode wce = wc_opcode_val WC_WRITE"
    using assms(4) by (auto simp: complete_send_fields send_completion_fields)
  have ca': "ca' = ?c" using assms(9) snd_a by (simp add: complete_send_fields)
  then have "rx (ddp_sockfd cb) = RxData (seg_stream (tagged_segs True (rdma_hdr req) (htonl (swr_rkey req))
      (swr_remote_addr req) (payloads (rd_mem a) ?gs)) @ d) # es"
    using assms(13) by simp
  then obtain msg where "rnic_recv b = rnic_recv_dispatch 0
      (b\<lparr>rd_ddp := Some (cb\<lparr>ddp_sockfd := (ddp_sockfd cb)\<lparr>rx := RxData d # es\<rparr>\<rparr>), recv_msg := msg,
         rd_mem := mem_write (rd_mem b) (swr_remote_addr req) (concat (payloads (rd_mem a) ?gs))\<rparr>)"
    "hd (msg_meta msg) = rdma_hdr req" "ddp_is_tagged (msg_bits msg)"
    by (rule rnic_recv_tagged [OF assms(10-12) _ payloads_nonempty [OF assms(5)] payloads_sizes assms(14-16)])
  then show "\<exists>b'. rnic_recv b = Some b' \<and> recv_thread b' = Running \<and> rd_send_cq b' = rd_send_cq b
      \<and> rd_mem b' = mem_write (rd_mem b) (swr_remote_addr req) (gather (rd_mem a) ?gs)"
    using assms(4,10) by (simp add: rnic_recv_dispatch_def get_rdmap_op_hdr handle_rdma_write_def
        recv_is_tagged_def concat_payloads)
qed

theorem rdma_write_end_to_end_witness:
  "\<exists>bs b'. rnic_recv (demo_node [] bs) = Some b' \<and> recv_thread b' = Running
     \<and> rd_mem b' = mem_write demo_mem 104 [100, 101, 102]"
proof -
  let ?a = "demo_node [demo_req RDMAP_RDMA_WRITE] []"
  obtain ca where ca: "rd_ddp ?a = Some ca" "tx (ddp_sockfd ca) = []" "tx_plan (ddp_sockfd ca) = []"
    by (rule demo_node_ddp)
  obtain ca' where ca': "rd_ddp (rnic_send ?a) = Some ca'" by (rule rnic_send_has_ddp [OF ca(1)])
  let ?b = "demo_node [] (tx (ddp_sockfd ca'))"
  obtain cb where cb: "rd_ddp ?b = Some cb" "rx (ddp_sockfd cb) = [RxData (tx (ddp_sockfd ca'))]"
    "tagged_buffers cb = [100 \<mapsto> \<lparr>tb_stag = \<lparr>stag_tag = 100, stag_pd = \<lparr>pd_id = 0\<rparr>\<rparr>, tb_data = 100, tb_len = 8,
          tb_access_ctrl = 0\<rparr>]"
    by (rule demo_node_ddp)
  obtain q where q: "try_dequeue (rd_sq ?a) = (Some (demo_req RDMAP_RDMA_WRITE), q)" by (rule demo_node_takes)
  show ?thesis
    using rdma_write_end_to_end [OF _ _ q _ _ ca(1,3,2) ca' _ _ cb(1), of "[]" "[]"] cb(2,3)
    by (intro exI [of _ "tx (ddp_sockfd ca')"]) (auto simp: demo_node_sges)
qed

section \<open>Send\<close>

lemma payloads_one:
  "0 < unat (sge_length g) \<Longrightarrow> unat (sge_length g) \<le> 65014 \<Longrightarrow> payloads m [g] = [sge_bytes m g]"
  by (simp add: payloads_def sge_bytes_def chunks.simps [of "mem_read m a n" for a n] flip: length_greater_0_conv)

lemma send_send_wire:
  assumes "rd_ddp w = Some c" and "tx_plan (ddp_sockfd c) = []" and "tx (ddp_sockfd c) = []"
    and "sges_ok (sg_array w (swr_sg_list req) (swr_num_sge req))"
  shows "send_send req w = complete_send req 0 (w\<lparr>msn_send := msn_send w + 1, rd_ddp := Some (c\<lparr>ddp_sockfd := (ddp_sockfd c)
     \<lparr>tx := seg_stream (untagged_segs True \<lparr>um_rsvdULP1 = rdma_hdr req, um_rsvdULP2 = send_junk w,
        um_qn = htonl 0, um_msn = htonl (msn_send w), um_mo = 0\<rparr>
        (payloads (rd_mem w) (sg_array w (swr_sg_list req) (swr_num_sge req))))\<rparr>\<rparr>)\<rparr>)"
  using assms by (simp add: send_send_def with_ddp_def Let_def ddp_send_untagged_stream SEND_QN_def)

text \<open>
  C3. Send, end to end.  A send request of one element that fits one segment completes
  successfully at the requester with its own id.  The peer stores the bytes in the first buffer
  of queue 0 and reports a successful completion that carries the id of its first receive
  request and the opcode of the message; the length it reports is 0, whatever was received.
\<close>

theorem rdma_send_end_to_end:
  assumes "send_thread a = Running" and "rd_connected a" and "try_dequeue (rd_sq a) = (Some req, q)"
    and "swr_opcode req \<in> {RDMAP_SEND, RDMAP_SEND_SE}"
    and "sg_array a (swr_sg_list req) (swr_num_sge req) = [g]"
    and "0 < unat (sge_length g)" and "unat (sge_length g) \<le> 65014" and "msn_send a \<noteq> 0"
    and "rd_ddp a = Some ca" and "tx_plan (ddp_sockfd ca) = []" and "tx (ddp_sockfd ca) = []"
    and "rd_ddp (rnic_send a) = Some ca'"
    and "recv_thread b = Running" and "rd_connected b" and "rd_ddp b = Some cb" and "ddp_ok cb"
    and "rx (ddp_sockfd cb) = RxData (tx (ddp_sockfd ca') @ d) # es"
    and "try_dequeue (utq_q (ddp_queues cb ! 0)) = (Some buf, bq)"
    and "try_dequeue (rd_rq b) = (Some wr, rq)"
  shows "(\<exists>wce. cq_q (rd_send_cq (rnic_send a)) = snd (enqueue (send_tid a) wce (cq_q (rd_send_cq a)))
      \<and> wc_wr_id wce = swr_id req \<and> wc_status wce = WC_SUCCESS) \<and>
    (\<exists>b' wce. rnic_recv b = Some b' \<and> recv_thread b' = Running \<and> rd_rq b' = rq
      \<and> rd_mem b' = mem_write (rd_mem b) (ub_data buf) (sge_bytes (rd_mem a) g)
      \<and> cq_q (rd_send_cq b') = snd (enqueue (recv_tid b) wce (cq_q (rd_send_cq b)))
      \<and> wc_wr_id wce = rwr_id wr \<and> wc_status wce = WC_SUCCESS
      \<and> wc_opcode wce = ucast (opcode_val (swr_opcode req)) \<and> wc_byte_len wce = 0)"
proof (rule conjI)
  let ?pl = "sge_bytes (rd_mem a) g"
  let ?h = "\<lparr>um_rsvdULP1 = rdma_hdr req, um_rsvdULP2 = send_junk a, um_qn = htonl 0,
      um_msn = htonl (msn_send a), um_mo = 0\<rparr>"
  let ?c = "ca\<lparr>ddp_sockfd := (ddp_sockfd ca)\<lparr>tx := seg_stream (untagged_segs True ?h [?pl])\<rparr>\<rparr>"
  have g: "sges_ok [g]" using assms(6,7) by (simp add: sges_ok_def unat_gt_0)
  have snd_a: "rnic_send a = complete_send req 0 (a\<lparr>rd_sq := q, msn_send := msn_send a + 1, rd_ddp := Some ?c\<rparr>)"
    using assms(4,5,9-11) g payloads_one [OF assms(6,7)]
    by (auto simp: rnic_send_takes [OF assms(1-3)] rnic_send_dispatch_def send_send_wire)
  then show "\<exists>wce. cq_q (rd_send_cq (rnic_send a)) = snd (enqueue (send_tid a) wce (cq_q (rd_send_cq a)))
      \<and> wc_wr_id wce = swr_id req \<and> wc_status wce = WC_SUCCESS"
    by (auto simp: complete_send_fields send_completion_fields)
  have "rx (ddp_sockfd cb) = RxData (seg_stream (untagged_segs True ?h [?pl]) @ d) # es"
    using assms(12,17) snd_a by (auto simp: complete_send_fields)
  moreover have "?pl \<noteq> []" "length ?pl \<le> 65014" "unat (0 :: u32) < 3"
    "try_dequeue (utq_q (ddp_queues cb ! unat (0 :: u32))) = (Some buf, bq)"
    using assms(6,7,18) by (simp_all add: sge_bytes_def flip: length_greater_0_conv)
  ultimately obtain msg c' where "rnic_recv b = rnic_recv_dispatch 0
      (b\<lparr>rd_ddp := Some c', recv_msg := msg, rd_mem := mem_write (rd_mem b) (ub_data buf) ?pl\<rparr>)"
    "hd (msg_meta msg) = rdma_hdr req" "\<not> ddp_is_tagged (msg_bits msg)"
    using rnic_recv_untagged [OF assms(13-15) _ _ _ assms(16) _ assms(8)] by metis
  then show "\<exists>b' wce. rnic_recv b = Some b' \<and> recv_thread b' = Running \<and> rd_rq b' = rq
      \<and> rd_mem b' = mem_write (rd_mem b) (ub_data buf) ?pl
      \<and> cq_q (rd_send_cq b') = snd (enqueue (recv_tid b) wce (cq_q (rd_send_cq b)))
      \<and> wc_wr_id wce = rwr_id wr \<and> wc_status wce = WC_SUCCESS
      \<and> wc_opcode wce = ucast (opcode_val (swr_opcode req)) \<and> wc_byte_len wce = 0"
    using assms(4,13,19) by (auto simp: rnic_recv_dispatch_def get_rdmap_op_hdr handle_send_def
        recv_is_tagged_def cq_push_def Let_def)
qed

theorem rdma_send_end_to_end_witness:
  "\<exists>bs b' wce. rnic_recv (demo_node [] bs) = Some b' \<and> rd_mem b' = mem_write demo_mem 500 [100, 101, 102]
     \<and> cq_q (rd_send_cq b') = snd (enqueue 2 wce new_queue) \<and> wc_wr_id wce = 9"
proof -
  let ?a = "demo_node [demo_req RDMAP_SEND] []"
  obtain ca where ca: "rd_ddp ?a = Some ca" "tx (ddp_sockfd ca) = []" "tx_plan (ddp_sockfd ca) = []"
    by (rule demo_node_ddp)
  obtain ca' where ca': "rd_ddp (rnic_send ?a) = Some ca'" by (rule rnic_send_has_ddp [OF ca(1)])
  let ?b = "demo_node [] (tx (ddp_sockfd ca'))"
  obtain cb where cb: "rd_ddp ?b = Some cb" "ddp_ok cb" "rx (ddp_sockfd cb) = [RxData (tx (ddp_sockfd ca'))]"
    "ddp_queues cb = replicate 3 \<lparr>utq_q = filled 1 [demo_buf], utq_msn = 1\<rparr>"
    by (rule demo_node_ddp)
  obtain q where q: "try_dequeue (rd_sq ?a) = (Some (demo_req RDMAP_SEND), q)" by (rule demo_node_takes)
  obtain bq where bq: "try_dequeue (filled 1 [demo_buf]) = (Some demo_buf, bq)"
    using filled_try_dequeue [of "[]" 1 demo_buf] by auto
  obtain rq where rq: "try_dequeue (rd_rq ?b) = (Some \<lparr>rwr_id = 9, rwr_sg_list = 0, rwr_num_sge = 1\<rparr>, rq)"
    using filled_try_dequeue [of "[]" 1 "\<lparr>rwr_id = 9, rwr_sg_list = 0, rwr_num_sge = 1\<rparr>"] by auto
  have "sge_bytes demo_mem \<lparr>sge_addr = 100, sge_length = 3, sge_lkey = 100\<rparr> = [100, 101, 102]"
    using demo_node_sges(3) by (simp add: gather_def)
  then show ?thesis
    using rdma_send_end_to_end [OF _ _ q _ _ _ _ _ ca(1,3,2) ca' _ _ cb(1,2) _ _ rq,
        of "\<lparr>sge_addr = 100, sge_length = 3, sge_lkey = 100\<rparr>" "[]" "[]" demo_buf bq] cb(3,4) bq rq
    by (intro exI [of _ "tx (ddp_sockfd ca')"]) (auto simp: demo_node_sges(1) demo_buf_def create_cq_def)
qed

section \<open>Read\<close>

lemma dec_enc_read_req [simp]: "dec_read_req (enc_read_req f) = f"
  by (simp add: dec_read_req_def enc_read_req_def of_le_le_bytes_full)

lemma length_enc_read_req [simp]: "length (enc_read_req f) = sizeof_read_req"
  by (simp add: enc_read_req_def sizeof_read_req_def)

text \<open>What a node has sent so far, and the node when its socket holds given bytes.\<close>

definition sent :: "rnic \<Rightarrow> bytes" where
  "sent w = (case rd_ddp w of None \<Rightarrow> [] | Some c \<Rightarrow> tx (ddp_sockfd c))"

definition feed :: "bytes \<Rightarrow> rnic \<Rightarrow> rnic" where
  "feed bs w = w\<lparr>rd_ddp := map_option (\<lambda>c. c\<lparr>ddp_sockfd := (ddp_sockfd c)\<lparr>rx := [RxData bs]\<rparr>\<rparr>) (rd_ddp w)\<rparr>"

definition read_req_stream :: "send_wr \<Rightarrow> rnic \<Rightarrow> bytes" where
  "read_req_stream req w = seg_stream (untagged_segs True \<lparr>um_rsvdULP1 = rdma_hdr req, um_rsvdULP2 = send_junk w,
     um_qn = htonl 1, um_msn = htonl (msn_read w), um_mo = 0\<rparr>
     [enc_read_req (read_req_of req (rd_sges w (swr_sg_list req)))])"

lemma send_read_req_wire:
  assumes "rd_ddp w = Some c" and "tx_plan (ddp_sockfd c) = []" and "tx (ddp_sockfd c) = []" and "swr_num_sge req = 1"
  obtains wce where "send_read_req req w = pending_push (send_tid w) wce (w\<lparr>msn_read := msn_read w + 1,
      rd_mem := mem_write (rd_mem w) (send_fields w) (enc_read_req (read_req_of req (rd_sges w (swr_sg_list req)))),
      rd_ddp := Some (c\<lparr>ddp_sockfd := (ddp_sockfd c)\<lparr>tx := read_req_stream req w\<rparr>\<rparr>), send_wce := wce\<rparr>)"
    and "wc_wr_id wce = swr_id req" and "wc_status wce = WC_SUCCESS"
    and "wc_opcode wce = ucast (opcode_val (swr_opcode req))"
proof -
  let ?bs = "enc_read_req (read_req_of req (rd_sges w (swr_sg_list req)))"
  let ?m = "mem_write (rd_mem w) (send_fields w) ?bs"
  let ?g = "\<lparr>sge_addr = send_fields w, sge_length = of_nat sizeof_read_req, sge_lkey = send_junk w\<rparr>"
  have sz: "unat (sge_length ?g) = length ?bs" "unat (sge_length ?g) = 28" by (simp_all add: sizeof_read_req_def)
  have "mem_read ?m (send_fields w) (length ?bs) = ?bs"
    by (rule mem_read_write_same) (simp add: sizeof_read_req_def)
  then have "sge_bytes ?m ?g = ?bs" by (simp only: sge_bytes_def sz(1)) simp
  then have "payloads ?m [?g] = [?bs]" using payloads_one [of ?g ?m] sz(2) by simp
  moreover have "sges_ok [?g]" by (simp add: sges_ok_def sizeof_read_req_def)
  ultimately show ?thesis
    using assms that [of "send_completion req 0 (w\<lparr>msn_read := msn_read w + 1, rd_mem := ?m,
        rd_ddp := Some (c\<lparr>ddp_sockfd := (ddp_sockfd c)\<lparr>tx := read_req_stream req w\<rparr>\<rparr>)\<rparr>)"]
    by (simp add: send_read_req_def with_ddp_def Let_def ddp_send_untagged_stream READ_QN_def read_req_stream_def
        send_completion_fields)
qed

lemma ddp_post_recv_sockfd [simp]: "ddp_sockfd (ddp_post_recv t ctx qn bs) = ddp_sockfd ctx"
  by (simp add: ddp_post_recv_def Let_def)

text \<open>The responder turns the request into a work request for its own send thread.\<close>

lemma responder_recv:
  assumes "recv_thread b = Running" and "rd_connected b" and "rd_ddp b = Some c" and "rnic_ok b"
    and "rx (ddp_sockfd c) = RxData (seg_stream (untagged_segs True \<lparr>um_rsvdULP1 = rdma_hdr req, um_rsvdULP2 = r2,
          um_qn = htonl 1, um_msn = htonl n, um_mo = 0\<rparr> [enc_read_req f]) @ d) # es"
    and "n \<noteq> 0" and "swr_opcode req = RDMAP_RDMA_READ_REQ"
    and "try_dequeue (utq_q (ddp_queues c ! 1)) = (Some buf, bq)"
    and "queue_items (rd_sq b) = []" and "queue_room 0 (rd_sq b)"
  obtains b' q c' where "rnic_recv b = Some b'" and "rnic_ok b'" and "send_thread b' = send_thread b"
    and "rd_connected b'" and "recv_thread b' = Running" and "try_dequeue (rd_sq b') = (Some (read_resp_wr b f), q)"
    and "rd_sges b' = (rd_sges b)(recv_sg b := \<lparr>sge_addr = rr_src_TO f, sge_length = rr_rdma_rd_sz f, sge_lkey = rr_src_tag f\<rparr>)"
    and "rd_mem b' = mem_write (rd_mem b) (ub_data buf) (enc_read_req f)"
    and "rd_send_cq b' = rd_send_cq b" and "rd_ddp b' = Some c'"
    and "ddp_sockfd c' = (ddp_sockfd c)\<lparr>rx := RxData d # es\<rparr>"
proof -
  have ne: "enc_read_req f \<noteq> []" "length (enc_read_req f) \<le> 65014"
    by (simp_all add: sizeof_read_req_def flip: length_greater_0_conv)
  have q1: "unat (1 :: u32) < 3" "try_dequeue (utq_q (ddp_queues c ! unat (1 :: u32))) = (Some buf, bq)"
    using assms(8) by simp_all
  let ?c1 = "c\<lparr>ddp_queues := (ddp_queues c)[1 := (ddp_queues c ! 1)\<lparr>utq_q := bq\<rparr>],
           ddp_sockfd := (ddp_sockfd c)\<lparr>rx := RxData d # es\<rparr>\<rparr>"
  obtain msg where r: "rnic_recv b = rnic_recv_dispatch 0 (b\<lparr>rd_ddp := Some ?c1, recv_msg := msg,
         rd_mem := mem_write (rd_mem b) (ub_data buf) (enc_read_req f)\<rparr>)"
    and msg: "hd (msg_meta msg) = rdma_hdr req" "\<not> ddp_is_tagged (msg_bits msg)" "msg_buf msg = UntagBuf buf"
    using rnic_recv_untagged [OF assms(1-3,5) ne rnic_ok_D(5) [OF assms(4,3)] q1(1) assms(6) q1(2)]
    by (metis unat_1)
  obtain ok sq where sq: "enqueue (recv_tid b) (read_resp_wr b f) (rd_sq b) = (ok, sq)"
    by (cases "enqueue (recv_tid b) (read_resp_wr b f) (rd_sq b)")
  obtain q where q: "ok" "try_dequeue sq = (Some (read_resp_wr b f), q)"
    by (rule single_item [OF rnic_ok_D(1) [OF assms(4)] assms(9,10) sq])
  have "mem_read (mem_write (rd_mem b) (ub_data buf) (enc_read_req f)) (ub_data buf) sizeof_read_req = enc_read_req f"
    using mem_read_write_same [of "enc_read_req f" "rd_mem b" "ub_data buf"] by (simp add: sizeof_read_req_def)
  then have fin: "rnic_recv b = Some (on_ddp (\<lambda>ctx. ddp_post_recv (recv_tid b) ctx READ_QN [buf])
     (b\<lparr>rd_ddp := Some ?c1, recv_msg := msg, rd_mem := mem_write (rd_mem b) (ub_data buf) (enc_read_req f),
        rd_sges := (rd_sges b)(recv_sg b := \<lparr>sge_addr = rr_src_TO f, sge_length = rr_rdma_rd_sz f, sge_lkey = rr_src_tag f\<rparr>),
        rd_sq := sq, recv_resp_id := recv_resp_id b + 1\<rparr>))"
    unfolding r using msg sq q(1) assms(7)
    by (simp add: rnic_recv_dispatch_def get_rdmap_op_hdr handle_read_req_def recv_is_tagged_def Let_def read_resp_wr_def)
  show ?thesis
    using rnic_recv_ok [OF assms(4) fin] q(2) assms(1,2)
    by (intro that [OF fin]) (auto simp: on_ddp_def)
qed

lemma send_read_resp_wire:
  assumes "rd_ddp w = Some c" and "tx_plan (ddp_sockfd c) = []" and "tx (ddp_sockfd c) = []"
    and "sges_ok (sg_array w (swr_sg_list req) (swr_num_sge req))"
  shows "send_read_resp req w = w\<lparr>rd_ddp := Some (c\<lparr>ddp_sockfd := (ddp_sockfd c)\<lparr>tx := seg_stream (tagged_segs True
     (rdma_hdr req) (htonl (swr_rkey req)) (swr_remote_addr req)
     (payloads (rd_mem w) (sg_array w (swr_sg_list req) (swr_num_sge req))))\<rparr>\<rparr>)\<rparr>"
  using send_tagged_wire [OF assms] assms(1) by (simp add: send_read_resp_def with_ddp_def)

lemma read_resp_wr_fields [simp]:
  "swr_sg_list (read_resp_wr w f) = recv_sg w" "swr_num_sge (read_resp_wr w f) = 1"
  "swr_opcode (read_resp_wr w f) = RDMAP_RDMA_READ_RESP"
  "swr_remote_addr (read_resp_wr w f) = rr_sink_TO f" "swr_rkey (read_resp_wr w f) = rr_sink_tag f"
  by (simp_all add: read_resp_wr_def)

lemma sg_array_1: "sg_array w a 1 = [rd_sges w a]"
  by (simp add: sg_array_def)

text \<open>The requester stores a read response and releases the completion that waited for it.\<close>

lemma requester_recv:
  assumes "recv_thread w = Running" and "rd_connected w" and "rd_ddp w = Some c"
    and "rx (ddp_sockfd c) = RxData (seg_stream (tagged_segs True rv (htonl tg) to pls) @ d) # es"
    and "pls \<noteq> []" and "\<forall>pl \<in> set pls. pl \<noteq> [] \<and> length pl \<le> 65014"
    and "tagged_buffers c tg = Some b" and "tb_data b \<le> to" and "to \<le> tb_data b + tb_len b"
    and "get_rdmap_op rv = opcode_val RDMAP_RDMA_READ_RESP"
    and "try_dequeue (cq_pending_q (rd_send_cq w)) = (Some wce, pq)"
  shows "\<exists>w'. rnic_recv w = Some w' \<and> recv_thread w' = Running
    \<and> rd_mem w' = mem_write (rd_mem w) to (concat pls)
    \<and> cq_q (rd_send_cq w') = snd (enqueue (recv_tid w) (wce\<lparr>wc_byte_len := 0\<rparr>) (cq_q (rd_send_cq w)))
    \<and> cq_pending_q (rd_send_cq w') = pq"
proof -
  obtain msg c' where "rnic_recv w = rnic_recv_dispatch 0
      (w\<lparr>rd_ddp := Some c', recv_msg := msg, rd_mem := mem_write (rd_mem w) to (concat pls)\<rparr>)"
    "hd (msg_meta msg) = rv" "ddp_is_tagged (msg_bits msg)"
    using rnic_recv_tagged [OF assms(1-9)] by metis
  then show ?thesis
    using assms(1,10,11)
    by (simp add: rnic_recv_dispatch_def handle_read_resp_def recv_is_tagged_def cq_push_def Let_def)
qed

text \<open>The two turns of the responder: what it answers, and what changes at its side.\<close>

lemma responder_turns:
  assumes "send_thread b = Running" and "recv_thread b = Running" and "rd_connected b" and "rnic_ok b"
    and "rd_ddp b = Some c" and "tx_plan (ddp_sockfd c) = []" and "tx (ddp_sockfd c) = []"
    and "rx (ddp_sockfd c) = [RxData (read_req_stream req a)]" and "rd_sges a (swr_sg_list req) = g"
    and "0 < unat (sge_length g)" and "unat (sge_length g) < 2 ^ 31"
    and "msn_read a \<noteq> 0" and "swr_opcode req = RDMAP_RDMA_READ_REQ"
    and "try_dequeue (utq_q (ddp_queues c ! 1)) = (Some buf, bq)"
    and "queue_items (rd_sq b) = []" and "queue_room 0 (rd_sq b)"
  obtains b1 rv where "rnic_recv b = Some b1"
    and "rd_mem b1 = mem_write (rd_mem b) (ub_data buf) (enc_read_req (read_req_of req g))"
    and "rd_send_cq (rnic_send b1) = rd_send_cq b"
    and "sent (rnic_send b1) = seg_stream (tagged_segs True rv (htonl (sge_lkey g)) (sge_addr g)
      (payloads (rd_mem b1) [\<lparr>sge_addr = swr_remote_addr req, sge_length = sge_length g, sge_lkey = swr_rkey req\<rparr>]))"
    and "get_rdmap_op rv = opcode_val RDMAP_RDMA_READ_RESP"
proof -
  let ?f = "read_req_of req g"
  let ?g = "\<lparr>sge_addr = swr_remote_addr req, sge_length = sge_length g, sge_lkey = swr_rkey req\<rparr>"
  have rx: "rx (ddp_sockfd c) = RxData (seg_stream (untagged_segs True \<lparr>um_rsvdULP1 = rdma_hdr req,
       um_rsvdULP2 = send_junk a, um_qn = htonl 1, um_msn = htonl (msn_read a), um_mo = 0\<rparr> [enc_read_req ?f]) @ []) # []"
    using assms(8,9) by (simp add: read_req_stream_def)
  obtain b1 q c' where b1: "rnic_recv b = Some b1" "send_thread b1 = send_thread b" "rd_connected b1"
    "try_dequeue (rd_sq b1) = (Some (read_resp_wr b ?f), q)"
    "rd_sges b1 = (rd_sges b)(recv_sg b := \<lparr>sge_addr = rr_src_TO ?f, sge_length = rr_rdma_rd_sz ?f, sge_lkey = rr_src_tag ?f\<rparr>)"
    "rd_mem b1 = mem_write (rd_mem b) (ub_data buf) (enc_read_req ?f)"
    "rd_send_cq b1 = rd_send_cq b" "rd_ddp b1 = Some c'" "ddp_sockfd c' = (ddp_sockfd c)\<lparr>rx := [RxData []]\<rparr>"
    by (rule responder_recv [OF assms(2,3,5,4) rx assms(12-16)])
  have g: "sg_array (b1\<lparr>rd_sq := q\<rparr>) (recv_sg b) 1 = [?g]" "sges_ok [?g]"
    using b1(5) assms(10,11) by (simp_all add: sg_array_1 read_req_of_def sges_ok_def unat_gt_0)
  have "rnic_send b1 = (b1\<lparr>rd_sq := q, rd_ddp := Some (c'\<lparr>ddp_sockfd := (ddp_sockfd c')\<lparr>tx := seg_stream (tagged_segs True
     (rdma_hdr (read_resp_wr b ?f)) (htonl (sge_lkey g)) (sge_addr g) (payloads (rd_mem b1) [?g]))\<rparr>\<rparr>)\<rparr>)"
    using b1(8,9) assms(1,6,7) g
    by (simp add: rnic_send_takes [OF _ b1(3,4)] b1(2) rnic_send_dispatch_def send_read_resp_wire read_req_of_def)
  then show ?thesis
    using b1(1,6,7) by (intro that [of b1 "rdma_hdr (read_resp_wr b ?f)"]) (simp_all add: sent_def get_rdmap_op_hdr)
qed

lemma read_turns:
  assumes "send_thread a = Running" and "recv_thread a = Running" and "rd_connected a" and "rnic_ok a"
    and "try_dequeue (rd_sq a) = (Some req, q)" and "swr_opcode req = RDMAP_RDMA_READ_REQ" and "swr_num_sge req = 1"
    and "rd_sges a (swr_sg_list req) = g" and "0 < unat (sge_length g)" and "unat (sge_length g) < 2 ^ 31"
    and "msn_read a \<noteq> 0" and "rd_ddp a = Some ca" and "tx_plan (ddp_sockfd ca) = []" and "tx (ddp_sockfd ca) = []"
    and "tagged_buffers ca (sge_lkey g) = Some sink"
    and "tb_data sink \<le> sge_addr g" and "sge_addr g \<le> tb_data sink + tb_len sink"
    and "queue_items (cq_pending_q (rd_send_cq a)) = []" and "queue_room 0 (cq_pending_q (rd_send_cq a))"
    and "send_thread b = Running" and "recv_thread b = Running" and "rd_connected b" and "rnic_ok b"
    and "rd_ddp b = Some cb" and "tx_plan (ddp_sockfd cb) = []" and "tx (ddp_sockfd cb) = []"
    and "try_dequeue (utq_q (ddp_queues cb ! 1)) = (Some buf, bq)"
    and "queue_items (rd_sq b) = []" and "queue_room 0 (rd_sq b)"
  shows "\<exists>b1 a2 wce. cq_q (rd_send_cq (rnic_send a)) = cq_q (rd_send_cq a)
    \<and> rnic_recv (feed (sent (rnic_send a)) b) = Some b1
    \<and> rd_mem b1 = mem_write (rd_mem b) (ub_data buf) (enc_read_req (read_req_of req g))
    \<and> rd_send_cq (rnic_send b1) = rd_send_cq b
    \<and> rnic_recv (feed (sent (rnic_send b1)) (rnic_send a)) = Some a2
    \<and> rd_mem a2 = mem_write (rd_mem (rnic_send a)) (sge_addr g)
        (mem_read (rd_mem b1) (swr_remote_addr req) (unat (sge_length g)))
    \<and> cq_q (rd_send_cq a2) = snd (enqueue (recv_tid a) wce (cq_q (rd_send_cq a)))
    \<and> queue_items (cq_pending_q (rd_send_cq a2)) = []
    \<and> wc_wr_id wce = swr_id req \<and> wc_status wce = WC_SUCCESS \<and> wc_opcode wce = wc_opcode_val WC_READ_REQUEST"
proof -
  let ?f = "read_req_of req g" and ?a1 = "rnic_send a" and ?a' = "a\<lparr>rd_sq := q\<rparr>"
  let ?src = "\<lparr>sge_addr = swr_remote_addr req, sge_length = sge_length g, sge_lkey = swr_rkey req\<rparr>"
  have ddp': "rd_ddp ?a' = Some ca" using assms(12) by simp
  obtain wce where snd_a: "?a1 = pending_push (send_tid a) wce (?a'\<lparr>msn_read := msn_read a + 1,
      rd_mem := mem_write (rd_mem a) (send_fields a) (enc_read_req ?f),
      rd_ddp := Some (ca\<lparr>ddp_sockfd := (ddp_sockfd ca)\<lparr>tx := read_req_stream req ?a'\<rparr>\<rparr>), send_wce := wce\<rparr>)"
    and wce: "wc_wr_id wce = swr_id req" "wc_status wce = WC_SUCCESS" "wc_opcode wce = wc_opcode_val WC_READ_REQUEST"
    by (rule send_read_req_wire [OF ddp' assms(13,14,7)])
      (simp add: rnic_send_takes [OF assms(1,3,5)] rnic_send_dispatch_def assms(6,8))
  obtain pq ok where pq: "enqueue (send_tid a) wce (cq_pending_q (rd_send_cq a)) = (ok, pq)" by fastforce
  obtain pq2 where pq2: "try_dequeue pq = (Some wce, pq2)" "queue_items pq2 = []"
    by (rule single_item [OF rnic_ok_D(4) [OF assms(4)] assms(18,19) pq])
  have sent: "sent ?a1 = read_req_stream req ?a'" by (simp add: snd_a pending_push_def sent_def)
  let ?cb = "cb\<lparr>ddp_sockfd := (ddp_sockfd cb)\<lparr>rx := [RxData (sent ?a1)]\<rparr>\<rparr>"
  have fb: "feed (sent ?a1) b = b\<lparr>rd_ddp := Some ?cb\<rparr>" using assms(24) by (simp add: feed_def)
  have okb: "rnic_ok (b\<lparr>rd_ddp := Some ?cb\<rparr>)"
    using assms(23,24) rnic_ok_D(5) by (intro rnic_ok_update) auto
  obtain b1 rv where b1: "rnic_recv (feed (sent ?a1) b) = Some b1"
    "rd_mem b1 = mem_write (rd_mem b) (ub_data buf) (enc_read_req ?f)" "rd_send_cq (rnic_send b1) = rd_send_cq b"
    "sent (rnic_send b1) = seg_stream (tagged_segs True rv (htonl (sge_lkey g)) (sge_addr g) (payloads (rd_mem b1) [?src]))"
    "get_rdmap_op rv = opcode_val RDMAP_RDMA_READ_RESP"
    using responder_turns [OF _ _ _ okb, of ?cb req ?a' g buf bq thesis] assms(6,8-11,20-22,25-29)
    by (simp add: fb [unfolded sent] sent)
  have src: "sges_ok [?src]" "concat (payloads (rd_mem b1) [?src]) = mem_read (rd_mem b1) (swr_remote_addr req) (unat (sge_length g))"
    using assms(9,10) by (simp_all add: sges_ok_def unat_gt_0 concat_payloads gather_def sge_bytes_def)
  let ?a2 = "feed (sent (rnic_send b1)) ?a1"
  have "\<exists>a2. rnic_recv ?a2 = Some a2 \<and> recv_thread a2 = Running
    \<and> rd_mem a2 = mem_write (rd_mem ?a2) (sge_addr g) (concat (payloads (rd_mem b1) [?src]))
    \<and> cq_q (rd_send_cq a2) = snd (enqueue (recv_tid ?a2) (wce\<lparr>wc_byte_len := 0\<rparr>) (cq_q (rd_send_cq ?a2)))
    \<and> cq_pending_q (rd_send_cq a2) = pq2"
    by (rule requester_recv [OF _ _ _ _ payloads_nonempty [OF src(1)] payloads_sizes _ assms(16,17) b1(5), where c = "the (rd_ddp ?a2)" and d = "[]" and es = "[]"])
      (use assms(2,3,15) pq pq2(1) in \<open>simp_all add: snd_a pending_push_def feed_def b1(4)\<close>)
  then show ?thesis
    using b1(1-3) wce pq2(2) src(2)
    by (auto simp: feed_def snd_a pending_push_def intro!: exI [of _ "wce\<lparr>wc_byte_len := 0\<rparr>"])
qed

text \<open>
  C2. RDMA read, end to end.  A read of any size the requester can describe takes one turn of
  each of four threads: the requester sends the request and keeps a completion pending; the
  responder's receive thread queues a response without telling its application; its send thread
  sends the bytes its memory holds at the remote address; and the requester's receive thread
  stores exactly these bytes at the sink and moves the pending completion, with the id of the
  request, to the completion queue.
\<close>

theorem rdma_read_end_to_end:
  assumes "send_thread a = Running" and "recv_thread a = Running" and "rd_connected a" and "rnic_ok a"
    and "try_dequeue (rd_sq a) = (Some req, q)" and "swr_opcode req = RDMAP_RDMA_READ_REQ" and "swr_num_sge req = 1"
    and "rd_sges a (swr_sg_list req) = g" and "0 < unat (sge_length g)" and "unat (sge_length g) < 2 ^ 31"
    and "msn_read a \<noteq> 0" and "rd_ddp a = Some ca" and "tx_plan (ddp_sockfd ca) = []" and "tx (ddp_sockfd ca) = []"
    and "tagged_buffers ca (sge_lkey g) = Some sink"
    and "tb_data sink \<le> sge_addr g" and "sge_addr g \<le> tb_data sink + tb_len sink"
    and "queue_items (cq_pending_q (rd_send_cq a)) = []" and "queue_room 0 (cq_pending_q (rd_send_cq a))"
    and "send_thread b = Running" and "recv_thread b = Running" and "rd_connected b" and "rnic_ok b"
    and "rd_ddp b = Some cb" and "tx_plan (ddp_sockfd cb) = []" and "tx (ddp_sockfd cb) = []"
    and "try_dequeue (utq_q (ddp_queues cb ! 1)) = (Some buf, bq)"
    and "queue_items (rd_sq b) = []" and "queue_room 0 (rd_sq b)"
  shows "\<exists>b1 a2 wce. cq_q (rd_send_cq (rnic_send a)) = cq_q (rd_send_cq a)
    \<and> rnic_recv (feed (sent (rnic_send a)) b) = Some b1
    \<and> rd_mem b1 = mem_write (rd_mem b) (ub_data buf) (enc_read_req (read_req_of req g))
    \<and> rd_send_cq (rnic_send b1) = rd_send_cq b
    \<and> rnic_recv (feed (sent (rnic_send b1)) (rnic_send a)) = Some a2
    \<and> rd_mem a2 = mem_write (rd_mem (rnic_send a)) (sge_addr g)
        (mem_read (rd_mem b1) (swr_remote_addr req) (unat (sge_length g)))
    \<and> cq_q (rd_send_cq a2) = snd (enqueue (recv_tid a) wce (cq_q (rd_send_cq a)))
    \<and> queue_items (cq_pending_q (rd_send_cq a2)) = []
    \<and> wc_wr_id wce = swr_id req \<and> wc_status wce = WC_SUCCESS \<and> wc_opcode wce = wc_opcode_val WC_READ_REQUEST"
  by (rule read_turns [OF assms])

theorem rdma_read_end_to_end_witness:
  "\<exists>b1 a2 wce. rnic_recv (feed (sent (rnic_send (demo_node [demo_req RDMAP_RDMA_READ_REQ] []))) (demo_node [] [])) = Some b1
    \<and> rnic_recv (feed (sent (rnic_send b1)) (rnic_send (demo_node [demo_req RDMAP_RDMA_READ_REQ] []))) = Some a2
    \<and> cq_q (rd_send_cq a2) = snd (enqueue 2 wce new_queue) \<and> wc_wr_id wce = 42"
proof -
  let ?a = "demo_node [demo_req RDMAP_RDMA_READ_REQ] []" and ?b = "demo_node [] []"
  let ?t = "\<lparr>tb_stag = \<lparr>stag_tag = 100, stag_pd = \<lparr>pd_id = 0\<rparr>\<rparr>, tb_data = 100, tb_len = 8, tb_access_ctrl = 0\<rparr>"
  obtain ca where ca: "rd_ddp ?a = Some ca" "tx_plan (ddp_sockfd ca) = []" "tx (ddp_sockfd ca) = []"
    "tagged_buffers ca = [100 \<mapsto> ?t]"
    by (rule demo_node_ddp)
  obtain cb where cb: "rd_ddp ?b = Some cb" "tx_plan (ddp_sockfd cb) = []" "tx (ddp_sockfd cb) = []"
    "ddp_queues cb = replicate 3 \<lparr>utq_q = filled 1 [demo_buf], utq_msn = 1\<rparr>"
    by (rule demo_node_ddp)
  obtain q where q: "try_dequeue (rd_sq ?a) = (Some (demo_req RDMAP_RDMA_READ_REQ), q)" by (rule demo_node_takes)
  obtain bq where "try_dequeue (filled 1 [demo_buf]) = (Some demo_buf, bq)"
    using filled_try_dequeue [of "[]" 1 demo_buf] by auto
  then have bq: "try_dequeue (utq_q (ddp_queues cb ! 1)) = (Some demo_buf, bq)" by (simp add: cb(4))
  show ?thesis
    using rdma_read_end_to_end [OF _ _ _ demo_node_ok q _ _ refl _ _ _ ca(1-3) _ _ _ _ _ _ _ _ demo_node_ok cb(1-3) bq, of ?t] ca(4)
    by (simp add: create_cq_def queue_items_new) blast
qed

section \<open>Overlapping reads\<close>

lemma handle_read_req_fields:
  assumes "handle_read_req w = Some w1" and "\<not> recv_is_tagged w"
    and "f = dec_read_req (mem_read (rd_mem w) (untag_buf_data (msg_buf (recv_msg w))) sizeof_read_req)"
  shows "rd_sq w1 = snd (enqueue (recv_tid w) (read_resp_wr w f) (rd_sq w))" and "rd_mem w1 = rd_mem w"
    and "recv_sg w1 = recv_sg w"
    and "rd_sges w1 (recv_sg w) = \<lparr>sge_addr = rr_src_TO f, sge_length = rr_rdma_rd_sz f, sge_lkey = rr_src_tag f\<rparr>"
    and "map_option ddp_sockfd (rd_ddp w1) = map_option ddp_sockfd (rd_ddp w)"
  using assms by (auto simp: handle_read_req_def Let_def on_ddp_def option.map_comp comp_def
      split: prod.splits bool.splits)

text \<open>
  C36. Overlapping reads share one element.  When the receive thread accepts a second read
  request before the send thread has answered the first, the answer to the first is addressed to
  the first sink but carries the bytes of the second source.
\<close>

theorem overlapping_reads_alias:
  assumes "handle_read_req w = Some w1" and "\<not> recv_is_tagged w"
    and "handle_read_req (w1\<lparr>recv_msg := msg\<rparr>) = Some w2" and "\<not> ddp_is_tagged (msg_bits msg)"
    and "f1 = dec_read_req (mem_read (rd_mem w) (untag_buf_data (msg_buf (recv_msg w))) sizeof_read_req)"
    and "f2 = dec_read_req (mem_read (rd_mem w) (untag_buf_data (msg_buf msg)) sizeof_read_req)"
    and "0 < unat (rr_rdma_rd_sz f2)" and "unat (rr_rdma_rd_sz f2) < 2 ^ 31"
    and "rd_ddp w2 = Some c" and "tx_plan (ddp_sockfd c) = []" and "tx (ddp_sockfd c) = []"
  shows "sent (send_read_resp (read_resp_wr w f1) w2) =
    seg_stream (tagged_segs True (rdma_hdr (read_resp_wr w f1)) (htonl (rr_sink_tag f1)) (rr_sink_TO f1)
      (payloads (rd_mem w) [\<lparr>sge_addr = rr_src_TO f2, sge_length = rr_rdma_rd_sz f2, sge_lkey = rr_src_tag f2\<rparr>]))"
proof -
  note w1 = handle_read_req_fields [OF assms(1,2) refl]
  have "\<not> recv_is_tagged (w1\<lparr>recv_msg := msg\<rparr>)" using assms(4) by (simp add: recv_is_tagged_def)
  from handle_read_req_fields [OF assms(3) this refl] w1(2,3) assms(6) have w2: "rd_mem w2 = rd_mem w"
    "rd_sges w2 (recv_sg w) = \<lparr>sge_addr = rr_src_TO f2, sge_length = rr_rdma_rd_sz f2, sge_lkey = rr_src_tag f2\<rparr>"
    by simp_all
  then have "sges_ok (sg_array w2 (recv_sg w) 1)"
    using assms(7,8) by (simp add: sg_array_1 sges_ok_def unat_gt_0)
  then show ?thesis
    using send_read_resp_wire [OF assms(9-11), of "read_resp_wr w f1"] w2 by (simp add: sg_array_1 sent_def)
qed

lemma handle_read_req_accepts:
  assumes "\<not> recv_is_tagged w" and "rnic_ok w" and "queue_room 0 (rd_sq w)"
  obtains w1 where "handle_read_req w = Some w1" "rnic_ok w1"
proof -
  have "\<exists>q. enqueue (recv_tid w) (read_resp_wr w f) (rd_sq w) = (True, q)" for f
    using enqueue_appends [OF rnic_ok_D(1) [OF assms(2)] assms(3)] by blast
  then have "\<exists>w1. handle_read_req w = Some w1"
    using assms(1) by (auto simp: handle_read_req_def Let_def split: prod.splits bool.splits) (metis Pair_inject)+
  then show ?thesis using that handle_read_req_ok [OF assms(2)] by blast
qed

text \<open>A second request whose source is the three bytes at 32, in a buffer at 600.\<close>

definition demo_alias :: rnic where
  "demo_alias = (demo_node [] [])\<lparr>recv_msg := demo_msg, rd_mem := mem_write demo_mem 600
     (enc_read_req \<lparr>rr_sink_tag = 100, rr_sink_TO = 104, rr_rdma_rd_sz = 3, rr_src_tag = 100, rr_src_TO = 32\<rparr>)\<rparr>"

theorem overlapping_reads_alias_witness:
  "\<exists>w1 w2 f1 rv tg to. handle_read_req demo_alias = Some w1
     \<and> handle_read_req (w1\<lparr>recv_msg := demo_msg\<lparr>msg_buf := UntagBuf \<lparr>ub_data = 600, ub_len = 28, ub_next = 0\<rparr>\<rparr>\<rparr>) = Some w2
     \<and> sent (send_read_resp (read_resp_wr demo_alias f1) w2) = seg_stream (tagged_segs True rv tg to
         (payloads (rd_mem demo_alias) [\<lparr>sge_addr = 32, sge_length = 3, sge_lkey = 100\<rparr>]))"
proof -
  let ?f2 = "\<lparr>rr_sink_tag = 100, rr_sink_TO = 104, rr_rdma_rd_sz = 3, rr_src_tag = 100, rr_src_TO = 32\<rparr>"
  let ?msg = "demo_msg\<lparr>msg_buf := UntagBuf \<lparr>ub_data = 600, ub_len = 28, ub_next = 0\<rparr>\<rparr>"
  have nt: "\<not> ddp_is_tagged (msg_bits demo_msg)" by (simp add: demo_msg_def ddp_is_tagged_def)
  then have w: "\<not> recv_is_tagged demo_alias" "rnic_ok demo_alias" "queue_room 0 (rd_sq demo_alias)"
    using demo_node_ok [of "[]" "[]"] by (simp_all add: recv_is_tagged_def demo_alias_def)
  obtain w1 where w1: "handle_read_req demo_alias = Some w1" "rnic_ok w1"
    by (rule handle_read_req_accepts [OF w])
  obtain c where c: "rd_ddp demo_alias = Some c" "tx (ddp_sockfd c) = []" "tx_plan (ddp_sockfd c) = []"
    using demo_node_ddp [of "[]" "[]"] by (auto simp: demo_alias_def)
  note w1f = handle_read_req_fields [OF w1(1) w(1) refl]
  have "\<exists>x. rd_sq w1 = filled 2 [x]" using w1f(1) by (auto simp: demo_alias_def filled_def)
  then have w1': "\<not> recv_is_tagged (w1\<lparr>recv_msg := ?msg\<rparr>)" "rnic_ok (w1\<lparr>recv_msg := ?msg\<rparr>)"
    "queue_room 0 (rd_sq (w1\<lparr>recv_msg := ?msg\<rparr>))"
    using nt w1(2) by (auto simp: recv_is_tagged_def filled_room)
  obtain w2 where w2: "handle_read_req (w1\<lparr>recv_msg := ?msg\<rparr>) = Some w2" by (rule handle_read_req_accepts [OF w1'])
  note w2f = handle_read_req_fields [OF w2 w1'(1) refl]
  obtain c2 where c2: "rd_ddp w2 = Some c2" "ddp_sockfd c2 = ddp_sockfd c" using w2f(5) w1f(5) c(1) by auto
  have "?f2 = dec_read_req (mem_read (rd_mem demo_alias) (untag_buf_data (msg_buf ?msg)) sizeof_read_req)"
    using mem_read_write_same [of "enc_read_req ?f2" demo_mem 600] by (simp add: demo_alias_def sizeof_read_req_def)
  from overlapping_reads_alias [OF w1(1) w(1) w2 _ refl this _ _ c2(1)] nt w1(1) w2 c2(2) c(2,3) show ?thesis
    by auto
qed


section \<open>Send with invalidate\<close>

lemma rdma_hdr_inval:
  "swr_opcode req = RDMAP_SEND_INVAL \<Longrightarrow> rdma_hdr req = 0x44"
  "swr_opcode req = RDMAP_SEND_SE_INVAL \<Longrightarrow> rdma_hdr req = 0x46"
  by (simp_all add: rdma_hdr_def)

text \<open>
  C37. Send with invalidate invalidates the wrong tag.  The receiver takes the tag from the
  RDMAP control byte, not from the field that carries it.  Unless a buffer happens to be
  registered under that byte, the receive thread ends with an error, whatever tag the request
  named, with the buffer still registered and no completion reported.
\<close>

theorem send_inval_wrong_tag:
  assumes "swr_opcode req \<in> {RDMAP_SEND_INVAL, RDMAP_SEND_SE_INVAL}"
    and "recv_thread b = Running" and "rd_connected b" and "rd_ddp b = Some cb" and "ddp_ok cb"
    and "rx (ddp_sockfd cb) = RxData (seg_stream (untagged_segs True \<lparr>um_rsvdULP1 = rdma_hdr req,
          um_rsvdULP2 = htonl (swr_invalidate_rkey req), um_qn = htonl 0, um_msn = htonl n, um_mo = 0\<rparr> [pl]) @ d) # es"
    and "pl \<noteq> []" and "length pl \<le> 65014" and "n \<noteq> 0"
    and "try_dequeue (utq_q (ddp_queues cb ! 0)) = (Some buf, bq)"
    and "tagged_buffers cb 0x44 = None" and "tagged_buffers cb 0x46 = None"
  shows "\<exists>b' cb'. rnic_recv b = Some b' \<and> recv_thread b' = Returned (-1) \<and> rd_ddp b' = Some cb'
    \<and> tagged_buffers cb' = tagged_buffers cb \<and> rd_send_cq b' = rd_send_cq b \<and> rd_rq b' = rd_rq b"
proof -
  have q0: "unat (0 :: u32) < 3" "try_dequeue (utq_q (ddp_queues cb ! unat (0 :: u32))) = (Some buf, bq)"
    using assms(10) by simp_all
  obtain msg c' m where r: "rnic_recv b = rnic_recv_dispatch 0 (b\<lparr>rd_ddp := Some c', recv_msg := msg, rd_mem := m\<rparr>)"
    "hd (msg_meta msg) = rdma_hdr req" "tagged_buffers c' = tagged_buffers cb"
    by (rule rnic_recv_untagged [OF assms(2-4,6-8,5) q0(1) assms(9) q0(2)]) (rule that, assumption+, simp)
  have "rnic_recv b = Some (handle_send_inval (opcode_val (swr_opcode req)) 0
      (b\<lparr>rd_ddp := Some c', recv_msg := msg, rd_mem := m\<rparr>))"
    using r assms(1) by (auto simp: rnic_recv_dispatch_def get_rdmap_op_hdr)
  moreover have "tagged_buffers c' (ucast (rdma_hdr req)) = None"
    using assms(1,11,12) r(3) rdma_hdr_inval [of req] by auto
  ultimately show ?thesis
    using r(2,3) by (simp add: handle_send_inval_def rdma_invalidate_def deregister_tagged_buffer_def) (metis fun_upd_triv)
qed

theorem send_inval_wrong_tag_witness:
  "\<exists>bs b'. rnic_recv (demo_node [] bs) = Some b' \<and> recv_thread b' = Returned (-1)"
proof -
  let ?req = "demo_req RDMAP_SEND_INVAL"
  let ?bs = "seg_stream (untagged_segs True \<lparr>um_rsvdULP1 = rdma_hdr ?req,
          um_rsvdULP2 = htonl (swr_invalidate_rkey ?req), um_qn = htonl 0, um_msn = htonl 1, um_mo = 0\<rparr> [[1, 2]])"
  obtain cb where cb: "rd_ddp (demo_node [] ?bs) = Some cb" "ddp_ok cb" "rx (ddp_sockfd cb) = [RxData ?bs]"
    "ddp_queues cb = replicate 3 \<lparr>utq_q = filled 1 [demo_buf], utq_msn = 1\<rparr>"
    "tagged_buffers cb = [100 \<mapsto> \<lparr>tb_stag = \<lparr>stag_tag = 100, stag_pd = \<lparr>pd_id = 0\<rparr>\<rparr>, tb_data = 100, tb_len = 8, tb_access_ctrl = 0\<rparr>]"
    by (rule demo_node_ddp)
  obtain bq where bq: "try_dequeue (filled 1 [demo_buf]) = (Some demo_buf, bq)"
    using filled_try_dequeue [of "[]" 1 demo_buf] by auto
  show ?thesis
    using send_inval_wrong_tag [OF _ _ _ cb(1,2), of ?req 1 "[1, 2]" "[]" "[]" demo_buf bq] cb(3-5) bq
    by (intro exI [of _ ?bs]) (auto simp del: untagged_segs.simps)
qed

section \<open>Messages of the wrong kind\<close>

text \<open>
  An untagged message with the opcode of a write or of a read response fails an assertion at the
  receiver.
\<close>

lemma untagged_write_aborts:
  assumes "recv_thread b = Running" and "rd_connected b" and "rd_ddp b = Some cb" and "ddp_ok cb"
    and "rx (ddp_sockfd cb) = RxData (seg_stream (untagged_segs True \<lparr>um_rsvdULP1 = rv, um_rsvdULP2 = r2,
          um_qn = htonl qn, um_msn = htonl n, um_mo = 0\<rparr> [pl]) @ d) # es"
    and "pl \<noteq> []" and "length pl \<le> 65014" and "n \<noteq> 0" and "unat qn < 3"
    and "get_rdmap_op rv \<in> {opcode_val RDMAP_RDMA_WRITE, opcode_val RDMAP_RDMA_READ_RESP}"
    and "try_dequeue (utq_q (ddp_queues cb ! unat qn)) = (Some buf, bq)"
  shows "\<exists>b'. rnic_recv b = Some b' \<and> recv_thread b' = AssertFailed"
proof -
  obtain msg c' m where "rnic_recv b = rnic_recv_dispatch 0 (b\<lparr>rd_ddp := Some c', recv_msg := msg, rd_mem := m\<rparr>)"
    "hd (msg_meta msg) = rv" "\<not> ddp_is_tagged (msg_bits msg)"
    by (rule rnic_recv_untagged [OF assms(1-3,5-7,4,9,8,11)]) (rule that)
  then show ?thesis
    using assms(10) by (auto simp: rnic_recv_dispatch_def handle_rdma_write_def handle_read_resp_def recv_is_tagged_def)
qed

section \<open>Completions of the send thread\<close>

text \<open>Which requests are reported, at once or when the response arrives.\<close>

definition reports_now :: "send_wr \<Rightarrow> bool" where
  "reports_now req \<longleftrightarrow> swr_opcode req \<in>
     {RDMAP_SEND, RDMAP_SEND_SE, RDMAP_SEND_INVAL, RDMAP_SEND_SE_INVAL, RDMAP_RDMA_WRITE}"

definition reports_read :: "send_wr \<Rightarrow> bool" where
  "reports_read req \<longleftrightarrow> swr_opcode req = RDMAP_RDMA_READ_REQ \<and> swr_num_sge req = 1"

definition cq_multiset :: "rnic \<Rightarrow> work_completion multiset" where
  "cq_multiset w = mset (queue_items (cq_q (rd_send_cq w))) + mset (queue_items (cq_pending_q (rd_send_cq w)))"

lemma cq_push_multiset:
  assumes "wf_queue (cq_q (rd_send_cq w))" and "queue_room 0 (cq_q (rd_send_cq w))"
  shows "cq_multiset (cq_push t wce w) = add_mset wce (cq_multiset w)"
  using enqueue_appends [OF assms, of t wce] by (auto simp: cq_push_def cq_multiset_def)

lemma pending_push_multiset:
  assumes "wf_queue (cq_pending_q (rd_send_cq w))" and "queue_room 0 (cq_pending_q (rd_send_cq w))"
  shows "cq_multiset (pending_push t wce w) = add_mset wce (cq_multiset w)"
  using enqueue_appends [OF assms, of t wce] by (auto simp: pending_push_def cq_multiset_def)

lemma cq_multiset_eq: "rd_send_cq w = rd_send_cq v \<Longrightarrow> cq_multiset w = cq_multiset v"
  by (simp add: cq_multiset_def)

lemma cq_multiset_sq [simp]: "cq_multiset (w\<lparr>rd_sq := q\<rparr>) = cq_multiset w"
  by (simp add: cq_multiset_def)

lemma complete_send_multiset:
  assumes "wf_queue (cq_q (rd_send_cq w))" and "queue_room 0 (cq_q (rd_send_cq w))"
  shows "\<exists>wce. cq_multiset (complete_send req ret w) = add_mset wce (cq_multiset w) \<and> wc_wr_id wce = swr_id req"
  using cq_push_multiset [of "w\<lparr>send_wce := send_completion req ret w\<rparr>" "send_tid w" "send_completion req ret w"] assms
  by (auto simp: complete_send_def Let_def send_completion_fields cq_multiset_eq [of "w\<lparr>send_wce := x\<rparr>" w for x])

lemma rnic_send_dispatch_multiset:
  assumes "rnic_ok w" and "rd_ddp w = Some c" and "queue_room 0 (cq_q (rd_send_cq w))"
    and "queue_room 0 (cq_pending_q (rd_send_cq w))"
  shows "if reports_now req \<or> reports_read req
    then \<exists>wce. cq_multiset (rnic_send_dispatch req w) = add_mset wce (cq_multiset w) \<and> wc_wr_id wce = swr_id req
    else rd_send_cq (rnic_send_dispatch req w) = rd_send_cq w"
proof -
  have now: "\<exists>wce. cq_multiset (complete_send req ret v) = add_mset wce (cq_multiset w) \<and> wc_wr_id wce = swr_id req"
    if "rd_send_cq v = rd_send_cq w" for ret v
    using complete_send_multiset [of v req ret] that rnic_ok_D(3) [OF assms(1)] assms(3) cq_multiset_eq [OF that] by simp
  have pend: "\<exists>wce. cq_multiset (pending_push t (send_completion req ret v) u) = add_mset wce (cq_multiset w)
      \<and> wc_wr_id wce = swr_id req"
    if "rd_send_cq u = rd_send_cq w" for t ret v u
    using pending_push_multiset [of u t "send_completion req ret v"] that rnic_ok_D(4) [OF assms(1)] assms(4)
      cq_multiset_eq [OF that] by (auto simp: send_completion_fields)
  show ?thesis
    using assms(2) now pend
    by (cases "swr_opcode req") (simp_all add: reports_now_def reports_read_def rnic_send_dispatch_def send_send_def
        send_send_inval_def send_write_def send_read_resp_def send_read_req_def with_ddp_def Let_def split: prod.splits)
qed

text \<open>
  C13. One completion per request.  A turn of the send thread that takes a request adds exactly
  one completion, with the id of the request, to the two completion queues together, whether the
  transmission succeeded or failed; except for read requests that do not have exactly one
  element, and for responses and opcodes it does not know, which are never reported.
\<close>

theorem send_turn_completions:
  assumes "send_thread w = Running" and "rd_connected w" and "try_dequeue (rd_sq w) = (Some req, q)"
    and "rnic_ok w" and "rd_ddp w = Some c" and "queue_room 0 (cq_q (rd_send_cq w))"
    and "queue_room 0 (cq_pending_q (rd_send_cq w))"
  shows "if reports_now req \<or> reports_read req
    then \<exists>wce. cq_multiset (rnic_send w) = add_mset wce (cq_multiset w) \<and> wc_wr_id wce = swr_id req
    else rd_send_cq (rnic_send w) = rd_send_cq w"
proof -
  have "wf_queue q" using try_dequeue_wf [OF rnic_ok_D(1) [OF assms(4)]] assms(3) by simp
  then have ok: "rnic_ok (w\<lparr>rd_sq := q\<rparr>)" by (rule rnic_ok_update(1) [OF assms(4)])
  show ?thesis
    using rnic_send_dispatch_multiset [OF ok, of c req] assms(5-7)
    by (cases "reports_now req \<or> reports_read req") (simp_all add: rnic_send_takes [OF assms(1-3)])
qed

theorem send_turn_completions_witness:
  "\<exists>wce. cq_multiset (rnic_send (demo_node [demo_req RDMAP_SEND] [])) = {#wce#} \<and> wc_wr_id wce = 42"
proof -
  let ?w = "demo_node [demo_req RDMAP_SEND] []"
  obtain c where c: "rd_ddp ?w = Some c" by (rule demo_node_ddp)
  obtain q where q: "try_dequeue (rd_sq ?w) = (Some (demo_req RDMAP_SEND), q)" by (rule demo_node_takes)
  have "cq_multiset ?w = {#}" by (simp add: cq_multiset_def create_cq_def queue_items_new)
  with send_turn_completions [OF _ _ q demo_node_ok c] show ?thesis
    by (simp add: reports_now_def create_cq_def)
qed

section \<open>Receive requests\<close>

text \<open>
  A request with \<open>n\<close> elements puts \<open>n\<close> buffers into queue 0, one for each element, but one request
  into the receive queue: every message takes one of each, so the two queues only stay in step
  for requests with one element.
\<close>

lemma post_recv_buffers:
  assumes "rnic_ok w" and "rd_ddp w = Some c" and "0 \<le> rwr_num_sge wr" and "rwr_num_sge wr < 2 ^ 31"
    and "queue_room (nat (rwr_num_sge wr)) (utq_q (ddp_queues c ! 0))" and "queue_room 0 (rd_rq w)"
  shows "\<exists>w' c'. rdma_post_recv w wr = (0, w') \<and> rnic_ok w' \<and> rd_ddp w' = Some c'
    \<and> mset (queue_items (rd_rq w')) = add_mset wr (mset (queue_items (rd_rq w)))
    \<and> mset (queue_items (utq_q (ddp_queues c' ! 0))) = mset (queue_items (utq_q (ddp_queues c ! 0)))
        + mset (map (\<lambda>g. \<lparr>ub_data = sge_addr g, ub_len = sge_length g, ub_next = 0\<rparr>) (sg_array w (rwr_sg_list wr) (rwr_num_sge wr)))
    \<and> length (sg_array w (rwr_sg_list wr) (rwr_num_sge wr)) = nat (rwr_num_sge wr)"
proof -
  let ?bufs = "map (\<lambda>g. \<lparr>ub_data = sge_addr g, ub_len = sge_length g, ub_next = 0\<rparr>) (sg_array w (rwr_sg_list wr) (rwr_num_sge wr))"
  have len: "length ?bufs = nat (rwr_num_sge wr)" "length ?bufs < 2 ^ 62"
    using assms(3,4) by (simp_all add: sg_array_def nat_less_iff)
  obtain q' where q': "ddp_post_recv (app_tid w) c SEND_QN ?bufs = c\<lparr>ddp_queues := (ddp_queues c)[0 := (ddp_queues c ! 0)\<lparr>utq_q := q'\<rparr>]\<rparr>"
    "mset (queue_items q') = mset (queue_items (utq_q (ddp_queues c ! 0))) + mset ?bufs"
    using ddp_post_recv_ok [OF rnic_ok_D(5) [OF assms(1,2)], of 0 ?bufs "app_tid w"] len assms(5) by (auto simp: SEND_QN_def)
  obtain rq where rq: "enqueue (app_tid w) wr (rd_rq w) = (True, rq)"
    "mset (queue_items rq) = add_mset wr (mset (queue_items (rd_rq w)))"
    using enqueue_appends [OF rnic_ok_D(2) [OF assms(1)] assms(6), of "app_tid w" wr] by auto
  have "0 < length (ddp_queues c)"
    using rnic_ok_D(5) [OF assms(1,2)] by (simp add: ddp_ok_def MAX_UNTAGGED_BUFFERS_def)
  then show ?thesis
    using rdma_post_recv_ok [OF assms(1,4)] q' rq assms(2) len(1) by (simp add: rdma_post_recv_def Let_def on_ddp_def)
qed

section \<open>The end of a stream\<close>

lemma rnic_recv_stopped: "recv_thread w \<noteq> Running \<Longrightarrow> rnic_recv w = Some w"
  by (simp add: rnic_recv_def)

lemma rnic_send_stopped: "send_thread w \<noteq> Running \<Longrightarrow> rnic_send w = w"
  by (simp add: rnic_send_def)

lemma rnic_recv_disconnected: "\<not> rd_connected w \<Longrightarrow>
    rnic_recv w = Some (if recv_thread w = Running then w\<lparr>recv_thread := Returned 0\<rparr> else w)"
  by (simp add: rnic_recv_def)

lemma rnic_send_disconnected: "\<not> rd_connected w \<Longrightarrow>
    rnic_send w = (if send_thread w = Running then w\<lparr>send_thread := Returned 0\<rparr> else w)"
  by (simp add: rnic_send_def)

text \<open>What a step of a disconnected stream can do to the flag and the threads.\<close>

lemma disconnected_step:
  assumes "rnic_step w w'" and "\<not> rd_connected w"
  shows "\<not> rd_connected w' \<and> recv_thread w' \<in> {recv_thread w, Returned 0} \<and> send_thread w' \<in> {send_thread w, Returned 0}
    \<and> (recv_thread w \<noteq> Running \<longrightarrow> recv_thread w' = recv_thread w)
    \<and> (send_thread w \<noteq> Running \<longrightarrow> send_thread w' = send_thread w)"
  using assms
  by (cases rule: rnic_step.cases)
    (auto simp: rnic_recv_disconnected rnic_send_disconnected rdmap_send_def rdma_post_recv_def rdma_register_def
      rdma_invalidate_def kill_free_def kill_disconnect_def on_ddp_def Let_def split: prod.splits option.splits if_splits)





end
