(* ===== verification/Perftest.thy ===== *)
theory Perftest
  imports Perf_Setup Rdmap_Protocol
begin

text \<open>
  \<open>perftest/\<close>: the benchmark driver and its four tests.  The application waits for completions
  and for bytes of its own memory by polling.  What the threads of the stream and the peer do
  between two polls is the argument \<open>env\<close>: its \<open>n\<close>-th transformation of the state is applied the
  \<open>n\<close>-th time the application lets the others run.  A wait that never ends has the value \<open>None\<close>,
  and so has a failed assertion.
\<close>

type_synonym env = "nat \<Rightarrow> rnic \<Rightarrow> rnic"

record perf =
  pf_n :: nat
  pf_w :: rnic
  pf_sync :: sock
  pf_wr :: send_wr
  pf_wr_end :: send_wr

text \<open>Where the local and the global variables of the driver and of a test are.\<close>

record perf_addrs =
  fr_send_sg :: addr
  fr_recv_sg :: addr
  fr_my_sd :: addr
  fr_their_sd :: addr
  fr_total :: addr
  gl_sg :: addr
  gl_sg_end :: addr
  gl_byte_end :: addr

definition others :: "env \<Rightarrow> perf \<Rightarrow> perf" where
  "others env s = s\<lparr>pf_n := Suc (pf_n s), pf_w := env (pf_n s) (pf_w s)\<rparr>"

definition set_cq :: "work_completion ConcurrentQueue \<Rightarrow> perf \<Rightarrow> perf" where
  "set_cq q s = s\<lparr>pf_w := (pf_w s)\<lparr>rd_send_cq := (rd_send_cq (pf_w s))\<lparr>cq_q := q\<rparr>\<rparr>\<rparr>"

section \<open>Waiting\<close>

text \<open>The driver gives both work queues the same completion queue, so every wait polls that one.\<close>

partial_function (option) spin :: "env \<Rightarrow> perf \<Rightarrow> (work_completion \<times> perf) option" where
  "spin env s =
     (case try_dequeue (cq_q (rd_send_cq (pf_w s))) of
        (wco, q) \<Rightarrow> (case wco of
          Some wc \<Rightarrow> Some (wc, set_cq q s)
        | None \<Rightarrow> spin env (others env (set_cq q s))))"

partial_function (option) wait_byte :: "env \<Rightarrow> addr \<Rightarrow> (u8 \<Rightarrow> bool) \<Rightarrow> perf \<Rightarrow> perf option" where
  "wait_byte env a busy s =
     (if busy (rd_mem (pf_w s) a) then wait_byte env a busy (others env s) else Some s)"

section \<open>Messages of the driver\<close>

definition set_sge :: "addr \<Rightarrow> addr \<Rightarrow> nat \<Rightarrow> rnic \<Rightarrow> rnic" where
  "set_sge sg data len w =
     w\<lparr>rd_sges := (rd_sges w)(sg := (rd_sges w sg)\<lparr>sge_addr := data, sge_length := of_nat len\<rparr>)\<rparr>"

definition rdmap_send_data :: "env \<Rightarrow> addr \<Rightarrow> nat \<Rightarrow> send_wr \<Rightarrow> perf \<Rightarrow> (int \<times> perf) option" where
  "rdmap_send_data env data data_len wr s =
     (case rdmap_send (set_sge (swr_sg_list wr) data data_len (pf_w s)) wr of (ret, w) \<Rightarrow>
        Option.bind (spin env (s\<lparr>pf_w := w\<rparr>)) (\<lambda>(wc, s'). Some (ret, s')))"

definition rdmap_recv_issue :: "addr \<Rightarrow> nat \<Rightarrow> recv_wr \<Rightarrow> perf \<Rightarrow> int \<times> perf" where
  "rdmap_recv_issue buf buf_len wr s =
     (case rdma_post_recv (set_sge (rwr_sg_list wr) buf buf_len (pf_w s)) wr of (ret, w) \<Rightarrow> (ret, s\<lparr>pf_w := w\<rparr>))"

text \<open>The check on a completion, as every wait of the benchmarks makes it.\<close>

definition check_wc :: "wc_opcode \<Rightarrow> work_completion \<Rightarrow> int" where
  "check_wc opc wc =
     (if wc_status wc \<noteq> WC_SUCCESS then -1 else if wc_opcode wc \<noteq> wc_opcode_val opc then -1 else 0)"

definition rdmap_recv_ack :: "env \<Rightarrow> perf \<Rightarrow> (int \<times> perf) option" where
  "rdmap_recv_ack env s = Option.bind (spin env s) (\<lambda>(wc, s'). Some (check_wc WC_SEND wc, s'))"

text \<open>Send eight bytes, wait for eight bytes; the others run meanwhile and errors are ignored.\<close>

definition sync_with_remote :: "env \<Rightarrow> perf \<Rightarrow> perf" where
  "sync_with_remote env s =
     others env (s\<lparr>pf_sync := snd (snd (sock_recv False 8 (snd (sock_send (le_bytes 8 (0 :: u64)) (pf_sync s)))))\<rparr>)"

section \<open>The tests\<close>

definition fill_buf :: "perftest_context \<Rightarrow> mem \<Rightarrow> mem" where
  "fill_buf pc m = mem_write m (pc_buf pc) (map of_nat [0..<nat (pc_buf_size pc)])"

definition clear_buf :: "perftest_context \<Rightarrow> mem \<Rightarrow> mem" where
  "clear_buf pc m = mem_write m (pc_buf pc) (replicate (nat (pc_buf_size pc)) 0)"

text \<open>The work request the tests build for the whole buffer, and its element.\<close>

definition test_wr :: "perf_addrs \<Rightarrow> rdma_opcode \<Rightarrow> send_data \<Rightarrow> send_wr \<Rightarrow> send_wr" where
  "test_wr A opc sd wr = wr\<lparr>swr_id := 2, swr_sg_list := gl_sg A, swr_num_sge := 1, swr_opcode := opc,
     swr_rkey := ucast (sd_stag sd), swr_remote_addr := sd_offset sd\<rparr>"

definition test_sg :: "perf_addrs \<Rightarrow> perftest_context \<Rightarrow> u32 \<Rightarrow> rnic \<Rightarrow> rnic" where
  "test_sg A pc lstag w = w\<lparr>rd_sges := (rd_sges w)(gl_sg A :=
     \<lparr>sge_addr = pc_buf pc, sge_length = of_int (pc_buf_size pc), sge_lkey = lstag\<rparr>)\<rparr>"

definition on_mem :: "(mem \<Rightarrow> mem) \<Rightarrow> rnic \<Rightarrow> rnic" where
  "on_mem f w = w\<lparr>rd_mem := f (rd_mem w)\<rparr>"

definition read_lat_init :: "perf_addrs \<Rightarrow> perftest_context \<Rightarrow> u32 \<Rightarrow> send_data \<Rightarrow> perf \<Rightarrow> int \<times> perf" where
  "read_lat_init A pc lstag sd s =
     (let w = test_sg A pc lstag (pf_w s)
      in (0, s\<lparr>pf_wr := test_wr A RDMAP_RDMA_READ_REQ sd (pf_wr s),
               pf_w := if pc_is_client pc then on_mem (fill_buf pc) w else w\<rparr>))"

definition read_lat_iter :: "env \<Rightarrow> perftest_context \<Rightarrow> perf \<Rightarrow> (int \<times> perf) option" where
  "read_lat_iter env pc s =
     (if pc_is_client pc then Some (0, s)
      else Option.bind (rdmap_read (pf_w s) (pf_wr s)) (\<lambda>(ret, w).
        let s1 = s\<lparr>pf_w := w\<rparr>
        in if ret < 0 then Some (-1, s1)
           else Option.bind (spin env s1) (\<lambda>(wc, s2). Some (check_wc WC_READ_REQUEST wc, s2))))"

definition read_bw_init :: "perf_addrs \<Rightarrow> perftest_context \<Rightarrow> u32 \<Rightarrow> send_data \<Rightarrow> perf \<Rightarrow> int \<times> perf" where
  "read_bw_init A pc lstag sd s =
     (let w = test_sg A pc lstag (pf_w s)
      in (0, s\<lparr>pf_wr := test_wr A RDMAP_RDMA_READ_REQ sd (pf_wr s),
               pf_w := if pc_is_client pc then on_mem (fill_buf pc) w else w\<rparr>))"

fun issue_reads :: "nat \<Rightarrow> perf \<Rightarrow> (int \<times> perf) option" where
  "issue_reads 0 s = Some (0, s)"
| "issue_reads (Suc n) s =
     Option.bind (rdmap_read (pf_w s) (pf_wr s)) (\<lambda>(ret, w).
       let s1 = s\<lparr>pf_w := w, pf_wr := (pf_wr s)\<lparr>swr_id := swr_id (pf_wr s) + 1\<rparr>\<rparr>
       in if ret < 0 then Some (-1, s1) else issue_reads n s1)"

fun collect :: "env \<Rightarrow> wc_opcode \<Rightarrow> nat \<Rightarrow> perf \<Rightarrow> (int \<times> perf) option" where
  "collect env opc 0 s = Some (0, s)"
| "collect env opc (Suc n) s =
     Option.bind (spin env s) (\<lambda>(wc, s'). if check_wc opc wc < 0 then Some (-1, s') else collect env opc n s')"

definition read_bw_iter :: "env \<Rightarrow> perftest_context \<Rightarrow> perf \<Rightarrow> (int \<times> perf) option" where
  "read_bw_iter env pc s =
     (if pc_is_client pc then Some (0, s)
      else Option.bind (issue_reads (nat (pc_max_reqs pc)) s) (\<lambda>(ret, s1).
        if ret < 0 then Some (-1, s1) else collect env WC_READ_REQUEST (nat (pc_max_reqs pc)) s1))"

text \<open>The four bytes of \<open>byte_end\<close>, which the last write of an iteration carries.\<close>

definition byte_end :: u32 where "byte_end = 0xdeadbeef"

definition write_bw_init :: "perf_addrs \<Rightarrow> perftest_context \<Rightarrow> u32 \<Rightarrow> send_data \<Rightarrow> perf \<Rightarrow> int \<times> perf" where
  "write_bw_init A pc lstag sd s =
     (let w = test_sg A pc lstag (pf_w s);
          w1 = w\<lparr>rd_sges := (rd_sges w)(gl_sg_end A := \<lparr>sge_addr = gl_byte_end A, sge_length = 4, sge_lkey = 0\<rparr>)\<rparr>
      in (0, s\<lparr>pf_wr := test_wr A RDMAP_RDMA_WRITE sd (pf_wr s),
               pf_wr_end := (pf_wr_end s)\<lparr>swr_id := 0xffffffff, swr_sg_list := gl_sg_end A, swr_num_sge := 1,
                 swr_opcode := RDMAP_RDMA_WRITE, swr_rkey := ucast (sd_stag sd), swr_remote_addr := sd_offset sd\<rparr>,
               pf_w := on_mem (if pc_is_client pc then fill_buf pc else clear_buf pc) w1\<rparr>))"

fun issue_writes :: "nat \<Rightarrow> perf \<Rightarrow> (int \<times> perf) option" where
  "issue_writes 0 s = Some (0, s)"
| "issue_writes (Suc n) s =
     Option.bind (rdmap_write (pf_w s) (pf_wr s)) (\<lambda>(ret, w).
       if ret < 0 then Some (-1, s\<lparr>pf_w := w\<rparr>) else issue_writes n (s\<lparr>pf_w := w\<rparr>))"

definition write_bw_iter :: "env \<Rightarrow> perftest_context \<Rightarrow> perf \<Rightarrow> (int \<times> perf) option" where
  "write_bw_iter env pc s =
     (if \<not> pc_is_client pc then
        Option.bind (wait_byte env (pc_buf pc) (\<lambda>b. b = 0) s) (\<lambda>s1.
          Some (0, s1\<lparr>pf_w := on_mem (\<lambda>m. mem_write m (pc_buf pc) (le_bytes 4 (0 :: u32))) (pf_w s1)\<rparr>))
      else Option.bind (issue_writes (nat (pc_max_reqs pc)) s) (\<lambda>(ret, s1).
        if ret < 0 then Some (-1, s1)
        else Option.bind (collect env WC_WRITE (nat (pc_max_reqs pc)) s1) (\<lambda>(ret, s2).
          if ret < 0 then Some (-1, s2)
          else Option.bind (rdmap_write (pf_w s2) (pf_wr_end s2)) (\<lambda>(ret, w).
            Option.bind (spin env (s2\<lparr>pf_w := w\<rparr>)) (\<lambda>(wc, s3). Some (check_wc WC_WRITE wc, s3))))))"

definition write_lat_init :: "perf_addrs \<Rightarrow> perftest_context \<Rightarrow> u32 \<Rightarrow> send_data \<Rightarrow> perf \<Rightarrow> int \<times> perf" where
  "write_lat_init A pc lstag sd s =
     (0, s\<lparr>pf_wr := test_wr A RDMAP_RDMA_WRITE sd (pf_wr s),
           pf_w := on_mem (if \<not> pc_is_client pc then fill_buf pc else clear_buf pc) (test_sg A pc lstag (pf_w s))\<rparr>)"

text \<open>The two roles of one round of \<open>write_lat_iter\<close>: wait for the peer's write, or write.\<close>

definition write_lat_wait :: "env \<Rightarrow> perftest_context \<Rightarrow> perf \<Rightarrow> (int \<times> perf) option" where
  "write_lat_wait env pc s =
     (let idle = if pc_is_client pc then 0 else 1
      in Option.bind (wait_byte env (pc_buf pc + 1) (\<lambda>b. b = idle) s) (\<lambda>s1.
           Some (0, s1\<lparr>pf_w := on_mem (\<lambda>m. m(pc_buf pc + 1 := idle)) (pf_w s1)\<rparr>)))"

definition write_lat_write :: "env \<Rightarrow> perf \<Rightarrow> (int \<times> perf) option" where
  "write_lat_write env s =
     Option.bind (rdmap_write (pf_w s) (pf_wr s)) (\<lambda>(ret, w).
       if ret < 0 then Some (-1, s\<lparr>pf_w := w\<rparr>)
       else Option.bind (spin env (s\<lparr>pf_w := w\<rparr>)) (\<lambda>(wc, s1). Some (check_wc WC_WRITE wc, s1)))"

partial_function (option) write_lat_loop :: "env \<Rightarrow> perftest_context \<Rightarrow> bool \<Rightarrow> perf \<Rightarrow> (int \<times> perf) option" where
  "write_lat_loop env pc role s =
     Option.bind (if role then write_lat_wait env pc s else write_lat_write env s) (\<lambda>(ret, s1).
       if ret < 0 then Some (ret, s1)
       else if (\<not> role) \<noteq> pc_is_client pc then write_lat_loop env pc (\<not> role) s1
       else Some (0, s1))"

definition write_lat_iter :: "env \<Rightarrow> perftest_context \<Rightarrow> perf \<Rightarrow> (int \<times> perf) option" where
  "write_lat_iter env pc s = write_lat_loop env pc (pc_is_client pc) s"

text \<open>The number of requests the bandwidth tests report: an \<open>int\<close> product, widened.\<close>

definition bw_num_requests :: "perftest_context \<Rightarrow> u64" where
  "bw_num_requests pc = of_int (sint (of_int (pc_max_reqs pc * pc_iters pc) :: u32))"

section \<open>The driver\<close>

text \<open>
  What the outside world answers in one run: the buffer, the two connections with the sockets
  behind them, the handshake, the threads, the clock, and the contents of fresh memory.
\<close>

record perf_world =
  pk_mmap :: "addr option"
  pk_tcp :: tcp_answers
  pk_tcp_sync :: tcp_answers
  pk_sock :: sock
  pk_sync :: sock
  pk_malloc_ok :: bool
  pk_alloc :: "nat \<Rightarrow> addr"
  pk_thread1 :: int
  pk_thread2 :: int
  pk_clock :: "nat \<Rightarrow> int \<times> int"
  pk_raw_wq :: wq
  pk_raw_wr :: send_wr
  pk_rnic :: rnic

definition perftest_wq :: "perf_world \<Rightarrow> perftest_context \<Rightarrow> addr \<Rightarrow> addr \<Rightarrow> wq_type \<Rightarrow> wq" where
  "perftest_wq K pc pd cq t = create_wq (pk_raw_wq K) 0
     \<lparr>wqa_wq_context = 0, wqa_wq_type = t, wqa_max_wr = of_int (pc_max_reqs pc + 2),
      wqa_max_sge = of_int (pc_max_reqs pc + 2), wqa_pd = pd, wqa_cq = cq, wqa_comp_mask = 0\<rparr>"

fun send_queue :: "wq_union \<Rightarrow> send_wr ConcurrentQueue" where
  "send_queue (SendQ q) = q"
| "send_queue (RecvQ q) = new_queue"

fun recv_queue :: "wq_union \<Rightarrow> recv_wr ConcurrentQueue" where
  "recv_queue (RecvQ q) = q"
| "recv_queue (SendQ q) = new_queue"

text \<open>The attributes of the stream.  The member \<open>pd\<close> is never set; \<open>pd\<close> stands for what it holds.\<close>

definition perftest_attr :: "perf_world \<Rightarrow> perftest_context \<Rightarrow> pd_t \<Rightarrow> sock \<Rightarrow> rdmap_stream_init_attr" where
  "perftest_attr K pc pd s =
     (let sq = perftest_wq K pc 0 0 WQT_SQ; rq = perftest_wq K pc 0 0 WQT_RQ; c = create_cq 0 (pc_max_reqs pc + 2)
      in \<lparr>ia_sockfd = s, ia_pd = pd, ia_sq = send_queue (wq_queue sq), ia_rq = recv_queue (wq_queue rq),
          ia_send_cq = c, ia_recv_cq = c, ia_max_pending_read_requests = pc_max_reqs pc + 2,
          ia_sq_num = wq_num sq, ia_sq_type = wq_wq_type sq\<rparr>)"

definition perftest_handshake :: "perf_world \<Rightarrow> perftest_context \<Rightarrow> sock" where
  "perftest_handshake K pc =
     (if pc_is_client pc
      then snd (snd (snd (mpa_client_connect (pk_malloc_ok K) 0 (pk_sock K) [] 0 None)))
      else snd (snd (snd (mpa_server_accept (pk_malloc_ok K) 0 (pk_sock K) [] 0 None))))"

definition perftest_tagged :: "perftest_context \<Rightarrow> pd_t \<Rightarrow> tagged_buffer" where
  "perftest_tagged pc pd = \<lparr>tb_stag = \<lparr>stag_tag = 0, stag_pd = pd\<rparr>, tb_data = pc_buf pc,
     tb_len = of_int (pc_buf_size pc), tb_access_ctrl = 0\<rparr>"

definition perftest_send_wr :: "perf_world \<Rightarrow> perf_addrs \<Rightarrow> send_wr" where
  "perftest_send_wr K A = (pk_raw_wr K)\<lparr>swr_id := 1, swr_sg_list := fr_send_sg A, swr_num_sge := 1,
     swr_opcode := RDMAP_SEND, swr_send_flags := 0\<rparr>"

definition perftest_recv_wr :: "perf_addrs \<Rightarrow> recv_wr" where
  "perftest_recv_wr A = \<lparr>rwr_id = 1901, rwr_sg_list = fr_recv_sg A, rwr_num_sge = 1\<rparr>"

text \<open>
  Tell the peer the own buffer and learn the peer's; client and server do the same.  Failures are
  logged and the run goes on.
\<close>

definition perftest_exchange :: "perf_world \<Rightarrow> perf_addrs \<Rightarrow> env \<Rightarrow> perf \<Rightarrow> (send_data \<times> perf) option" where
  "perftest_exchange K A env s =
     (case rdmap_recv_issue (fr_their_sd A) sizeof_send_data (perftest_recv_wr A) s of (_, s1) \<Rightarrow>
        Option.bind (rdmap_send_data env (fr_my_sd A) sizeof_send_data (perftest_send_wr K A) (sync_with_remote env s1))
          (\<lambda>(_, s2). Option.bind (rdmap_recv_ack env s2) (\<lambda>(_, s3).
             Some (dec_send_data (mem_read (rd_mem (pf_w s3)) (fr_their_sd A) sizeof_send_data), s3))))"

definition add_total :: "perf_addrs \<Rightarrow> u64 \<Rightarrow> perf \<Rightarrow> perf" where
  "add_total A d s = s\<lparr>pf_w := on_mem (\<lambda>m. mem_write m (fr_total A) (le_bytes 8 (of_le (mem_read m (fr_total A) 8) + d))) (pf_w s)\<rparr>"

text \<open>\<open>n\<close> more iterations, the next being number \<open>i\<close>; \<open>False\<close> when a test failed.\<close>

fun perftest_loop ::
    "perf_world \<Rightarrow> perf_addrs \<Rightarrow> env \<Rightarrow> (perf \<Rightarrow> (int \<times> perf) option) \<Rightarrow> nat \<Rightarrow> nat \<Rightarrow> perf \<Rightarrow> (bool \<times> perf) option" where
  "perftest_loop K A env iter 0 i s = Some (True, s)"
| "perftest_loop K A env iter (Suc n) i s =
     (let s1 = sync_with_remote env s; start_ns = get_nanos (pk_clock K (2 * i))
      in Option.bind (iter s1) (\<lambda>(ret, s2).
           if ret \<noteq> 0 then Some (False, s2)
           else let end_ns = get_nanos (pk_clock K (2 * i + 1))
                in perftest_loop K A env iter n (Suc i) (add_total A (end_ns - start_ns) s2)))"

text \<open>The server sends its total to the client.\<close>

definition perftest_finish :: "perf_world \<Rightarrow> perf_addrs \<Rightarrow> env \<Rightarrow> perftest_context \<Rightarrow> perf \<Rightarrow> perf option" where
  "perftest_finish K A env pc s =
     (if pc_is_client pc then
        (case rdmap_recv_issue (fr_total A) 8 (perftest_recv_wr A) s of (_, s1) \<Rightarrow>
           Option.bind (rdmap_recv_ack env (sync_with_remote env s1)) (\<lambda>(_, s2). Some s2))
      else Option.bind (rdmap_send_data env (fr_total A) 8 ((perftest_send_wr K A)\<lparr>swr_id := 234\<rparr>)
             (sync_with_remote env s)) (\<lambda>(_, s1). Some s1))"

partial_function (option) join_threads :: "env \<Rightarrow> perf \<Rightarrow> perf option" where
  "join_threads env s = (if kill_joined (pf_w s) then Some s else join_threads env (others env s))"

definition rdmap_kill_stream :: "env \<Rightarrow> perf \<Rightarrow> perf option" where
  "rdmap_kill_stream env s =
     (let s1 = others env (s\<lparr>pf_w := kill_free (pf_w s)\<rparr>)
      in join_threads env (s1\<lparr>pf_w := kill_disconnect (pf_w s1)\<rparr>))"

datatype perf_result =
  BadArguments | Exit int | NoBuffer | NoSocket "int set" | NoSyncSocket "int set" | Crashed | Finished bool perf "int set"

text \<open>The middle of \<open>perftest_run\<close>, from the stream to the end of the cleanup.\<close>

definition perftest_main ::
    "perf_world \<Rightarrow> perf_addrs \<Rightarrow> env
     \<Rightarrow> (perf_addrs \<Rightarrow> perftest_context \<Rightarrow> u32 \<Rightarrow> send_data \<Rightarrow> perf \<Rightarrow> int \<times> perf)
     \<Rightarrow> (env \<Rightarrow> perftest_context \<Rightarrow> perf \<Rightarrow> (int \<times> perf) option)
     \<Rightarrow> perftest_context \<Rightarrow> pd_t \<Rightarrow> perf_result option" where
  "perftest_main K A env test_init test_iter pc pd =
     (case rdmap_init_stream (pk_alloc K) (pk_thread1 K) (pk_thread2 K)
             (perftest_attr K pc pd (perftest_handshake K pc)) (pk_rnic K) of (ok, w) \<Rightarrow>
        if \<not> ok then Some Crashed
        else case rdma_register w (perftest_tagged pc pd) of (_, tg, w1) \<Rightarrow>
          let stag = stag_tag (tb_stag tg);
              my_sd = \<lparr>sd_offset = pc_buf pc, sd_stag = ucast stag, sd_size = of_int (pc_buf_size pc)\<rparr>;
              w2 = on_mem (\<lambda>m. mem_write (mem_write m (fr_total A) (le_bytes 8 (0 :: u64))) (fr_my_sd A) (enc_send_data my_sd)) w1;
              s0 = \<lparr>pf_n = 0, pf_w = w2, pf_sync = pk_sync K, pf_wr = pk_raw_wr K, pf_wr_end = pk_raw_wr K\<rparr>
          in Option.bind (perftest_exchange K A env s0) (\<lambda>(their_sd, s1).
               Option.bind
                 (case test_init A pc stag their_sd s1 of (r, s2) \<Rightarrow>
                    if r \<noteq> 0 then Some (False, s2)
                    else Option.bind (perftest_loop K A env (test_iter env pc) (nat (pc_iters pc)) 0 s2) (\<lambda>(done, s3).
                      if \<not> done then Some (False, s3)
                      else Option.bind (perftest_finish K A env pc s3) (\<lambda>s4. Some (True, s4))))
                 (\<lambda>(done, s5). Option.bind (rdmap_kill_stream env s5) (\<lambda>s6. Some (Finished done s6 {})))))"

definition perftest_run ::
    "perf_world \<Rightarrow> perf_addrs \<Rightarrow> env
     \<Rightarrow> (perf_addrs \<Rightarrow> perftest_context \<Rightarrow> u32 \<Rightarrow> send_data \<Rightarrow> perf \<Rightarrow> int \<times> perf)
     \<Rightarrow> (env \<Rightarrow> perftest_context \<Rightarrow> perf \<Rightarrow> (int \<times> perf) option)
     \<Rightarrow> string list \<Rightarrow> perftest_context \<Rightarrow> pd_t \<Rightarrow> int set \<Rightarrow> perf_result option" where
  "perftest_run K A env test_init test_iter args raw pd fds =
     (case argparse args (raw\<lparr>pc_serverfd := -1\<rparr>) of
        ArgFail c \<Rightarrow> Some BadArguments
      | ArgExit n \<Rightarrow> Some (Exit n)
      | ArgOk c \<Rightarrow>
          (case alloc_buf (pk_mmap K) c of (r, pc) \<Rightarrow>
             if r \<noteq> 0 then Some NoBuffer
             else case create_tcp_connection (pk_tcp K) pc fds of (sockfd, pc1, fds1) \<Rightarrow>
               if sockfd < 0 then Some (NoSocket fds1)
               else case create_tcp_connection (pk_tcp_sync K) pc1 fds1 of (sync_sock, pc2, fds2) \<Rightarrow>
                 if sync_sock < 0 then Some (NoSyncSocket fds2)
                 else map_option (\<lambda>res. case res of
                     Finished done s _ \<Rightarrow>
                       (let fds3 = close_fd sync_sock (close_fd sockfd fds2)
                        in Finished done s (if pc_is_client pc2 then fds3 else close_fd (pc_serverfd pc2) fds3))
                   | r \<Rightarrow> r)
                   (perftest_main K A env test_init test_iter pc2 pd)))"

section \<open>Waiting\<close>

text \<open>The state after the others have run \<open>k\<close> times.\<close>

fun after :: "env \<Rightarrow> nat \<Rightarrow> perf \<Rightarrow> perf" where
  "after env 0 s = s"
| "after env (Suc k) s = after env k (others env s)"

lemma after_snoc: "after env (Suc k) s = others env (after env k s)"
  by (induction k arbitrary: s) simp_all

lemma others_n [simp]: "pf_n (others env s) = Suc (pf_n s)"
  by (simp add: others_def)

lemma after_n [simp]: "pf_n (after env k s) = pf_n s + k"
  by (induction k arbitrary: s) (simp_all add: others_def)

lemma after_other [simp]: "pf_wr (after env k s) = pf_wr s" "pf_wr_end (after env k s) = pf_wr_end s"
  "pf_sync (after env k s) = pf_sync s"
  by (induction k arbitrary: s) (simp_all add: others_def)

lemma wait_byte_ends:
  assumes "\<And>j. j < k \<Longrightarrow> busy (rd_mem (pf_w (after env j s)) a)" and "\<not> busy (rd_mem (pf_w (after env k s)) a)"
  shows "wait_byte env a busy s = Some (after env k s)"
  using assms
proof (induction k arbitrary: s)
  case 0
  then show ?case by (simp add: wait_byte.simps)
next
  case (Suc k)
  have "wait_byte env a busy (others env s) = Some (after env k (others env s))"
    by (rule Suc.IH) (use Suc.prems(1) [of "Suc j" for j] Suc.prems(2) in auto)
  moreover have "busy (rd_mem (pf_w s) a)" using Suc.prems(1) [of 0] by simp
  ultimately show ?case by (subst wait_byte.simps) simp
qed

text \<open>A wait that ends has seen the byte it waited for.\<close>

lemma wait_byte_seen:
  assumes "wait_byte env a busy s = Some s'"
  shows "\<exists>k. s' = after env k s \<and> \<not> busy (rd_mem (pf_w s') a)"
proof (rule wait_byte.raw_induct [OF _ assms, where P = "\<lambda>env a busy s s'. \<exists>k. s' = after env k s \<and> \<not> busy (rd_mem (pf_w s') a)"])
  fix wait :: "env \<Rightarrow> addr \<Rightarrow> (u8 \<Rightarrow> bool) \<Rightarrow> perf \<Rightarrow> perf option" and env a busy s s'
  assume IH: "\<And>env a busy s s'. wait env a busy s = Some s' \<Longrightarrow> \<exists>k. s' = after env k s \<and> \<not> busy (rd_mem (pf_w s') a)"
    and r: "(if busy (rd_mem (pf_w s) a) then wait env a busy (others env s) else Some s) = Some s'"
  show "\<exists>k. s' = after env k s \<and> \<not> busy (rd_mem (pf_w s') a)"
  proof (cases "busy (rd_mem (pf_w s) a)")
    case True
    with r IH [of env a busy "others env s" s'] obtain k where "s' = after env (Suc k) s" "\<not> busy (rd_mem (pf_w s') a)"
      by auto
    then show ?thesis by blast
  next
    case False
    with r show ?thesis by (intro exI [of _ 0]) simp
  qed
qed

lemma wait_byte_never:
  assumes "\<And>k. busy (rd_mem (pf_w (after env k s)) a)"
  shows "wait_byte env a busy s = None"
  using assms wait_byte_seen [of env a busy s] by (cases "wait_byte env a busy s") auto

lemma spin_ends:
  assumes "wf_queue (cq_q (rd_send_cq (pf_w s)))" and "queue_items (cq_q (rd_send_cq (pf_w s))) = []"
  shows "spin env s = spin env (others env s)"
proof -
  have e: "try_dequeue (cq_q (rd_send_cq (pf_w s))) = (None, cq_q (rd_send_cq (pf_w s)))"
    by (rule try_dequeue_empty [OF assms])
  have "set_cq (cq_q (rd_send_cq (pf_w s))) s = s" by (simp add: set_cq_def)
  with e show ?thesis by (subst spin.simps) simp
qed

lemma spin_takes:
  assumes "try_dequeue (cq_q (rd_send_cq (pf_w s))) = (Some wc, q)"
  shows "spin env s = Some (wc, set_cq q s)"
  using assms by (subst spin.simps) simp

section \<open>The write tests\<close>

lemma fill_buf_at:
  assumes "nat (pc_buf_size pc) \<le> 2 ^ 64" and "i < nat (pc_buf_size pc)"
  shows "fill_buf pc m (pc_buf pc + of_nat i) = of_nat i"
proof -
  have "unat (of_nat i :: u64) = i" using assms by (simp add: unat_of_nat)
  then show ?thesis using assms by (simp add: fill_buf_def mem_write_apply)
qed

lemma mem_write_head: "length bs < 2 ^ 64 \<Longrightarrow> mem_write m a (b # bs) a = b"
  using mem_write_apply [of "b # bs" m a a] by simp

lemma le_bytes_4: "le_bytes 4 x = ucast x # le_bytes 3 (drop_bit 8 x)"
  using le_bytes.simps(2) [of 3 x] by (simp del: le_bytes.simps)

lemma end_marker_bytes: "le_bytes 4 byte_end = 0xef # le_bytes 3 (drop_bit 8 byte_end)"
  "le_bytes 4 (0 :: u32) = 0 # le_bytes 3 (0 :: u32)"
  unfolding le_bytes_4 by (simp_all add: byte_end_def del: le_bytes.simps)

text \<open>
  C33. The end of a round of the bandwidth test.  The client's buffer starts with a zero byte, so
  however many data writes arrive, the server keeps waiting; it ends the round exactly when the
  write of \<open>byte_end\<close> arrives, and leaves its first byte zero for the next round.
\<close>

theorem write_bw_end_marker:
  assumes "\<not> pc_is_client pc" and "1 \<le> pc_buf_size pc" and "pc_buf_size pc < 2 ^ 31"
    and "rd_mem (pf_w s) (pc_buf pc) = 0"
    and "\<forall>j < k. env (pf_n s + j) = on_mem (fill_buf pc)"
    and "env (pf_n s + k) = on_mem (\<lambda>m. mem_write m (pc_buf pc) (le_bytes 4 byte_end))"
  shows "\<exists>s'. write_bw_iter env pc s = Some (0, s') \<and> pf_n s' = pf_n s + Suc k \<and> rd_mem (pf_w s') (pc_buf pc) = 0"
proof -
  have z: "rd_mem (pf_w (after env j s)) (pc_buf pc) = 0" if "j \<le> k" for j
    using that
  proof (induction j)
    case (Suc j)
    then show ?case
      using assms(2,3,5) fill_buf_at [of pc 0] unfolding after_snoc by (simp add: others_def on_mem_def)
  qed (simp add: assms(4))
  have "rd_mem (pf_w (after env (Suc k) s)) (pc_buf pc) = 0xef"
    unfolding after_snoc using assms(6) by (simp add: others_def on_mem_def end_marker_bytes mem_write_head del: mem_write.simps)
  then have "wait_byte env (pc_buf pc) (\<lambda>b. b = 0) s = Some (after env (Suc k) s)"
    using z by (intro wait_byte_ends) auto
  then show ?thesis
    using assms(1) by (simp add: write_bw_iter_def on_mem_def end_marker_bytes mem_write_head del: mem_write.simps)
qed

definition demo_pc :: "bool \<Rightarrow> int \<Rightarrow> perftest_context" where
  "demo_pc client sz = \<lparr>pc_port = ''9999'', pc_ip = ''127.0.0.1'', pc_buf_size = sz, pc_buf = 100, pc_iters = 1,
     pc_max_reqs = 1, pc_is_client = client, pc_serverfd = -1\<rparr>"

definition demo_perf :: "rnic \<Rightarrow> perf" where
  "demo_perf w = \<lparr>pf_n = 0, pf_w = w, pf_sync = demo_sock [], pf_wr = demo_req RDMAP_RDMA_READ_REQ,
     pf_wr_end = demo_req RDMAP_RDMA_WRITE\<rparr>"

lemma demo_perf_facts [simp]:
  "pf_n (demo_perf w) = 0" "pf_w (demo_perf w) = w" "pf_wr (demo_perf w) = demo_req RDMAP_RDMA_READ_REQ"
  "pc_is_client (demo_pc client sz) = client" "pc_buf_size (demo_pc client sz) = sz" "pc_buf (demo_pc client sz) = 100"
  by (simp_all add: demo_perf_def demo_pc_def)

theorem write_bw_end_marker_witness:
  "\<exists>s'. write_bw_iter (\<lambda>n. if n < 2 then on_mem (fill_buf (demo_pc False 8))
        else on_mem (\<lambda>m. mem_write m 100 (le_bytes 4 byte_end))) (demo_pc False 8)
      (demo_perf (on_mem (\<lambda>m. m(100 := 0)) (demo_node [] []))) = Some (0, s') \<and> pf_n s' = 3"
  using write_bw_end_marker [of "demo_pc False 8" "demo_perf (on_mem (\<lambda>m. m(100 := 0)) (demo_node [] []))" 2
      "\<lambda>n. if n < 2 then on_mem (fill_buf (demo_pc False 8)) else on_mem (\<lambda>m. mem_write m 100 (le_bytes 4 byte_end))"]
  by (auto simp: on_mem_def numeral_3_eq_3 simp del: mem_write.simps)

text \<open>
  The latency test with a buffer of less than two bytes never ends.
\<close>

lemma write_lat_short_buffer:
  assumes "pc_is_client pc" and "pc_buf_size pc < 2" and "rd_mem (pf_w s) (pc_buf pc + 1) = 0"
    and "\<forall>n w. rd_mem (env n w) = rd_mem w \<or> rd_mem (env n w) = fill_buf pc (rd_mem w)"
  shows "write_lat_iter env pc s = None"
proof -
  have short: "fill_buf pc m (pc_buf pc + 1) = m (pc_buf pc + 1)" for m
  proof -
    have "nat (pc_buf_size pc) \<le> 1" using assms(2) by linarith
    then have "length (map of_nat [0..<nat (pc_buf_size pc)] :: bytes) \<le> 1" by simp
    then show ?thesis unfolding fill_buf_def by (intro mem_write_outside) simp_all
  qed
  have "rd_mem (pf_w (after env k s)) (pc_buf pc + 1) = 0" for k
  proof (induction k)
    case (Suc k)
    have "rd_mem (env (pf_n s + k) (pf_w (after env k s))) (pc_buf pc + 1) = rd_mem (pf_w (after env k s)) (pc_buf pc + 1)"
      using assms(4) short by metis
    with Suc show ?case unfolding after_snoc by (simp add: others_def)
  qed (simp add: assms(3))
  then have "wait_byte env (pc_buf pc + 1) (\<lambda>b. b = 0) s = None" by (intro wait_byte_never)
  then show ?thesis using assms(1) by (simp add: write_lat_iter_def write_lat_loop.simps write_lat_wait_def)
qed

section \<open>The read tests\<close>

text \<open>
  C32. A round of the read latency test.  When the send thread and then, after the peer's two
  turns, the receive thread get to run, the server's iteration returns 0 after exactly these two
  turns, and its buffer holds the bytes the client's memory had at the offset the client sent.
\<close>

theorem read_lat_round:
  assumes "\<not> pc_is_client pc" and "rdmap_read (pf_w s) (pf_wr s) = Some (1, a)"
    and "send_thread a = Running" and "recv_thread a = Running" and "rd_connected a" and "rnic_ok a"
    and "try_dequeue (rd_sq a) = (Some (pf_wr s), q)" and "swr_num_sge (pf_wr s) = 1"
    and "rd_sges a (swr_sg_list (pf_wr s)) = g" and "0 < unat (sge_length g)" and "unat (sge_length g) < 2 ^ 31"
    and "msn_read a \<noteq> 0" and "rd_ddp a = Some ca" and "tx_plan (ddp_sockfd ca) = []" and "tx (ddp_sockfd ca) = []"
    and "tagged_buffers ca (sge_lkey g) = Some sink"
    and "tb_data sink \<le> sge_addr g" and "sge_addr g \<le> tb_data sink + tb_len sink"
    and "queue_items (cq_pending_q (rd_send_cq a)) = []" and "queue_room 0 (cq_pending_q (rd_send_cq a))"
    and "queue_items (cq_q (rd_send_cq a)) = []" and "queue_room 0 (cq_q (rd_send_cq a))"
    and "send_thread b = Running" and "recv_thread b = Running" and "rd_connected b" and "rnic_ok b"
    and "rd_ddp b = Some cb" and "tx_plan (ddp_sockfd cb) = []" and "tx (ddp_sockfd cb) = []"
    and "try_dequeue (utq_q (ddp_queues cb ! 1)) = (Some buf, bq)"
    and "queue_items (rd_sq b) = []" and "queue_room 0 (rd_sq b)"
    and "rnic_recv (feed (sent (rnic_send a)) b) = Some b1"
    and "env (pf_n s) = rnic_send"
    and "env (Suc (pf_n s)) = (\<lambda>w. the (rnic_recv (feed (sent (rnic_send b1)) w)))"
  shows "\<exists>s'. read_lat_iter env pc s = Some (0, s') \<and> pf_n s' = pf_n s + 2
    \<and> rd_mem (pf_w s') = mem_write (rd_mem (rnic_send a)) (sge_addr g)
        (mem_read (rd_mem b1) (swr_remote_addr (pf_wr s)) (unat (sge_length g)))"
proof -
  have opc: "swr_opcode (pf_wr s) = RDMAP_RDMA_READ_REQ"
    using assms(2) by (simp add: rdmap_read_def split: if_splits)
  obtain a2 wce where a2: "cq_q (rd_send_cq (rnic_send a)) = cq_q (rd_send_cq a)"
    "rnic_recv (feed (sent (rnic_send b1)) (rnic_send a)) = Some a2"
    "rd_mem a2 = mem_write (rd_mem (rnic_send a)) (sge_addr g)
        (mem_read (rd_mem b1) (swr_remote_addr (pf_wr s)) (unat (sge_length g)))"
    "cq_q (rd_send_cq a2) = snd (enqueue (recv_tid a) wce (cq_q (rd_send_cq a)))"
    "wc_status wce = WC_SUCCESS" "wc_opcode wce = wc_opcode_val WC_READ_REQUEST"
    using read_turns [OF assms(3-7) opc assms(8-20,23-32)] assms(33) by auto
  obtain cqq ok where cqq: "enqueue (recv_tid a) wce (cq_q (rd_send_cq a)) = (ok, cqq)" by fastforce
  obtain q2 where q2: "try_dequeue cqq = (Some wce, q2)"
    by (rule single_item [OF rnic_ok_D(3) [OF assms(6)] assms(21,22) cqq])
  let ?s0 = "s\<lparr>pf_w := a\<rparr>"
  let ?s1 = "others env ?s0"
  have s1: "pf_w ?s1 = rnic_send a" using assms(34) by (simp add: others_def)
  have s2: "pf_w (others env ?s1) = a2" using assms(35) a2(2) s1 by (simp add: others_def)
  have "spin env ?s0 = spin env ?s1"
    using assms(6,21) by (intro spin_ends) (simp_all add: rnic_ok_D)
  also have "\<dots> = spin env (others env ?s1)"
    using assms(6,21) a2(1) by (intro spin_ends) (simp_all add: s1 rnic_ok_D)
  also have "\<dots> = Some (wce, set_cq q2 (others env ?s1))"
    using q2 a2(4) cqq by (intro spin_takes) (simp add: s2)
  finally have "spin env ?s0 = Some (wce, set_cq q2 (others env ?s1))" .
  then show ?thesis
    using assms(1,2) a2(3,5,6) s2 by (simp add: read_lat_iter_def check_wc_def set_cq_def)
qed

lemma demo_rdmap_read:
  "rdmap_read (demo_node [] []) (demo_req RDMAP_RDMA_READ_REQ) = Some (1, demo_node [demo_req RDMAP_RDMA_READ_REQ] [])"
proof -
  let ?r = "demo_req RDMAP_RDMA_READ_REQ"
  obtain q where "enqueue 1 ?r new_queue = (True, q)"
    using enqueue_appends [OF wf_new_queue, of 1 ?r] by auto
  moreover have "snd (enqueue 1 ?r new_queue) = filled 1 [?r]" by (simp add: filled_def)
  ultimately have "enqueue 1 ?r new_queue = (True, filled 1 [?r])" by (metis prod.sel(2))
  then show ?thesis by (simp add: rdmap_read_def rdmap_send_def demo_node_def demo_rnic_facts)
qed

theorem read_lat_round_witness:
  "\<exists>env s'. read_lat_iter env (demo_pc False 3) (demo_perf (demo_node [] [])) = Some (0, s') \<and> pf_n s' = 2"
proof -
  let ?a = "demo_node [demo_req RDMAP_RDMA_READ_REQ] []" and ?b = "demo_node [] []"
  let ?t = "\<lparr>tb_stag = \<lparr>stag_tag = 100, stag_pd = \<lparr>pd_id = 0\<rparr>\<rparr>, tb_data = 100, tb_len = 8, tb_access_ctrl = 0\<rparr>"
  let ?s = "demo_perf (demo_node [] [])"
  obtain ca where ca: "rd_ddp ?a = Some ca" "tx_plan (ddp_sockfd ca) = []" "tx (ddp_sockfd ca) = []"
    "tagged_buffers ca = [100 \<mapsto> ?t]"
    by (rule demo_node_ddp)
  obtain cb where cb: "rd_ddp ?b = Some cb" "tx_plan (ddp_sockfd cb) = []" "tx (ddp_sockfd cb) = []"
    "ddp_queues cb = replicate 3 \<lparr>utq_q = filled 1 [demo_buf], utq_msn = 1\<rparr>"
    by (rule demo_node_ddp)
  obtain q where q: "try_dequeue (rd_sq ?a) = (Some (pf_wr ?s), q)" using demo_node_takes by auto
  obtain bq where "try_dequeue (filled 1 [demo_buf]) = (Some demo_buf, bq)"
    using filled_try_dequeue [of "[]" 1 demo_buf] by auto
  then have bq: "try_dequeue (utq_q (ddp_queues cb ! 1)) = (Some demo_buf, bq)" by (simp add: cb(4))
  obtain b1 where b1: "rnic_recv (feed (sent (rnic_send ?a)) ?b) = Some b1"
    using read_turns [OF _ _ _ demo_node_ok q _ _ refl _ _ _ ca(1-3) _ _ _ _ _ _ _ _ demo_node_ok cb(1-3) bq, of ?t] ca(4)
    by (auto simp: create_cq_def queue_items_new)
  let ?env = "\<lambda>n. if n = 0 then rnic_send else (\<lambda>w. the (rnic_recv (feed (sent (rnic_send b1)) w)))"
  have "rdmap_read (pf_w ?s) (pf_wr ?s) = Some (1, ?a)" using demo_rdmap_read by simp
  from read_lat_round [OF _ this _ _ _ demo_node_ok q _ refl _ _ _ ca(1-3) _ _ _ _ _ _ _ _ _ _ demo_node_ok cb(1-3) bq _ _ b1,
      of "demo_pc False 3" ?t ?env] ca(4)
  have "\<exists>s'. read_lat_iter ?env (demo_pc False 3) ?s = Some (0, s') \<and> pf_n s' = 2"
    by (auto simp: create_cq_def queue_items_new)
  then show ?thesis by blast
qed

end
