(* ===== verification/Ping_Client.thy ===== *)
theory Ping_Client
  imports Perftest
begin

text \<open>
  \<open>fake_ping_client.cpp\<close>: a client for the ping server of the RDMA connection manager.  The main
  thread announces its buffer twice in every round and waits for the server's answer after each
  announcement; a second thread takes the server's messages off the completion queue and counts
  them in a semaphore.  The two threads and the stream are a labelled step relation.
\<close>

section \<open>Command line and connection\<close>

definition BUF_LEN :: nat where "BUF_LEN = 64"

record Config =
  cf_ip :: string
  cf_port :: string

text \<open>\<open>Inl\<close> is the exit status.\<close>

definition ping_argparse :: "string list \<Rightarrow> int + Config" where
  "ping_argparse argv =
     (if length argv \<noteq> 3 then Inl 1 else Inr \<lparr>cf_ip = argv ! 1, cf_port = argv ! 2\<rparr>)"

text \<open>
  The candidates of \<open>getaddrinfo\<close> with what \<open>socket\<close> and \<open>connect\<close> return for each; \<open>sockfd\<close> is the
  variable of the function, which starts uninitialised.
\<close>

fun ping_connect_loop :: "(int \<times> int) list \<Rightarrow> int \<Rightarrow> int set \<Rightarrow> int \<times> int set" where
  "ping_connect_loop [] sockfd fds = (sockfd, fds)"
| "ping_connect_loop ((s, c) # ps) sockfd fds =
     (if s = -1 then ping_connect_loop ps s fds
      else if c = -1 then ping_connect_loop ps s (close_fd s (open_fd s fds))
      else (s, open_fd s fds))"

definition ping_create_tcp_connection :: "int \<Rightarrow> (int \<times> int) list \<Rightarrow> int \<Rightarrow> int set \<Rightarrow> int \<times> int set" where
  "ping_create_tcp_connection rv servinfo sockfd fds =
     (if rv \<noteq> 0 then (1, fds) else ping_connect_loop servinfo sockfd fds)"

section \<open>Messages and buffers\<close>

record ping_data =
  pd_offset :: u64
  pd_stag :: u32
  pd_size :: u32

definition enc_ping_data :: "ping_data \<Rightarrow> bytes" where
  "enc_ping_data d = le_bytes 8 (pd_offset d) @ le_bytes 4 (pd_stag d) @ le_bytes 4 (pd_size d)"

definition ping_announce :: "addr \<Rightarrow> u32 \<Rightarrow> ping_data" where
  "ping_announce buf stag = \<lparr>pd_offset = htonll buf, pd_stag = htonl stag, pd_size = htonl (of_nat BUF_LEN)\<rparr>"

text \<open>The decimal digits \<open>snprintf\<close> prints for the number of the round.\<close>

fun dec_digits :: "nat \<Rightarrow> string" where
  "dec_digits n = (if n < 10 then [char_of (48 + n)] else dec_digits (n div 10) @ [char_of (48 + n mod 10)])"

declare dec_digits.simps [simp del]

definition ping_prefix :: "nat \<Rightarrow> bytes" where
  "ping_prefix ping = bytes_of_string (''rdma-ping-'' @ dec_digits ping @ '': '')"

definition next_char :: "int \<Rightarrow> int" where
  "next_char c = (if c + 1 > 122 then 65 else c + 1)"

fun ping_letters :: "nat \<Rightarrow> int \<Rightarrow> bytes" where
  "ping_letters 0 c = []"
| "ping_letters (Suc n) c = of_int c # ping_letters n (next_char c)"

definition ping_text :: "nat \<Rightarrow> int \<Rightarrow> bytes" where
  "ping_text ping start =
     (let cc = length (ping_prefix ping)
      in (ping_prefix ping @ ping_letters (BUF_LEN - cc) start)[BUF_LEN - 1 := 0])"

section \<open>The two threads\<close>

datatype ping_pc = AtLoop | AtSend1 | AtWait1 | AtSend2 | AtWait2 | Left

record ping =
  pg_w :: rnic
  pg_sem :: nat
  pg_pc :: ping_pc
  pg_round :: nat
  pg_start :: int
  pg_cqt :: bool
  pg_buf :: addr
  pg_req :: send_wr
  pg_wr :: recv_wr

text \<open>\<open>cq_thread\<close> before its loop: one receive request, always the same.\<close>

definition ping_recv_wr :: "addr \<Rightarrow> recv_wr" where
  "ping_recv_wr sg = \<lparr>rwr_id = 1901, rwr_sg_list = sg, rwr_num_sge = 1\<rparr>"

definition cq_thread_start :: "ping \<Rightarrow> ping" where
  "cq_thread_start s = s\<lparr>pg_w := snd (rdma_post_recv (pg_w s) (pg_wr s)), pg_cqt := True\<rparr>"

text \<open>
  One turn of its loop.  The second component tells whether the semaphore was posted.
\<close>

definition cq_thread_turn :: "ping \<Rightarrow> ping \<times> bool" where
  "cq_thread_turn s =
     (let w = pg_w s
      in if \<not> pg_cqt s then (s, False)
         else if \<not> rd_connected w then (s\<lparr>pg_cqt := False\<rparr>, False)
         else case try_dequeue (cq_q (rd_send_cq w)) of (wco, q) \<Rightarrow>
           let w1 = w\<lparr>rd_send_cq := (rd_send_cq w)\<lparr>cq_q := q\<rparr>\<rparr>
           in case wco of
                None \<Rightarrow> (s\<lparr>pg_w := w1\<rparr>, False)
              | Some wc \<Rightarrow>
                  if wc_opcode wc \<noteq> wc_opcode_val WC_SEND \<or> wc_wr_id wc \<noteq> rwr_id (pg_wr s) then (s\<lparr>pg_w := w1\<rparr>, False)
                  else if wc_status wc \<noteq> WC_SUCCESS
                  then (s\<lparr>pg_w := w1\<lparr>rd_connected := False\<rparr>, pg_cqt := False\<rparr>, False)
                  else (s\<lparr>pg_w := snd (rdma_post_recv w1 (pg_wr s)), pg_sem := pg_sem s + 1\<rparr>, True))"

text \<open>The top of the main loop: leave it, or fill the buffer for the next round.\<close>

definition ping_fill :: "ping \<Rightarrow> ping" where
  "ping_fill s =
     (if \<not> rd_connected (pg_w s) then s\<lparr>pg_pc := Left\<rparr>
      else s\<lparr>pg_w := on_mem (\<lambda>m. mem_write m (pg_buf s) (ping_text (pg_round s) (pg_start s))) (pg_w s),
             pg_start := next_char (pg_start s), pg_pc := AtSend1\<rparr>)"

definition ping_send :: "ping_pc \<Rightarrow> ping \<Rightarrow> ping" where
  "ping_send next s =
     (case rdmap_send (pg_w s) (pg_req s) of (ret, w) \<Rightarrow>
        s\<lparr>pg_w := w, pg_pc := if ret < 0 then Left else next\<rparr>)"

datatype ping_event = Posted | Sent | Waited | Quiet

text \<open>\<open>sem_wait\<close> blocks while the semaphore is zero: then there is no step.\<close>

inductive ping_step :: "ping \<Rightarrow> ping_event \<Rightarrow> ping \<Rightarrow> bool" where
  cq_turn: "cq_thread_turn s = (s', b) \<Longrightarrow> ping_step s (if b then Posted else Quiet) s'"
| fill: "pg_pc s = AtLoop \<Longrightarrow> ping_step s Quiet (ping_fill s)"
| send1: "pg_pc s = AtSend1 \<Longrightarrow> ping_step s Sent (ping_send AtWait1 s)"
| wait1: "pg_pc s = AtWait1 \<Longrightarrow> 0 < pg_sem s \<Longrightarrow> ping_step s Waited (s\<lparr>pg_sem := pg_sem s - 1, pg_pc := AtSend2\<rparr>)"
| send2: "pg_pc s = AtSend2 \<Longrightarrow> ping_step s Sent (ping_send AtWait2 s)"
| wait2: "pg_pc s = AtWait2 \<Longrightarrow> 0 < pg_sem s \<Longrightarrow>
    ping_step s Waited (s\<lparr>pg_sem := pg_sem s - 1, pg_round := pg_round s + 1, pg_pc := AtLoop\<rparr>)"
| stream: "rnic_step (pg_w s) w' \<Longrightarrow> ping_step s Quiet (s\<lparr>pg_w := w'\<rparr>)"

inductive_cases ping_stepE: "ping_step s e s'"

inductive ping_run :: "ping \<Rightarrow> ping_event list \<Rightarrow> ping \<Rightarrow> bool" where
  run_nil: "ping_run s [] s"
| run_snoc: "ping_run s es s' \<Longrightarrow> ping_step s' e s'' \<Longrightarrow> ping_run s (es @ [e]) s''"

section \<open>Start\<close>

definition ping_attr :: "wq \<Rightarrow> pd_t \<Rightarrow> sock \<Rightarrow> rdmap_stream_init_attr" where
  "ping_attr raw pd sk =
     (let init = (\<lambda>t. \<lparr>wqa_wq_context = 0, wqa_wq_type = t, wqa_max_wr = 10, wqa_max_sge = 10, wqa_pd = 0,
                   wqa_cq = 0, wqa_comp_mask = 0\<rparr>);
          sq = create_wq raw 0 (init WQT_SQ); rq = create_wq raw 0 (init WQT_RQ); c = create_cq 0 10
      in \<lparr>ia_sockfd = sk, ia_pd = pd, ia_sq = send_queue (wq_queue sq), ia_rq = recv_queue (wq_queue rq),
          ia_send_cq = c, ia_recv_cq = c, ia_max_pending_read_requests = 10, ia_sq_num = wq_num sq,
          ia_sq_type = wq_wq_type sq\<rparr>)"

definition ping_send_wr :: "send_wr \<Rightarrow> addr \<Rightarrow> send_wr" where
  "ping_send_wr raw sg = raw\<lparr>swr_id := 1, swr_sg_list := sg, swr_num_sge := 1, swr_opcode := RDMAP_SEND, swr_send_flags := 0\<rparr>"

text \<open>
  \<open>main\<close> up to its loop, on a connected socket.  \<open>None\<close> is the crash on a stream that could not be
  started.  A failed handshake closes the socket but does not stop the program.  \<open>d_addr\<close>, \<open>sg\<close> and
  \<open>rsg\<close> are the addresses of the message, of its element and of the element of \<open>cq_thread\<close>, and
  \<open>garbage\<close> that of its buffer of 1000 bytes.
\<close>

definition ping_main ::
    "(nat \<Rightarrow> addr) \<Rightarrow> int \<Rightarrow> int \<Rightarrow> wq \<Rightarrow> send_wr \<Rightarrow> pd_t \<Rightarrow> rnic \<Rightarrow> sock \<Rightarrow> addr \<Rightarrow> addr \<Rightarrow> addr \<Rightarrow> addr \<Rightarrow> addr \<Rightarrow> ping option" where
  "ping_main alloc t1 t2 raw_wq raw_wr pd raw_rnic sk buf d_addr sg rsg garbage =
     (case rdmap_init_stream alloc t1 t2
             (ping_attr raw_wq pd (snd (snd (snd (mpa_client_connect True 0 sk [] 0 None))))) raw_rnic of (ok, w) \<Rightarrow>
        if \<not> ok then None
        else case rdma_register w \<lparr>tb_stag = \<lparr>stag_tag = 0, stag_pd = pd\<rparr>, tb_data = buf, tb_len = of_nat BUF_LEN,
                    tb_access_ctrl = 0\<rparr> of (_, tg, w1) \<Rightarrow>
          let w2 = on_mem (\<lambda>m. mem_write m d_addr (enc_ping_data (ping_announce buf (stag_tag (tb_stag tg))))) w1;
              w3 = set_sge rsg garbage 1000 (set_sge sg d_addr 16 w2)
          in Some (cq_thread_start \<lparr>pg_w = w3, pg_sem = 0, pg_pc = AtLoop, pg_round = 0, pg_start = 65, pg_cqt = False,
                     pg_buf = buf, pg_req = ping_send_wr raw_wr sg, pg_wr = ping_recv_wr rsg\<rparr>))"

section \<open>Properties\<close>

lemma rdmap_send_result: "fst (rdmap_send w wr) \<in> {0, 1}"
  by (simp add: rdmap_send_def split: prod.splits)

lemma ping_send_pc [simp]: "pg_pc (ping_send nxt s) = nxt" "pg_sem (ping_send nxt s) = pg_sem s"
  "pg_round (ping_send nxt s) = pg_round s"
  using rdmap_send_result [of "pg_w s" "pg_req s"] by (auto simp: ping_send_def split: prod.splits)

lemma ping_fill_fields [simp]: "pg_sem (ping_fill s) = pg_sem s" "pg_round (ping_fill s) = pg_round s"
  "pg_pc (ping_fill s) \<in> {Left, AtSend1}"
  by (simp_all add: ping_fill_def)

lemma cq_thread_turn_fields:
  assumes "cq_thread_turn s = (s', b)"
  shows "pg_pc s' = pg_pc s" and "pg_round s' = pg_round s" and "pg_sem s' = pg_sem s + (if b then 1 else 0)"
  using assms by (auto simp: cq_thread_turn_def Let_def split: if_splits prod.splits option.splits)

definition in_flight :: "ping_pc \<Rightarrow> nat" where
  "in_flight pc = (if pc \<in> {AtWait1, AtWait2} then 1 else 0)"

definition half_round :: "ping_pc \<Rightarrow> nat" where
  "half_round pc = (if pc \<in> {AtSend2, AtWait2} then 1 else 0)"


lemma length_dec_digits: "n < 10 ^ k \<Longrightarrow> 0 < k \<Longrightarrow> length (dec_digits n) \<le> k"
proof (induction k arbitrary: n)
  case (Suc k)
  show ?case
  proof (cases "n < 10")
    case True
    then show ?thesis by (simp add: dec_digits.simps [of n])
  next
    case False
    then have "0 < k" using Suc.prems(1) by (cases k) auto
    moreover have "n div 10 < 10 ^ k" using Suc.prems(1) by (simp add: less_mult_imp_div_less mult.commute)
    ultimately show ?thesis using Suc.IH [of "n div 10"] False by (simp add: dec_digits.simps [of n])
  qed
qed simp

lemma dec_digits_range: "c \<in> set (dec_digits n) \<Longrightarrow> 48 \<le> (of_char c :: nat) \<and> (of_char c :: nat) < 58"
proof (induction n rule: dec_digits.induct)
  case (1 n)
  show ?case
  proof (cases "n < 10")
    case True
    with "1.prems" show ?thesis by (simp add: dec_digits.simps [of n])
  next
    case False
    with "1.prems" have "c \<in> set (dec_digits (n div 10)) \<or> c = char_of (48 + n mod 10)"
      by (auto simp: dec_digits.simps [of n])
    with "1.IH" False show ?thesis by auto
  qed
qed

lemma of_char_u8_nonzero: "0 < (of_char c :: nat) \<Longrightarrow> (of_char c :: u8) \<noteq> 0"
proof -
  assume pos: "0 < (of_char c :: nat)"
  have "unat (of_nat (of_char c) :: u8) = of_char c" by (simp add: unat_of_nat)
  then have "unat (of_char c :: u8) = of_char c" by (simp only: of_nat_of_char)
  then show ?thesis using pos by auto
qed

lemma ping_prefix_nonzero: "0 \<notin> set (ping_prefix n)"
  using dec_digits_range [of _ n] of_char_u8_nonzero by (fastforce simp: ping_prefix_def bytes_of_string_def)

lemma ping_letters_facts:
  assumes "65 \<le> c" and "c \<le> 122"
  shows "length (ping_letters n c) = n" and "0 \<notin> set (ping_letters n c)"
proof -
  have "length (ping_letters n c) = n \<and> 0 \<notin> set (ping_letters n c)"
    using assms
  proof (induction n arbitrary: c)
    case (Suc n)
    have "(of_int c :: u8) \<noteq> 0" using Suc.prems by (simp add: word_of_int_eq_0_iff zdvd_not_zless)
    moreover have "65 \<le> next_char c \<and> next_char c \<le> 122" using Suc.prems by (simp add: next_char_def)
    ultimately show ?case using Suc.IH [of "next_char c"] by auto
  qed simp
  then show "length (ping_letters n c) = n" "0 \<notin> set (ping_letters n c)" by simp_all
qed

text \<open>
  The buffer of a round is one string.  For every round an \<open>int\<close> can number and every start letter
  the loop reaches, the text fills the 64 bytes of the buffer and its only zero byte is the last.
\<close>

lemma ping_text_string:
  assumes "n < 2 ^ 31" and "65 \<le> c" and "c \<le> 122"
  shows "length (ping_text n c) = BUF_LEN \<and> ping_text n c ! 63 = 0 \<and> (\<forall>i < 63. ping_text n c ! i \<noteq> 0)"
proof -
  let ?xs = "ping_prefix n @ ping_letters (BUF_LEN - length (ping_prefix n)) c"
  have "length (dec_digits n) \<le> 10" using assms(1) by (intro length_dec_digits) simp_all
  then have len: "length ?xs = 64"
    using ping_letters_facts(1) [OF assms(2,3)] by (simp add: BUF_LEN_def ping_prefix_def bytes_of_string_def)
  have "0 \<notin> set ?xs" using ping_prefix_nonzero ping_letters_facts(2) [OF assms(2,3)] by simp
  then have "?xs ! i \<noteq> 0" if "i < 63" for i using nth_mem [of i ?xs] len that by force
  moreover have "ping_text n c = ?xs[63 := 0]" by (simp add: ping_text_def Let_def BUF_LEN_def)
  ultimately show ?thesis using len by (simp add: BUF_LEN_def)
qed

definition demo_ping :: ping where
  "demo_ping = \<lparr>pg_w = demo_node [] [], pg_sem = 1, pg_pc = AtLoop, pg_round = 0, pg_start = 65, pg_cqt = False,
     pg_buf = 1000, pg_req = demo_req RDMAP_SEND, pg_wr = ping_recv_wr 0\<rparr>"

lemma demo_ping_fill: "pg_pc (ping_fill demo_ping) = AtSend1"
  by (simp add: ping_fill_def demo_ping_def)


end
