(* ===== verification/Producer_Hash.thy ===== *)
theory Producer_Hash
  imports Concurrent_Queue
begin

text \<open>
  The hash table of \<open>common/concurrentqueue.h\<close> that maps a thread to its producer: a chain of
  tables with linear probing, the newest first, each at least twice as large as the one behind it.
  A thread that is found in an older table is copied to the newest.  The queue with this table
  behaves as the queue of \<open>Concurrent_Queue\<close>, which searches its producers for the owner.
\<close>

section \<open>Tables\<close>

definition invalid_thread_id :: tid where "invalid_thread_id = 0"

definition INITIAL_IMPLICIT_PRODUCER_HASH_SIZE :: u64 where "INITIAL_IMPLICIT_PRODUCER_HASH_SIZE = 32"

definition hash_thread_id :: "tid \<Rightarrow> u64" where "hash_thread_id t = hash_64 t"

text \<open>
  A producer is referred to by its number in the order of creation, which stands for its address;
  \<open>None\<close> is the null pointer.
\<close>

record ImplicitProducerKVP =
  kv_key :: tid
  kv_value :: "nat option"

record ImplicitProducerHash =
  ht_capacity :: u64
  ht_entries :: "u64 \<Rightarrow> ImplicitProducerKVP"

definition new_hash :: "u64 \<Rightarrow> ImplicitProducerHash" where
  "new_hash c = \<lparr>ht_capacity = c, ht_entries = (\<lambda>_. \<lparr>kv_key = invalid_thread_id, kv_value = None\<rparr>)\<rparr>"

text \<open>The search in one table: \<open>Some None\<close> when it meets a free slot first, \<open>None\<close> when it never ends.\<close>

partial_function (option) probe :: "ImplicitProducerHash \<Rightarrow> tid \<Rightarrow> u64 \<Rightarrow> u64 option option" where
  "probe h t index0 =
     (let index = index0 AND (ht_capacity h - 1); probedKey = kv_key (ht_entries h index)
      in if probedKey = t then Some (Some index)
         else if probedKey = invalid_thread_id then Some None
         else probe h t (index + 1))"

text \<open>The search for a free slot, and storing the thread and its producer there.\<close>

partial_function (option) claim :: "ImplicitProducerHash \<Rightarrow> tid \<Rightarrow> nat option \<Rightarrow> u64 \<Rightarrow> ImplicitProducerHash option" where
  "claim h t v index0 =
     (let index = index0 AND (ht_capacity h - 1); probedKey = kv_key (ht_entries h index)
      in if probedKey = invalid_thread_id
         then Some (h\<lparr>ht_entries := (ht_entries h)(index := \<lparr>kv_key = t, kv_value = v\<rparr>)\<rparr>)
         else claim h t v (index + 1))"

text \<open>The search through the chain; the flag tells whether the table is the newest.\<close>

fun find_producer :: "bool \<Rightarrow> ImplicitProducerHash list \<Rightarrow> tid \<Rightarrow> (bool \<times> nat option) option option" where
  "find_producer main [] t = Some None"
| "find_producer main (h # prev) t =
     Option.bind (probe h t (hash_thread_id t)) (\<lambda>r. case r of
       Some index \<Rightarrow> Some (Some (main, kv_value (ht_entries h index)))
     | None \<Rightarrow> find_producer False prev t)"

partial_function (option) grow_capacity :: "u64 \<Rightarrow> u64 \<Rightarrow> u64 option" where
  "grow_capacity newCount newCapacity =
     (if newCount \<ge> drop_bit 1 newCapacity then grow_capacity newCount (push_bit 1 newCapacity) else Some newCapacity)"

section \<open>The queue with its table\<close>

record 'a hash_queue =
  implicitProducerHash :: "ImplicitProducerHash list"
  implicitProducerHashCount :: u64
  producerList :: "'a ConcurrentQueue"

definition new_hash_queue :: "'a hash_queue" where
  "new_hash_queue = \<lparr>implicitProducerHash = [new_hash INITIAL_IMPLICIT_PRODUCER_HASH_SIZE],
     implicitProducerHashCount = 0, producerList = new_queue\<rparr>"

text \<open>
  The insertion loop.  \<open>hash_ok\<close> and \<open>prod_ok\<close> tell whether the two allocations succeed; the result
  is \<open>None\<close> for a null pointer.  No other thread resizes at the same time, so the lock is free.
\<close>

definition insert_here ::
    "bool \<Rightarrow> tid \<Rightarrow> u64 \<Rightarrow> 'a hash_queue \<Rightarrow> (nat option \<times> 'a hash_queue) option" where
  "insert_here prod_ok t newCount q =
     (if \<not> prod_ok then Some (None, q\<lparr>implicitProducerHashCount := newCount - 1\<rparr>)
      else
        let r = length (producerList q); q1 = q\<lparr>producerList := add_producer t (producerList q)\<rparr>
        in Option.bind (claim (hd (implicitProducerHash q)) t (Some r) (hash_thread_id t)) (\<lambda>h.
             Some (Some r, q1\<lparr>implicitProducerHash := h # tl (implicitProducerHash q)\<rparr>)))"

partial_function (option) insert_loop ::
    "bool \<Rightarrow> bool \<Rightarrow> tid \<Rightarrow> u64 \<Rightarrow> 'a hash_queue \<Rightarrow> (nat option \<times> 'a hash_queue) option" where
  "insert_loop hash_ok prod_ok t newCount q =
     (let cap = ht_capacity (hd (implicitProducerHash q))
      in if newCount \<ge> drop_bit 1 cap then
           Option.bind (grow_capacity newCount (push_bit 1 cap)) (\<lambda>newCapacity.
             if \<not> hash_ok then Some (None, q\<lparr>implicitProducerHashCount := newCount - 1\<rparr>)
             else
               let q1 = q\<lparr>implicitProducerHash := new_hash newCapacity # implicitProducerHash q\<rparr>
               in if newCount < drop_bit 1 newCapacity + drop_bit 2 newCapacity
                  then insert_here prod_ok t newCount q1
                  else insert_loop hash_ok prod_ok t newCount q1)
         else if newCount < drop_bit 1 cap + drop_bit 2 cap then insert_here prod_ok t newCount q
         else insert_loop hash_ok prod_ok t newCount q)"

definition hash_get_or_add ::
    "bool \<Rightarrow> bool \<Rightarrow> tid \<Rightarrow> 'a hash_queue \<Rightarrow> (nat option \<times> 'a hash_queue) option" where
  "hash_get_or_add hash_ok prod_ok t q =
     Option.bind (find_producer True (implicitProducerHash q) t) (\<lambda>f. case f of
       Some (True, v) \<Rightarrow> Some (v, q)
     | Some (False, v) \<Rightarrow>
         Option.bind (claim (hd (implicitProducerHash q)) t v (hash_thread_id t)) (\<lambda>h.
           Some (v, q\<lparr>implicitProducerHash := h # tl (implicitProducerHash q)\<rparr>))
     | None \<Rightarrow>
         let newCount = 1 + implicitProducerHashCount q
         in insert_loop hash_ok prod_ok t newCount (q\<lparr>implicitProducerHashCount := newCount\<rparr>))"

text \<open>\<open>inner_enqueue\<close>: enqueue on the producer that was found, which is \<open>r\<close> places from the oldest.\<close>

definition hash_enqueue :: "tid \<Rightarrow> 'a \<Rightarrow> 'a hash_queue \<Rightarrow> (bool \<times> 'a hash_queue) option" where
  "hash_enqueue t x q =
     Option.bind (hash_get_or_add True True t q) (\<lambda>(v, q1). case v of
       None \<Rightarrow> Some (False, q1)
     | Some r \<Rightarrow>
         let i = length (producerList q1) - 1 - r
         in case producer_enqueue x (producerList q1 ! i) of
              (ok, p) \<Rightarrow> Some (ok, q1\<lparr>producerList := (producerList q1)[i := p]\<rparr>))"

section \<open>Probing\<close>

definition slot :: "nat \<Rightarrow> u64 \<Rightarrow> nat \<Rightarrow> u64" where
  "slot k a n = take_bit k (a + of_nat n)"

lemma slot_mask: "a AND (2 ^ k - 1) = slot k a 0"
  by (simp add: slot_def flip: mask_eq_exp_minus_1 take_bit_eq_mask)

lemma take_bit_add_left: "take_bit k (take_bit k a + b) = take_bit k (a + b :: u64)"
  by transfer (simp add: take_bit_take_bit mod_simps take_bit_eq_mod flip: power_add)

lemma slot_next: "slot k (slot k a 0 + 1) n = slot k a (Suc n)"
  using take_bit_add_left [of k a "1 + of_nat n"] by (simp add: slot_def add.assoc)

lemma slot_reaches: "take_bit k i = i \<Longrightarrow> \<exists>n. slot k a n = i"
proof -
  assume i: "take_bit k i = i"
  have "take_bit k (a + take_bit k (i - a)) = i"
    using take_bit_add_left [of k "i - a" a] i by (simp add: add.commute)
  then have "slot k a (unat (take_bit k (i - a))) = i" by (simp add: slot_def)
  then show ?thesis ..
qed

text \<open>The first slot that stops a search decides its result.\<close>

lemma probe_stops:
  assumes "ht_capacity h = 2 ^ k" and "\<forall>m < n. kv_key (ht_entries h (slot k a m)) \<notin> {0, t}"
    and "kv_key (ht_entries h (slot k a n)) \<in> {0, t}" and "t \<noteq> 0"
  shows "probe h t a = Some (if kv_key (ht_entries h (slot k a n)) = t then Some (slot k a n) else None)"
  using assms(2,3)
proof (induction n arbitrary: a)
  case 0
  then show ?case
    using assms(4) by (subst probe.simps) (auto simp: assms(1) slot_mask Let_def invalid_thread_id_def)
next
  case (Suc n)
  have "probe h t a = probe h t (slot k a 0 + 1)"
    using Suc.prems(1) by (subst probe.simps) (auto simp: assms(1) slot_mask Let_def invalid_thread_id_def)
  also have "\<dots> = Some (if kv_key (ht_entries h (slot k a (Suc n))) = t then Some (slot k a (Suc n)) else None)"
    using Suc.IH [of "slot k a 0 + 1"] Suc.prems by (simp add: slot_next)
  finally show ?case .
qed

lemma claim_stops:
  assumes "ht_capacity h = 2 ^ k" and "\<forall>m < n. kv_key (ht_entries h (slot k a m)) \<noteq> 0"
    and "kv_key (ht_entries h (slot k a n)) = 0"
  shows "claim h t v a = Some (h\<lparr>ht_entries := (ht_entries h)(slot k a n := \<lparr>kv_key = t, kv_value = v\<rparr>)\<rparr>)"
  using assms(2,3)
proof (induction n arbitrary: a)
  case 0
  then show ?case
    by (subst claim.simps) (auto simp: assms(1) slot_mask Let_def invalid_thread_id_def)
next
  case (Suc n)
  have "claim h t v a = claim h t v (slot k a 0 + 1)"
    using Suc.prems(1) by (subst claim.simps) (auto simp: assms(1) slot_mask Let_def invalid_thread_id_def)
  also have "\<dots> = Some (h\<lparr>ht_entries := (ht_entries h)(slot k a (Suc n) := \<lparr>kv_key = t, kv_value = v\<rparr>)\<rparr>)"
    using Suc.IH [of "slot k a 0 + 1"] Suc.prems by (simp add: slot_next fun_upd_def)
  finally show ?case .
qed

section \<open>A table is a finite map\<close>

definition used :: "ImplicitProducerHash \<Rightarrow> u64 set" where
  "used h = {i. i < ht_capacity h \<and> kv_key (ht_entries h i) \<noteq> 0}"

definition contents :: "ImplicitProducerHash \<Rightarrow> (tid \<times> nat option) set" where
  "contents h = (\<lambda>i. (kv_key (ht_entries h i), kv_value (ht_entries h i))) ` used h"

text \<open>
  The capacity is a power of two, every stored thread is met by its own search before anything
  that would stop it, and one slot is free.
\<close>

definition on_path :: "nat \<Rightarrow> ImplicitProducerHash \<Rightarrow> u64 \<Rightarrow> bool" where
  "on_path k h i \<longleftrightarrow> (\<exists>n. i = slot k (hash_thread_id (kv_key (ht_entries h i))) n
     \<and> (\<forall>m < n. kv_key (ht_entries h (slot k (hash_thread_id (kv_key (ht_entries h i))) m))
           \<notin> {0, kv_key (ht_entries h i)}))"

definition table_ok :: "ImplicitProducerHash \<Rightarrow> bool" where
  "table_ok h \<longleftrightarrow> (\<exists>k. 0 < k \<and> k < 64 \<and> ht_capacity h = 2 ^ k \<and> (\<forall>i \<in> used h. on_path k h i))
     \<and> card (fst ` contents h) < unat (ht_capacity h)"

lemma two_power_64: "k < 64 \<Longrightarrow> (2 :: nat) ^ k < 2 ^ 64"
  by (rule power_strict_increasing) simp_all

lemma unat_two_power [simp]: "k < 64 \<Longrightarrow> unat (2 ^ k :: u64) = 2 ^ k"
  using unat_of_nat [where 'a = 64, of "2 ^ k"] two_power_64 [of k] by simp

lemma card_below: "k < 64 \<Longrightarrow> card {i :: u64. i < 2 ^ k} = 2 ^ k"
proof -
  assume k: "k < 64"
  have "bij_betw (unat :: u64 \<Rightarrow> nat) {i. i < 2 ^ k} {..<2 ^ k}"
  proof (rule bij_betw_byWitness [where f' = of_nat])
    show "\<forall>a' \<in> {..<2 ^ k}. unat (of_nat a' :: u64) = a'"
      using two_power_64 [OF k] by (auto simp: unat_of_nat intro!: mod_less)
    then show "(of_nat :: nat \<Rightarrow> u64) ` {..<2 ^ k} \<subseteq> {i. i < 2 ^ k}"
      using k by (auto simp: word_less_nat_alt)
  qed (use k in \<open>auto simp: word_less_nat_alt\<close>)
  then show ?thesis using bij_betw_same_card by fastforce
qed

lemma slot_less: "k < 64 \<Longrightarrow> slot k a n < 2 ^ k"
  by (simp add: slot_def word_less_nat_alt unsigned_take_bit_eq)

lemma take_bit_below: "k < 64 \<Longrightarrow> i < 2 ^ k \<Longrightarrow> take_bit k i = (i :: u64)"
  unfolding word_unat_eq_iff by (simp add: word_less_nat_alt take_bit_nat_eq_self unsigned_take_bit_eq)

lemma table_okE:
  assumes "table_ok h"
  obtains k where "0 < k" "k < 64" "ht_capacity h = 2 ^ k" "card (fst ` contents h) < 2 ^ k"
    "\<forall>i \<in> used h. on_path k h i"
  using assms by (auto simp: table_ok_def)

lemma used_iff: "ht_capacity h = 2 ^ k \<Longrightarrow> i \<in> used h \<longleftrightarrow> i < 2 ^ k \<and> kv_key (ht_entries h i) \<noteq> 0"
  by (simp add: used_def)

text \<open>No thread is stored twice.\<close>

lemma keys_unique:
  assumes "table_ok h" and "i \<in> used h" and "j \<in> used h" and "kv_key (ht_entries h i) = kv_key (ht_entries h j)"
  shows "i = j"
proof -
  let ?t = "kv_key (ht_entries h i)"
  obtain k where path: "\<forall>i \<in> used h. on_path k h i" using assms(1) by (rule table_okE)
  obtain n where n: "i = slot k (hash_thread_id ?t) n"
    "\<forall>m < n. kv_key (ht_entries h (slot k (hash_thread_id ?t) m)) \<noteq> ?t"
    using path assms(2) unfolding on_path_def by blast
  obtain n' where n': "j = slot k (hash_thread_id ?t) n'"
    "\<forall>m < n'. kv_key (ht_entries h (slot k (hash_thread_id ?t) m)) \<noteq> ?t"
    using path assms(3) unfolding on_path_def assms(4) by blast
  have "\<not> n < n'" "\<not> n' < n" using n n' assms(4) by metis+
  then show ?thesis using n(1) n'(1) by (metis nat_neq_iff)
qed

lemma keys_used: "fst ` contents h = (\<lambda>i. kv_key (ht_entries h i)) ` used h"
  by (auto simp: contents_def image_image)

lemma free_slot:
  assumes "table_ok h" and "ht_capacity h = 2 ^ k" and "k < 64"
  shows "\<exists>n. kv_key (ht_entries h (slot k a n)) = 0"
proof -
  have "inj_on (\<lambda>i. kv_key (ht_entries h i)) (used h)" by (rule inj_onI) (rule keys_unique [OF assms(1)])
  then have "card (used h) < 2 ^ k" using assms by (simp add: table_ok_def keys_used card_image)
  then have "used h \<noteq> {i. i < 2 ^ k}" using card_below [OF assms(3)] by (metis less_irrefl)
  then obtain i where "i < 2 ^ k" "kv_key (ht_entries h i) = 0" using assms(2) by (auto simp: used_def)
  moreover from this obtain n where "slot k a n = i" using slot_reaches [OF take_bit_below [OF assms(3)]] by blast
  ultimately show ?thesis by blast
qed

lemma not_stored: "t \<notin> fst ` contents h \<Longrightarrow> t \<noteq> 0 \<Longrightarrow> ht_capacity h = 2 ^ k \<Longrightarrow> k < 64 \<Longrightarrow>
    kv_key (ht_entries h (slot k a n)) \<noteq> t"
  using slot_less [of k a n] used_iff [of h k "slot k a n"] by (auto simp: keys_used)

lemma first_free:
  assumes "table_ok h" and "ht_capacity h = 2 ^ k" and "k < 64"
  obtains n where "kv_key (ht_entries h (slot k a n)) = 0" "\<forall>m < n. kv_key (ht_entries h (slot k a m)) \<noteq> 0"
  using free_slot [OF assms] exists_least_iff [of "\<lambda>n. kv_key (ht_entries h (slot k a n)) = 0"] by blast

lemma probe_stored:
  assumes "table_ok h" and "t \<noteq> 0" and "t \<in> fst ` contents h"
  obtains i where "probe h t (hash_thread_id t) = Some (Some i)" "(t, kv_value (ht_entries h i)) \<in> contents h"
proof -
  obtain k where k: "ht_capacity h = 2 ^ k" "\<forall>i \<in> used h. on_path k h i" using assms(1) by (rule table_okE)
  obtain i where i: "i \<in> used h" "kv_key (ht_entries h i) = t" using assms(3) by (auto simp: keys_used)
  obtain n where n: "i = slot k (hash_thread_id t) n"
    "\<forall>m < n. kv_key (ht_entries h (slot k (hash_thread_id t) m)) \<notin> {0, t}"
    using k(2) i unfolding on_path_def by blast
  have "probe h t (hash_thread_id t) = Some (Some i)"
    using probe_stops [OF k(1) n(2)] n(1) i(2) assms(2) by auto
  moreover have "(t, kv_value (ht_entries h i)) \<in> contents h" using i by (auto simp: contents_def)
  ultimately show ?thesis by (rule that)
qed

lemma probe_absent:
  assumes "table_ok h" and "t \<noteq> 0" and "t \<notin> fst ` contents h"
  shows "probe h t (hash_thread_id t) = Some None"
proof -
  obtain k where k: "k < 64" "ht_capacity h = 2 ^ k" using assms(1) by (rule table_okE)
  obtain n where n: "kv_key (ht_entries h (slot k (hash_thread_id t) n)) = 0"
    "\<forall>m < n. kv_key (ht_entries h (slot k (hash_thread_id t) m)) \<noteq> 0"
    by (rule first_free [OF assms(1) k(2,1)])
  then show ?thesis
    using probe_stops [OF k(2), of n "hash_thread_id t" t] not_stored [OF assms(3,2) k(2,1)] assms(2) by auto
qed

text \<open>Storing a new thread adds it and keeps every search intact.\<close>

lemma claim_adds:
  assumes "table_ok h" and "t \<noteq> 0" and "t \<notin> fst ` contents h"
    and "card (insert t (fst ` contents h)) < unat (ht_capacity h)"
  obtains h' where "claim h t v (hash_thread_id t) = Some h'" "table_ok h'" "ht_capacity h' = ht_capacity h"
    "contents h' = insert (t, v) (contents h)"
proof -
  obtain k where k: "0 < k" "k < 64" "ht_capacity h = 2 ^ k" "\<forall>i \<in> used h. on_path k h i"
    using assms(1) by (rule table_okE)
  obtain n where n: "kv_key (ht_entries h (slot k (hash_thread_id t) n)) = 0"
    "\<forall>m < n. kv_key (ht_entries h (slot k (hash_thread_id t) m)) \<noteq> 0"
    by (rule first_free [OF assms(1) k(3,2)])
  let ?s = "slot k (hash_thread_id t) n"
  let ?h = "h\<lparr>ht_entries := (ht_entries h)(?s := \<lparr>kv_key = t, kv_value = v\<rparr>)\<rparr>"
  have used: "used ?h = insert ?s (used h)" "?s \<notin> used h"
    using assms(2) k(3) slot_less [OF k(2)] n(1) by (auto simp: used_def)
  have "contents ?h = insert (t, v) ((\<lambda>i. (kv_key (ht_entries ?h i), kv_value (ht_entries ?h i))) ` used h)"
    unfolding contents_def used(1) by simp
  also have "\<dots> = insert (t, v) (contents h)" using used(2) unfolding contents_def by (intro arg_cong [where f = "insert (t, v)"] image_cong) auto
  finally have c: "contents ?h = insert (t, v) (contents h)" .
  have "on_path k ?h i" if i: "i \<in> used h" for i
  proof -
    let ?a = "hash_thread_id (kv_key (ht_entries h i))"
    have "on_path k h i" using k(4) i by blast
    then obtain m where m: "i = slot k ?a m" "\<forall>j < m. kv_key (ht_entries h (slot k ?a j)) \<notin> {0, kv_key (ht_entries h i)}"
      unfolding on_path_def by blast
    have same: "ht_entries ?h i = ht_entries h i" using i used(2) by auto
    have "kv_key (ht_entries ?h (slot k ?a j)) \<notin> {0, kv_key (ht_entries h i)}" if "j < m" for j
    proof -
      have j: "kv_key (ht_entries h (slot k ?a j)) \<notin> {0, kv_key (ht_entries h i)}" using m(2) that by blast
      then have "slot k ?a j \<noteq> ?s" using n(1) by (metis insertI1)
      then show ?thesis using j by simp
    qed
    then show ?thesis unfolding on_path_def same using m(1) by blast
  qed
  moreover have "on_path k ?h ?s"
  proof -
    have "kv_key (ht_entries ?h (slot k (hash_thread_id t) m)) \<notin> {0, t}" if "m < n" for m
    proof -
      have "kv_key (ht_entries h (slot k (hash_thread_id t) m)) \<noteq> 0" using n(2) that by blast
      moreover from this have "slot k (hash_thread_id t) m \<noteq> ?s" using n(1) by metis
      ultimately show ?thesis using not_stored [OF assms(3,2) k(3,2)] by simp
    qed
    then show ?thesis unfolding on_path_def by (intro exI [of _ n]) simp
  qed
  moreover have "card (fst ` contents ?h) < unat (ht_capacity ?h)" using assms(4) by (simp add: c)
  ultimately have "table_ok ?h" using k(1-3) used(1) by (auto simp: table_ok_def)
  then show ?thesis using that claim_stops [OF k(3) n(2,1), of t v] c by simp
qed

lemma new_hash_ok: "0 < k \<Longrightarrow> k < 64 \<Longrightarrow> table_ok (new_hash (2 ^ k))" "contents (new_hash c) = {}"
  by (auto simp: table_ok_def new_hash_def used_def contents_def invalid_thread_id_def)

section \<open>The chain of tables\<close>

lemma find_older:
  assumes "\<forall>h \<in> set hs. table_ok h" and "t \<noteq> 0"
  shows "find_producer False hs t = Some None \<and> (\<forall>h \<in> set hs. t \<notin> fst ` contents h)
    \<or> (\<exists>v. find_producer False hs t = Some (Some (False, v)) \<and> (\<exists>h \<in> set hs. (t, v) \<in> contents h))"
  using assms(1)
proof (induction hs)
  case (Cons h hs)
  then have h: "table_ok h" by simp
  show ?case
  proof (cases "t \<in> fst ` contents h")
    case True
    then obtain i where "probe h t (hash_thread_id t) = Some (Some i)" "(t, kv_value (ht_entries h i)) \<in> contents h"
      by (rule probe_stored [OF h assms(2)])
    then show ?thesis by auto
  next
    case False
    then show ?thesis using probe_absent [OF h assms(2)] Cons by auto
  qed
qed simp

text \<open>
  The tables name the producers: every entry leads to the producer its thread owns, every owner is
  in some table, and the newest is less than half full.
\<close>

definition hash_ok :: "ImplicitProducerHash list \<Rightarrow> 'a ConcurrentQueue \<Rightarrow> bool" where
  "hash_ok hs ps \<longleftrightarrow> hs \<noteq> [] \<and> (\<forall>h \<in> set hs. table_ok h)
     \<and> (\<forall>h \<in> set hs. \<forall>(t, v) \<in> contents h. \<exists>r < length ps. v = Some r \<and> owner (rev ps ! r) = t)
     \<and> (\<forall>p \<in> set ps. owner p \<noteq> 0 \<and> (\<exists>h \<in> set hs. owner p \<in> fst ` contents h))
     \<and> length ps < unat (ht_capacity (hd hs)) div 2"

definition hash_queue_ok :: "'a hash_queue \<Rightarrow> bool" where
  "hash_queue_ok q \<longleftrightarrow> wf_queue (producerList q) \<and> hash_ok (implicitProducerHash q) (producerList q)
     \<and> implicitProducerHashCount q = of_nat (length (producerList q))"

lemma hash_ok_entry:
  "hash_ok hs ps \<Longrightarrow> h \<in> set hs \<Longrightarrow> (t, v) \<in> contents h \<Longrightarrow> \<exists>r < length ps. v = Some r \<and> owner (rev ps ! r) = t"
  unfolding hash_ok_def by blast

lemma hash_ok_keys: "hash_ok hs ps \<Longrightarrow> h \<in> set hs \<Longrightarrow> fst ` contents h \<subseteq> owner ` set ps"
proof
  fix t assume ok: "hash_ok hs ps" "h \<in> set hs" and "t \<in> fst ` contents h"
  then obtain v where "(t, v) \<in> contents h" by auto
  then obtain r where "r < length ps" "owner (rev ps ! r) = t" using hash_ok_entry [OF ok] by blast
  then show "t \<in> owner ` set ps" by (metis image_eqI length_rev nth_mem set_rev)
qed

lemma hash_ok_owner: "hash_ok hs ps \<Longrightarrow> p \<in> set ps \<Longrightarrow> owner p \<noteq> 0 \<and> (\<exists>h \<in> set hs. owner p \<in> fst ` contents h)"
  unfolding hash_ok_def by blast

text \<open>Storing a thread in the newest table, for a list of producers that may have grown by one.\<close>

lemma claim_main:
  assumes "hash_ok hs ps" and "t \<noteq> 0" and "t \<notin> fst ` contents (hd hs)"
    and "length qs < unat (ht_capacity (hd hs)) div 2"
    and "\<forall>r < length ps. r < length qs \<and> owner (rev qs ! r) = owner (rev ps ! r)"
    and "r < length qs" and "owner (rev qs ! r) = t" and "owner ` set qs = insert t (owner ` set ps)"
  obtains h where "claim (hd hs) t (Some r) (hash_thread_id t) = Some h" and "hash_ok (h # tl hs) qs"
proof -
  from assms(1) obtain h0 hs' where hs: "hs = h0 # hs'" by (cases hs) (auto simp: hash_ok_def)
  have "insert t (fst ` contents h0) \<subseteq> owner ` set qs" using hash_ok_keys [OF assms(1), of h0] assms(8) hs by auto
  then have "card (insert t (fst ` contents h0)) \<le> length qs"
    by (meson List.finite_set card_image_le card_length card_mono finite_imageI le_trans)
  then have card: "card (insert t (fst ` contents h0)) < unat (ht_capacity h0)" using assms(4) hs by simp
  have "table_ok h0" using assms(1) hs by (simp add: hash_ok_def)
  then obtain h where h: "claim h0 t (Some r) (hash_thread_id t) = Some h" "table_ok h" "ht_capacity h = ht_capacity h0"
    "contents h = insert (t, Some r) (contents h0)"
    using claim_adds [OF _ assms(2) _ card, of "Some r"] assms(3) hs by auto
  have entry: "\<exists>r' < length qs. v = Some r' \<and> owner (rev qs ! r') = t'" if "(t', v) \<in> contents g" "g \<in> set hs" for g t' v
    using hash_ok_entry [OF assms(1) that(2,1)] assms(5) by auto
  have own: "u \<noteq> 0 \<and> (\<exists>g \<in> set (h # hs'). u \<in> fst ` contents g)" if "u \<in> owner ` set qs" for u
    using that hash_ok_owner [OF assms(1)] assms(2,8) h(4) hs by auto
  have "hash_ok (h # hs') qs"
    unfolding hash_ok_def using h assms(1,4,6,7) entry own hs by (auto simp: hash_ok_def)
  then show ?thesis using that h(1) hs by simp
qed

lemma hash_ok_grow:
  assumes "hash_ok hs ps" and "0 < k" and "k < 64" and "length ps < 2 ^ k div 2"
  shows "hash_ok (new_hash (2 ^ k) # hs) ps"
  using assms new_hash_ok by (auto simp: hash_ok_def new_hash_def [of "2 ^ k"] split_beta) (auto simp: new_hash_def contents_def)

lemma drop_bit_word: "unat (drop_bit n (c :: u64)) = unat c div 2 ^ n"
  unfolding unat_drop_bit_eq by (rule drop_bit_eq_div)

lemma below_three_quarters:
  assumes "n < drop_bit 1 (c :: u64)"
  shows "n < drop_bit 1 c + drop_bit 2 c"
proof -
  have "unat c < 2 ^ 64" using unsigned_less [of c, where 'a = nat] by simp
  then have "unat (drop_bit 1 c) + unat (drop_bit 2 c) < 2 ^ 64" by (simp add: drop_bit_word)
  then have "unat (drop_bit 1 c + drop_bit 2 c) = unat (drop_bit 1 c) + unat (drop_bit 2 c)"
    using unat_add_lem [where 'a = 64, of "drop_bit 1 c" "drop_bit 2 c"] by simp
  then show ?thesis using assms by (simp add: word_less_nat_alt)
qed

lemma insert_here_adds:
  assumes "hash_ok (implicitProducerHash q) (producerList q)" and "t \<noteq> 0" and "t \<notin> owner ` set (producerList q)"
    and "Suc (length (producerList q)) < unat (ht_capacity (hd (implicitProducerHash q))) div 2"
  shows "\<exists>hs. insert_here True t n q = Some (Some (length (producerList q)),
      q\<lparr>producerList := add_producer t (producerList q), implicitProducerHash := hs\<rparr>)
    \<and> hash_ok hs (add_producer t (producerList q))"
proof -
  let ?ps = "producerList q"
  have "t \<notin> fst ` contents (hd (implicitProducerHash q))"
    using assms(1,3) hash_ok_keys [OF assms(1), of "hd (implicitProducerHash q)"] by (auto simp: hash_ok_def)
  then obtain h where "claim (hd (implicitProducerHash q)) t (Some (length ?ps)) (hash_thread_id t) = Some h"
    "hash_ok (h # tl (implicitProducerHash q)) (add_producer t ?ps)"
    using claim_main [OF assms(1,2), of "add_producer t ?ps" "length ?ps"] assms(4)
    by (auto simp: add_producer_def new_producer_def nth_append)
  then show ?thesis by (auto simp: insert_here_def Let_def)
qed

lemma insert_loop_adds:
  fixes q :: "'a hash_queue"
  assumes "hash_ok (implicitProducerHash q) (producerList q)" and "t \<noteq> 0" and "t \<notin> owner ` set (producerList q)"
    and "Suc (length (producerList q)) < 2 ^ 61"
  shows "\<exists>hs. insert_loop True True t (of_nat (Suc (length (producerList q)))) q = Some (Some (length (producerList q)),
      q\<lparr>producerList := add_producer t (producerList q), implicitProducerHash := hs\<rparr>)
    \<and> hash_ok hs (add_producer t (producerList q))"
proof -
  let ?n = "Suc (length (producerList q))" and ?hs = "implicitProducerHash q"
  let ?c = "ht_capacity (hd ?hs)"
  have n: "unat (of_nat ?n :: u64) = ?n" using assms(4) by (simp only: unat_of_nat) simp
  have "table_ok (hd ?hs)" using assms(1) by (simp add: hash_ok_def)
  then obtain k where k: "0 < k" "k < 64" "?c = 2 ^ k" by (rule table_okE)
  show ?thesis
  proof (cases "?n < unat ?c div 2")
    case True
    then have less: "of_nat ?n < drop_bit 1 ?c" by (simp only: word_less_nat_alt n drop_bit_word) simp
    then have "\<not> drop_bit 1 ?c \<le> of_nat ?n" by (simp add: not_le del: of_nat_Suc)
    then have "insert_loop True True t (of_nat ?n) q = insert_here True t (of_nat ?n) q"
      using below_three_quarters [OF less] by (subst insert_loop.simps) (simp add: Let_def del: of_nat_Suc)
    then show ?thesis using insert_here_adds [OF assms(1-3) True] by simp
  next
    case False
    let ?q = "q\<lparr>implicitProducerHash := new_hash (2 ^ Suc k) # ?hs\<rparr>"
    obtain j where j: "k = Suc j" using k(1) by (cases k) auto
    have c: "unat ?c div 2 = 2 ^ j" unfolding k(3) unat_two_power [OF k(2)] by (simp add: j)
    then have half: "length (producerList q) < 2 ^ j" using assms(1) by (simp add: hash_ok_def)
    have "\<not> 61 \<le> j" using False c assms(4) power_increasing [of 61 j "2 :: nat"] by auto
    then have k': "Suc k < 64" using j by simp
    have cap: "?c * 2 = 2 ^ Suc k" using k by simp
    have less: "of_nat ?n < drop_bit 1 (2 ^ Suc k :: u64)"
      using half k' j by (simp only: word_less_nat_alt n drop_bit_word unat_two_power) simp
    have ok: "hash_ok (implicitProducerHash ?q) (producerList ?q)"
      using hash_ok_grow [OF assms(1) _ k'] half j by simp
    have big: "Suc (length (producerList ?q)) < unat (ht_capacity (hd (implicitProducerHash ?q))) div 2"
      using half k' j by (simp add: new_hash_def del: power_Suc) simp
    have "drop_bit 1 ?c \<le> of_nat ?n" using False by (simp only: word_le_nat_alt n drop_bit_word) simp
    moreover have "grow_capacity (of_nat ?n) (2 ^ Suc k) = Some (2 ^ Suc k)"
      using less by (subst grow_capacity.simps) (auto simp: not_le [symmetric] simp del: power_Suc of_nat_Suc)
    ultimately have "insert_loop True True t (of_nat ?n) q = insert_here True t (of_nat ?n) ?q"
      using below_three_quarters [OF less] by (subst insert_loop.simps) (simp add: Let_def cap del: power_Suc of_nat_Suc)
    then show ?thesis using insert_here_adds [OF ok assms(2) _ big] assms(3) by (simp del: of_nat_Suc)
  qed
qed

lemma hash_get_or_add_refines:
  fixes q :: "'a hash_queue"
  assumes "hash_queue_ok q" and "t \<noteq> 0" and "Suc (length (producerList q)) < 2 ^ 61"
  shows "\<exists>r q'. hash_get_or_add True True t q = Some (Some r, q') \<and> hash_queue_ok q'
    \<and> producerList q' = get_or_add_implicit_producer t (producerList q)
    \<and> r < length (producerList q') \<and> owner (rev (producerList q') ! r) = t"
proof -
  let ?ps = "producerList q" and ?hs = "implicitProducerHash q"
  have wf: "wf_queue ?ps" and ok: "hash_ok ?hs ?ps" and cnt: "implicitProducerHashCount q = of_nat (length ?ps)"
    using assms(1) by (simp_all add: hash_queue_ok_def)
  obtain h hs where hs: "?hs = h # hs" "table_ok h" "\<forall>h \<in> set hs. table_ok h"
    using ok by (cases ?hs) (auto simp: hash_ok_def)
  have known: "get_or_add_implicit_producer t ?ps = ?ps" if "r < length ?ps" "owner (rev ?ps ! r) = t" for r
    using that nth_mem [of r "rev ?ps"] by (auto simp: get_or_add_implicit_producer_def)
  show ?thesis
  proof (cases "t \<in> fst ` contents h")
    case True
    then obtain i where i: "probe h t (hash_thread_id t) = Some (Some i)" "(t, kv_value (ht_entries h i)) \<in> contents h"
      by (rule probe_stored [OF hs(2) assms(2)])
    then obtain r where r: "r < length ?ps" "kv_value (ht_entries h i) = Some r" "owner (rev ?ps ! r) = t"
      using hash_ok_entry [OF ok _ i(2)] hs(1) by auto
    then show ?thesis using i(1) known [OF r(1,3)] assms(1) hs(1) by (simp add: hash_get_or_add_def)
  next
    case False
    note miss = probe_absent [OF hs(2) assms(2) False]
    from find_older [OF hs(3) assms(2)] show ?thesis
    proof (elim disjE conjE exE bexE)
      fix v g assume f: "find_producer False hs t = Some (Some (False, v))" and g: "g \<in> set hs" "(t, v) \<in> contents g"
      obtain r where r: "r < length ?ps" "v = Some r" "owner (rev ?ps ! r) = t"
        using hash_ok_entry [OF ok _ g(2)] g(1) hs(1) by auto
      moreover have "owner ` set ?ps = insert t (owner ` set ?ps)"
        using r(1,3) nth_mem [of r "rev ?ps"] by auto
      moreover have "length ?ps < unat (ht_capacity (hd ?hs)) div 2" using ok by (simp add: hash_ok_def)
      ultimately obtain h' where h': "claim h t (Some r) (hash_thread_id t) = Some h'" "hash_ok (h' # hs) ?ps"
        using claim_main [OF ok assms(2), of ?ps r] False hs(1) by auto
      have "hash_get_or_add True True t q = Some (Some r, q\<lparr>implicitProducerHash := h' # hs\<rparr>)"
        using miss f h'(1) r(2) hs(1) by (simp add: hash_get_or_add_def)
      then show ?thesis using h'(2) known [OF r(1,3)] r wf cnt by (simp add: hash_queue_ok_def)
    next
      assume f: "find_producer False hs t = Some None" and none: "\<forall>h \<in> set hs. t \<notin> fst ` contents h"
      have new: "t \<notin> owner ` set ?ps"
      proof
        assume "t \<in> owner ` set ?ps"
        then obtain g where "g \<in> set ?hs" "t \<in> fst ` contents g" using hash_ok_owner [OF ok] by blast
        then show False using none False hs(1) by auto
      qed
      let ?q = "q\<lparr>implicitProducerHashCount := of_nat (Suc (length ?ps))\<rparr>"
      have "hash_get_or_add True True t q = insert_loop True True t (of_nat (Suc (length ?ps))) ?q"
        using miss f hs(1) cnt by (simp add: hash_get_or_add_def Let_def)
      then obtain hs' where "hash_get_or_add True True t q = Some (Some (length ?ps),
          ?q\<lparr>producerList := add_producer t ?ps, implicitProducerHash := hs'\<rparr>)" "hash_ok hs' (add_producer t ?ps)"
        using insert_loop_adds [of ?q t] ok assms(2,3) new by auto
      moreover have g: "get_or_add_implicit_producer t ?ps = add_producer t ?ps"
        using new by (auto simp: get_or_add_implicit_producer_def)
      moreover have "wf_queue (add_producer t ?ps)" using add_producer_wf(1) [OF wf, of t] unfolding g .
      ultimately show ?thesis
        by (auto simp: hash_queue_ok_def add_producer_def new_producer_def nth_append)
    qed
  qed
qed

section \<open>Refinement\<close>

lemma hash_ok_owners:
  assumes "map owner ps = map owner qs" and "hash_ok hs ps"
  shows "hash_ok hs qs"
proof -
  have len: "length ps = length qs" using arg_cong [OF assms(1), of length] by simp
  have own: "owner (rev ps ! r) = owner (rev qs ! r)" if "r < length qs" for r
  proof -
    have "map owner (rev ps) ! r = map owner (rev qs) ! r" unfolding rev_map [symmetric] assms(1) ..
    then show ?thesis using that len by simp
  qed
  have set: "owner ` set qs = owner ` set ps" using arg_cong [OF assms(1), of set] by simp
  have "owner p \<noteq> 0 \<and> (\<exists>h \<in> set hs. owner p \<in> fst ` contents h)" if "p \<in> set qs" for p
  proof -
    have "owner p \<in> owner ` set ps" using that set by blast
    then obtain p' where "p' \<in> set ps" "owner p' = owner p" by auto
    then show ?thesis using hash_ok_owner [OF assms(2), of p'] by simp
  qed
  moreover have "\<exists>r < length qs. snd x = Some r \<and> owner (rev qs ! r) = fst x" if h: "h \<in> set hs" and x: "x \<in> contents h" for h x
  proof -
    obtain r where r: "r < length ps" "snd x = Some r" "owner (rev ps ! r) = fst x"
      using hash_ok_entry [OF assms(2) h, of "fst x" "snd x"] x by auto
    then have "r < length qs" using len by simp
    then show ?thesis using r own by auto
  qed
  moreover have "hs \<noteq> []" "\<forall>h \<in> set hs. table_ok h" "length qs < unat (ht_capacity (hd hs)) div 2"
    using assms(2) len by (simp_all add: hash_ok_def)
  ultimately show ?thesis unfolding hash_ok_def split_beta by blast
qed

lemma on_producer_index:
  assumes "distinct (map owner ps)" and "i < length ps" and "owner (ps ! i) = t"
  shows "on_producer t f ps = (case f (ps ! i) of (ok, p) \<Rightarrow> (ok, ps[i := p]))"
  using assms
proof (induction ps arbitrary: i)
  case (Cons p ps)
  show ?case
  proof (cases i)
    case (Suc j)
    then have "owner p \<noteq> t" using Cons.prems nth_mem [of j ps] by auto
    then show ?thesis using Cons.IH [of j] Cons.prems Suc by (auto split: prod.splits)
  qed (use Cons.prems in \<open>auto split: prod.splits\<close>)
qed simp

lemma producer_enqueue_owner: "producer_enqueue x p = (ok, p') \<Longrightarrow> owner p' = owner p"
  by (auto simp: producer_enqueue_def Let_def split: if_splits)

lemma hash_enqueue_refines:
  fixes q :: "'a hash_queue"
  assumes "hash_queue_ok q" and "t \<noteq> 0" and "Suc (length (producerList q)) < 2 ^ 61"
  shows "\<exists>ok q'. hash_enqueue t x q = Some (ok, q') \<and> hash_queue_ok q'
    \<and> enqueue t x (producerList q) = (ok, producerList q') \<and> length (producerList q') \<le> Suc (length (producerList q))"
proof -
  obtain r q1 where r: "hash_get_or_add True True t q = Some (Some r, q1)" "hash_queue_ok q1"
    "producerList q1 = get_or_add_implicit_producer t (producerList q)"
    "r < length (producerList q1)" "owner (rev (producerList q1) ! r) = t"
    using hash_get_or_add_refines [OF assms] by blast
  let ?ps = "producerList q1" and ?i = "length (producerList q1) - 1 - r"
  obtain ok p where p: "producer_enqueue x (?ps ! ?i) = (ok, p)" by fastforce
  have i: "?i < length ?ps" "owner (?ps ! ?i) = t" using r(4,5) by (auto simp: rev_nth)
  have wf: "wf_queue ?ps" and ok1: "hash_ok (implicitProducerHash q1) ?ps"
    and cnt: "implicitProducerHashCount q1 = of_nat (length ?ps)" using r(2) by (simp_all add: hash_queue_ok_def)
  have e: "enqueue t x (producerList q) = (ok, ?ps[?i := p])"
    using on_producer_index [OF _ i, of "producer_enqueue x"] wf p by (simp add: enqueue_def r(3) wf_queue_def)
  moreover have "wf_queue (?ps[?i := p])"
    using enqueue_any [OF _ e] assms(1) by (simp add: hash_queue_ok_def)
  moreover have "map owner (?ps[?i := p]) = map owner ?ps"
    using producer_enqueue_owner [OF p] i(1) by (simp add: map_update list_update_same_conv)
  ultimately show ?thesis
    using r(1,3) p hash_ok_owners [OF _ ok1, of "?ps[?i := p]"] cnt
    by (auto simp: hash_enqueue_def hash_queue_ok_def Let_def get_or_add_implicit_producer_def add_producer_def)
qed

text \<open>
  Operations as data, for the contract \<open>simulation\<close> of \<open>Iwarp_Prelude\<close>.
\<close>

datatype 'a queue_op = Enqueue tid 'a | Dequeue
datatype 'a queue_result = Enqueued bool | Dequeued "'a option"

fun hash_step :: "'a queue_op \<Rightarrow> 'a hash_queue \<Rightarrow> ('a queue_result \<times> 'a hash_queue) option" where
  "hash_step (Enqueue t x) q = Option.bind (hash_enqueue t x q) (\<lambda>(ok, q'). Some (Enqueued ok, q'))"
| "hash_step Dequeue q = (case try_dequeue (producerList q) of (r, ps) \<Rightarrow> Some (Dequeued r, q\<lparr>producerList := ps\<rparr>))"

fun queue_step :: "'a queue_op \<Rightarrow> 'a ConcurrentQueue \<Rightarrow> 'a queue_result \<times> 'a ConcurrentQueue" where
  "queue_step (Enqueue t x) q = (case enqueue t x q of (ok, q') \<Rightarrow> (Enqueued ok, q'))"
| "queue_step Dequeue q = (case try_dequeue q of (r, q') \<Rightarrow> (Dequeued r, q'))"

definition valid_op :: "'a queue_op \<Rightarrow> bool" where
  "valid_op op = (case op of Enqueue t x \<Rightarrow> t \<noteq> invalid_thread_id | Dequeue \<Rightarrow> True)"

interpretation hash_sim: simulation hash_step queue_step producerList valid_op
  "\<lambda>n q. hash_queue_ok q \<and> length (producerList q) + n < 2 ^ 61"
proof
  fix n and c :: "'a hash_queue" and op :: "'a queue_op"
  assume c: "hash_queue_ok c \<and> length (producerList c) + Suc n < 2 ^ 61" and v: "valid_op op"
  show "\<exists>r c'. hash_step op c = Some (r, c') \<and> (hash_queue_ok c' \<and> length (producerList c') + n < 2 ^ 61)
      \<and> queue_step op (producerList c) = (r, producerList c')"
  proof (cases op)
    case (Enqueue t x)
    then show ?thesis
      using hash_enqueue_refines [of c t x] c v by (force simp: valid_op_def invalid_thread_id_def)
  next
    case Dequeue
    have wf: "wf_queue (producerList c)" using c by (simp add: hash_queue_ok_def)
    obtain r ps where r: "try_dequeue (producerList c) = (r, ps)" by fastforce
    have "wf_queue ps \<and> map owner ps = map owner (producerList c)"
    proof (cases "queue_items (producerList c) = []")
      case True
      then show ?thesis using try_dequeue_empty [OF wf] r wf by simp
    next
      case False
      obtain i x xs p where "i < length (producerList c)" "try_dequeue (producerList c) = (Some x, (producerList c)[i := p])"
        "wf_producer p" "owner p = owner (producerList c ! i)"
        by (rule try_dequeue_some [OF wf False])
      then show ?thesis using wf_queue_update [OF wf, of i p] r by (simp add: map_update list_update_same_conv)
    qed
    moreover from this have "length (producerList c) = length ps" by (metis length_map)
    ultimately show ?thesis
      using Dequeue r c hash_ok_owners [of "producerList c" ps] by (simp add: hash_queue_ok_def)
  qed
qed

lemma new_hash_queue_ok: "hash_queue_ok new_hash_queue"
proof -
  have "table_ok (new_hash (2 ^ 5))" by (rule new_hash_ok) simp_all
  then show ?thesis
    using new_hash_ok(2) by (simp add: hash_queue_ok_def new_hash_queue_def hash_ok_def wf_queue_def new_queue_def
        INITIAL_IMPLICIT_PRODUCER_HASH_SIZE_def) (simp add: new_hash_def)
qed

section \<open>Property\<close>

text \<open>
  C14. The hash table is invisible.  For every sequence of enqueues by threads with valid ids and of
  dequeues, shorter than \<open>2 ^ 61\<close>, every search in the tables ends, and the results and the
  producers are those of the queue that looks for the owner in its list of producers.
\<close>

theorem producer_hash_refines_owner_search:
  fixes ops :: "'a queue_op list"
  assumes "length ops < 2 ^ 61" and "\<forall>op \<in> set ops. valid_op op"
  shows "\<exists>q. run_partial hash_step ops new_hash_queue = Some (fst (run_total queue_step ops new_queue), q)
    \<and> producerList q = snd (run_total queue_step ops new_queue)"
proof -
  let ?q = "new_hash_queue :: 'a hash_queue"
  have start: "producerList ?q = new_queue" "length (producerList ?q) = 0"
    by (simp_all add: new_hash_queue_def new_queue_def)
  then have "hash_queue_ok ?q \<and> length (producerList ?q) + length ops < 2 ^ 61"
    using assms(1) by (simp add: new_hash_queue_ok)
  from hash_sim.run_simulates [OF this assms(2)] show ?thesis unfolding start(1) by auto
qed

theorem producer_hash_refines_owner_search_witness:
  "\<exists>q. run_partial hash_step [Enqueue 7 True, Enqueue 39 False, Dequeue] new_hash_queue =
     Some (fst (run_total queue_step [Enqueue 7 True, Enqueue 39 False, Dequeue] new_queue), q)"
  using producer_hash_refines_owner_search [of "[Enqueue 7 True, Enqueue 39 False, Dequeue]"]
  by (auto simp: valid_op_def invalid_thread_id_def)

end
