(* ===== verification/Dequeue_Interleaving.thy ===== *)
theory Dequeue_Interleaving
  imports Concurrent_Queue
begin

text \<open>
  \<open>ImplicitProducer::enqueue\<close> and \<open>ImplicitProducer::dequeue\<close> of \<open>common/concurrentqueue.h\<close>, one
  atomic operation at a time.  One thread enqueues and any number of threads dequeue; a thread
  is the point it has reached in its call together with its local variables, and a step is one
  access to a shared variable with the local computation behind it.  Memory is sequentially
  consistent.  A schedule says which thread moves next, so a statement about every schedule is
  one about every interleaving.
\<close>

named_theorems interleave_simps

section \<open>The two calls as sequences of atomic steps\<close>

text \<open>
  \<open>EnqStore x tail\<close>: the element has a cell and is about to be constructed there;
  \<open>EnqPublish x tail\<close>: the new tail index is about to be stored.
\<close>

datatype 'a enq_pc = EnqIdle | EnqStore 'a u64 | EnqPublish 'a u64

text \<open>
  The points of \<open>dequeue\<close>: the tail loaded; the overcommit loaded too; the first test passed;
  a dequeue number claimed; the second test passed or failed; the element's index known.
\<close>

datatype deq_pc = DeqIdle | DeqTail u64 | DeqOver u64 u64 | DeqClaim u64 | DeqCheck u64 u64
  | DeqWon u64 | DeqLost u64 | DeqRead u64

text \<open>
  The history variables list what was enqueued, in the order of publication, and what the
  dequeues read, \<open>None\<close> standing for a cell in which no element lives.
\<close>

record 'a system =
  shared :: "'a producer"
  enq_at :: "'a enq_pc"
  deq_at :: "nat \<Rightarrow> deq_pc"
  enqueued :: "'a list"
  dequeued :: "'a option list"

fun enq_step :: "'a \<Rightarrow> 'a system \<Rightarrow> 'a system" where
  "enq_step x s =
     (let p = shared s in
      case enq_at s of
        EnqIdle \<Rightarrow>
          if tailIndex p AND (BLOCK_SIZE - 1) = 0
             \<and> \<not> circular_less_than (headIndex p) (tailIndex p + BLOCK_SIZE)
          then s else s\<lparr>enq_at := EnqStore x (tailIndex p)\<rparr>
      | EnqStore y tail \<Rightarrow>
          s\<lparr>shared := p\<lparr>cells := (cells p)(tail := Some y)\<rparr>, enq_at := EnqPublish y tail\<rparr>
      | EnqPublish y tail \<Rightarrow>
          s\<lparr>shared := p\<lparr>tailIndex := 1 + tail\<rparr>, enq_at := EnqIdle, enqueued := enqueued s @ [y]\<rparr>)"

definition goto :: "nat \<Rightarrow> deq_pc \<Rightarrow> 'a system \<Rightarrow> 'a system" where
  "goto t pc s = s\<lparr>deq_at := (deq_at s)(t := pc)\<rparr>"

fun deq_step :: "nat \<Rightarrow> 'a system \<Rightarrow> 'a system" where
  "deq_step t s =
     (let p = shared s in
      case deq_at s t of
        DeqIdle \<Rightarrow> goto t (DeqTail (tailIndex p)) s
      | DeqTail tail \<Rightarrow> goto t (DeqOver tail (dequeueOvercommit p)) s
      | DeqOver tail overcommit \<Rightarrow>
          goto t (if circular_less_than (dequeueOptimisticCount p - overcommit) tail
                  then DeqClaim overcommit else DeqIdle) s
      | DeqClaim overcommit \<Rightarrow>
          goto t (DeqCheck overcommit (dequeueOptimisticCount p))
            (s\<lparr>shared := p\<lparr>dequeueOptimisticCount := dequeueOptimisticCount p + 1\<rparr>\<rparr>)
      | DeqCheck overcommit myDequeueCount \<Rightarrow>
          goto t (if circular_less_than (myDequeueCount - overcommit) (tailIndex p)
                  then DeqWon myDequeueCount else DeqLost myDequeueCount) s
      | DeqWon myDequeueCount \<Rightarrow>
          goto t (DeqRead (headIndex p)) (s\<lparr>shared := p\<lparr>headIndex := headIndex p + 1\<rparr>\<rparr>)
      | DeqLost myDequeueCount \<Rightarrow>
          goto t DeqIdle (s\<lparr>shared := p\<lparr>dequeueOvercommit := dequeueOvercommit p + 1\<rparr>\<rparr>)
      | DeqRead index \<Rightarrow>
          goto t DeqIdle (s\<lparr>shared := p\<lparr>cells := (cells p)(index := None)\<rparr>,
                            dequeued := dequeued s @ [cells p index]\<rparr>))"

text \<open>\<open>Produce x\<close>: the enqueuing thread moves, \<open>x\<close> being its next element if it is between two calls.\<close>

datatype 'a turn = Produce 'a | Consume nat

fun move :: "'a turn \<Rightarrow> 'a system \<Rightarrow> 'a system" where
  "move (Produce x) s = enq_step x s"
| "move (Consume t) s = deq_step t s"

definition interleave :: "'a turn list \<Rightarrow> 'a system \<Rightarrow> 'a system" where
  "interleave ms s = fold move ms s"

definition start_system :: "tid \<Rightarrow> 'a system" where
  "start_system t = \<lparr>shared = new_producer t, enq_at = EnqIdle, deq_at = (\<lambda>_. DeqIdle), enqueued = [],
     dequeued = []\<rparr>"

definition quiescent :: "'a system \<Rightarrow> bool" where
  "quiescent s \<longleftrightarrow> enq_at s = EnqIdle \<and> (\<forall>t. deq_at s t = DeqIdle)"

lemmas step_defs = enq_step.simps deq_step.simps goto_def Let_def

section \<open>The invariant\<close>

text \<open>
  The dequeue number a thread has claimed and not yet settled.  Claims are settled into \<open>Hd\<close>,
  those that advanced the head index, and \<open>F\<close>, those counted by the overcommit.
\<close>

fun claim :: "deq_pc \<Rightarrow> nat option" where
  "claim (DeqCheck overcommit my) = Some (unat my)"
| "claim (DeqWon my) = Some (unat my)"
| "claim (DeqLost my) = Some (unat my)"
| "claim _ = None"

text \<open>A claim may take an element when enough smaller claims have failed.\<close>

definition covered :: "nat set \<Rightarrow> nat \<Rightarrow> nat \<Rightarrow> bool" where
  "covered F T m \<longleftrightarrow> (\<exists>A. A \<subseteq> F \<inter> {..<m} \<and> m < card A + T)"

text \<open>What a thread knows of the failed claims when it has loaded the overcommit.\<close>

fun knows :: "nat set \<Rightarrow> nat \<Rightarrow> deq_pc \<Rightarrow> bool" where
  "knows F T (DeqOver tail v) \<longleftrightarrow> (\<exists>A \<subseteq> F. card A = unat v)"
| "knows F T (DeqClaim v) \<longleftrightarrow> (\<exists>A \<subseteq> F. card A = unat v)"
| "knows F T (DeqCheck v my) \<longleftrightarrow> (\<exists>A \<subseteq> F \<inter> {..<unat my}. card A = unat v)"
| "knows F T (DeqWon my) \<longleftrightarrow> covered F T (unat my)"
| "knows F T _ \<longleftrightarrow> True"

text \<open>\<open>X\<close> are the indices that have been read, in the order of the reads.\<close>

definition claims_inv :: "nat set \<Rightarrow> nat set \<Rightarrow> nat \<Rightarrow> nat \<Rightarrow> (nat \<Rightarrow> deq_pc) \<Rightarrow> bool" where
  "claims_inv Hd F D T pc \<longleftrightarrow>
     Hd \<inter> F = {} \<and> {..<D} = Hd \<union> F \<union> {m. \<exists>t. claim (pc t) = Some m}
     \<and> (\<forall>t m. claim (pc t) = Some m \<longrightarrow> m \<notin> Hd \<union> F)
     \<and> (\<forall>t u m. claim (pc t) = Some m \<and> claim (pc u) = Some m \<longrightarrow> t = u)
     \<and> (\<forall>t. knows F T (pc t)) \<and> (\<forall>m \<in> Hd. covered F T m)"

definition cells_inv ::
    "nat list \<Rightarrow> nat \<Rightarrow> 'a list \<Rightarrow> (nat \<Rightarrow> deq_pc) \<Rightarrow> 'a option list \<Rightarrow> 'a enq_pc \<Rightarrow> (u64 \<Rightarrow> 'a option) \<Rightarrow> bool" where
  "cells_inv X H E pc R en c \<longleftrightarrow>
     distinct X \<and> set X \<union> {i. \<exists>t. pc t = DeqRead (of_nat i) \<and> i < H} = {..<H}
     \<and> (\<forall>t w. pc t = DeqRead w \<longrightarrow> unat w < H \<and> unat w \<notin> set X)
     \<and> (\<forall>t u w. pc t = DeqRead w \<and> pc u = DeqRead w \<longrightarrow> t = u)
     \<and> R = map (\<lambda>i. Some (E ! i)) X
     \<and> (\<forall>i < length E. i \<notin> set X \<longrightarrow> c (of_nat i) = Some (E ! i))
     \<and> (\<forall>x w. en = EnqStore x w \<longrightarrow> w = of_nat (length E))
     \<and> (\<forall>x w. en = EnqPublish x w \<longrightarrow> w = of_nat (length E) \<and> c w = Some x)"

definition sys_inv :: "nat \<Rightarrow> nat set \<Rightarrow> nat set \<Rightarrow> nat list \<Rightarrow> nat \<Rightarrow> 'a system \<Rightarrow> bool" where
  "sys_inv n Hd F X D s \<longleftrightarrow>
     claims_inv Hd F D (length (enqueued s)) (deq_at s)
     \<and> cells_inv X (card Hd) (enqueued s) (deq_at s) (dequeued s) (enq_at s) (cells (shared s))
     \<and> card Hd \<le> length (enqueued s) \<and> D \<le> n \<and> length (enqueued s) \<le> n
     \<and> tailIndex (shared s) = of_nat (length (enqueued s)) \<and> headIndex (shared s) = of_nat (card Hd)
     \<and> dequeueOptimisticCount (shared s) = of_nat D \<and> dequeueOvercommit (shared s) = of_nat (card F)"

lemma sys_inv_start: "sys_inv 0 {} {} [] 0 (start_system t)"
  by (simp add: sys_inv_def claims_inv_def cells_inv_def start_system_def new_producer_def)

lemma covered_mono: "covered F T m \<Longrightarrow> F \<subseteq> F' \<Longrightarrow> T \<le> T' \<Longrightarrow> covered F' T' m"
  unfolding covered_def by (meson Int_mono add_left_mono less_le_trans order_refl subset_trans)

lemma knows_mono: "knows F T pc \<Longrightarrow> F \<subseteq> F' \<Longrightarrow> T \<le> T' \<Longrightarrow> knows F' T' pc"
  by (cases pc; simp; (rule covered_mono; assumption | meson Int_mono order_refl subset_trans))

text \<open>The heart: the claims that may take an element are no more than the elements.\<close>

lemma covered_card:
  assumes "finite S" and "S \<inter> F = {}" and "\<forall>m \<in> S. covered F T m"
  shows "card S \<le> T"
proof (cases "S = {}")
  case False
  then have m: "Max S \<in> S" using assms(1) by simp
  then obtain A where A: "A \<subseteq> F \<inter> {..<Max S}" "Max S < card A + T"
    using assms(3) unfolding covered_def by blast
  have "S \<union> A \<subseteq> {..Max S}" using A(1) assms(1) by auto
  then have "card (S \<union> A) \<le> Suc (Max S)" by (metis card_atMost card_mono finite_atMost)
  moreover have "card (S \<union> A) = card S + card A"
    using A(1) assms(1,2) by (intro card_Un_disjoint) (auto intro: finite_subset)
  ultimately show ?thesis using A(2) by simp
qed simp

lemma circular_less_than_small:
  assumes "unat a < 2 ^ 63" and "unat b < 2 ^ 63"
  shows "circular_less_than a b \<longleftrightarrow> unat a < unat b"
proof (cases "a \<le> b")
  case True
  then show ?thesis using assms
    by (simp add: circular_less_than_iff unat_sub word_le_nat_alt) linarith
next
  case False
  then have "unat (b - a) = 2 ^ 64 + unat b - unat a"
    by (simp add: unat_sub_if_size word_size word_le_nat_alt)
  then show ?thesis using assms False by (simp add: circular_less_than_iff word_le_nat_alt)
qed

section \<open>Preservation of the invariant on the claims\<close>

lemma claims_same:
  "claims_inv Hd F D T pc \<Longrightarrow> claim q = claim (pc t) \<Longrightarrow> knows F T q \<Longrightarrow> claims_inv Hd F D T (pc(t := q))"
proof -
  assume inv: "claims_inv Hd F D T pc" and q: "claim q = claim (pc t)" "knows F T q"
  have "claim ((pc(t := q)) u) = claim (pc u)" for u using q(1) by simp
  then show ?thesis using inv q(2) unfolding claims_inv_def by simp
qed

lemma claims_bound:
  "claims_inv Hd F D T pc \<Longrightarrow> Hd \<subseteq> {..<D} \<and> F \<subseteq> {..<D} \<and> (claim (pc t) = Some m \<longrightarrow> m < D \<and> m \<notin> Hd \<and> m \<notin> F)"
  unfolding claims_inv_def by blast

lemma claims_new:
  assumes "claims_inv Hd F D T pc" and "pc t = DeqClaim v" and "D < 2 ^ 64"
  shows "claims_inv Hd F (Suc D) T (pc(t := DeqCheck v (of_nat D)))"
proof -
  have none: "claim (pc t) = None" using assms(2) by simp
  have un: "unat (of_nat D :: u64) = D" using assms(3) by (simp add: unat_of_nat_u64)
  have "knows F T (pc t)" using assms(1) unfolding claims_inv_def by blast
  then obtain A where A: "A \<subseteq> F" "card A = unat v" using assms(2) by auto
  have b: "Hd \<subseteq> {..<D}" "F \<subseteq> {..<D}" using claims_bound [OF assms(1)] by auto
  have "knows F T (DeqCheck v (of_nat D))" using A b un by auto
  moreover have "{m. \<exists>u. claim ((pc(t := DeqCheck v (of_nat D))) u) = Some m}
    = insert D {m. \<exists>u. claim (pc u) = Some m}"
    using none un by (auto split: if_splits) (metis option.distinct(1))
  moreover have "D \<notin> Hd \<union> F" using b by auto
  moreover have "claim (pc u) \<noteq> Some D" for u using claims_bound [OF assms(1), of u D] by blast
  ultimately show ?thesis
    using assms(1) un unfolding claims_inv_def by (auto simp: lessThan_Suc)
qed

lemma claims_win:
  assumes "claims_inv Hd F D T pc" and "pc t = DeqWon my"
  shows "claims_inv (insert (unat my) Hd) F D T (pc(t := DeqRead w))"
proof -
  have c: "claim (pc t) = Some (unat my)" using assms(2) by simp
  have "covered F T (unat my)" using assms unfolding claims_inv_def by (metis knows.simps(4))
  moreover have "{m. \<exists>u. claim (pc u) = Some m}
      = insert (unat my) {m. \<exists>u. claim ((pc(t := DeqRead w)) u) = Some m}"
    using c by (auto split: if_splits) (metis option.inject)
  ultimately show ?thesis
    using assms(1) c unfolding claims_inv_def by (auto split: if_splits)
qed

lemma claims_lose:
  assumes "claims_inv Hd F D T pc" and "pc t = DeqLost my"
  shows "claims_inv Hd (insert (unat my) F) D T (pc(t := DeqIdle))"
proof -
  have c: "claim (pc t) = Some (unat my)" using assms(2) by simp
  have "\<forall>u. knows (insert (unat my) F) T (pc u)" and "\<forall>m \<in> Hd. covered (insert (unat my) F) T m"
    using assms(1) unfolding claims_inv_def by (blast intro: knows_mono covered_mono)+
  moreover have "{m. \<exists>u. claim (pc u) = Some m}
      = insert (unat my) {m. \<exists>u. claim ((pc(t := DeqIdle)) u) = Some m}"
    using c by (auto split: if_splits) (metis option.inject)
  ultimately show ?thesis
    using assms(1) c unfolding claims_inv_def by (auto split: if_splits)
qed

lemma claims_mono: "claims_inv Hd F D T pc \<Longrightarrow> T \<le> T' \<Longrightarrow> claims_inv Hd F D T' pc"
  unfolding claims_inv_def by (blast intro: knows_mono covered_mono)

text \<open>A claim that has won still finds an element: the head is behind the tail.\<close>

lemma claims_room:
  assumes "claims_inv Hd F D T pc" and "pc t = DeqWon my"
  shows "card Hd < T" and "unat my \<notin> Hd" and "finite Hd"
proof -
  show fin: "finite Hd" using claims_bound [OF assms(1)] finite_subset by blast
  show nin: "unat my \<notin> Hd" using claims_bound [OF assms(1), of t "unat my"] assms(2) by simp
  have "claims_inv (insert (unat my) Hd) F D T (pc(t := DeqRead 0))" by (rule claims_win [OF assms])
  then have "card (insert (unat my) Hd) \<le> T"
    using fin unfolding claims_inv_def by (intro covered_card [where F = F]) auto
  then show "card Hd < T" using fin nin by simp
qed

section \<open>Preservation of the invariant on the cells\<close>

fun reads :: "deq_pc \<Rightarrow> bool" where
  "reads (DeqRead w) = True"
| "reads _ = False"

lemma cells_same:
  "cells_inv X H E pc R en c \<Longrightarrow> \<not> reads (pc t) \<Longrightarrow> \<not> reads q \<Longrightarrow> cells_inv X H E (pc(t := q)) R en c"
proof -
  assume inv: "cells_inv X H E pc R en c" and q: "\<not> reads (pc t)" "\<not> reads q"
  have "(pc(t := q)) u = DeqRead w \<longleftrightarrow> pc u = DeqRead w" for u w using q by (cases "u = t") auto
  then show ?thesis using inv unfolding cells_inv_def by simp
qed

lemma cells_invD:
  assumes "cells_inv X H E pc R en c"
  shows "distinct X" and "set X \<union> {i. \<exists>t. pc t = DeqRead (of_nat i) \<and> i < H} = {..<H}"
    and "pc t = DeqRead w \<Longrightarrow> unat w < H \<and> unat w \<notin> set X"
    and "pc t = DeqRead w \<Longrightarrow> pc u = DeqRead w \<Longrightarrow> t = u"
    and "R = map (\<lambda>i. Some (E ! i)) X" and "i < length E \<Longrightarrow> i \<notin> set X \<Longrightarrow> c (of_nat i) = Some (E ! i)"
    and "en = EnqStore x w \<Longrightarrow> w = of_nat (length E)"
    and "en = EnqPublish x w \<Longrightarrow> w = of_nat (length E) \<and> c w = Some x"
  using assms unfolding cells_inv_def by blast+

lemma cells_invI:
  assumes "distinct X" and "set X \<union> {i. \<exists>t. pc t = DeqRead (of_nat i) \<and> i < H} = {..<H}"
    and "\<And>t w. pc t = DeqRead w \<Longrightarrow> unat w < H \<and> unat w \<notin> set X"
    and "\<And>t u w. pc t = DeqRead w \<Longrightarrow> pc u = DeqRead w \<Longrightarrow> t = u"
    and "R = map (\<lambda>i. Some (E ! i)) X"
    and "\<And>i. i < length E \<Longrightarrow> i \<notin> set X \<Longrightarrow> c (of_nat i) = Some (E ! i)"
    and "\<And>x w. en = EnqStore x w \<Longrightarrow> w = of_nat (length E)"
    and "\<And>x w. en = EnqPublish x w \<Longrightarrow> w = of_nat (length E) \<and> c w = Some x"
  shows "cells_inv X H E pc R en c"
  unfolding cells_inv_def using assms by blast

lemma cells_advance:
  assumes inv: "cells_inv X H E pc R en c" and q: "\<not> reads (pc t)" and "H < length E" and "length E < 2 ^ 64"
  shows "cells_inv X (Suc H) E (pc(t := DeqRead (of_nat H))) R en c"
proof (rule cells_invI)
  let ?pc = "pc(t := DeqRead (of_nat H))"
  have upd: "?pc u = DeqRead w \<longleftrightarrow> (if u = t then w = of_nat H else pc u = DeqRead w)" for u w by auto
  have H: "unat (of_nat H :: u64) = H" using assms(3,4) by (intro unat_of_nat_u64) simp
  have X: "H \<notin> set X" using cells_invD(2) [OF inv] by blast
  have sub: "\<exists>u. ?pc u = DeqRead (of_nat i)" if "i < Suc H" "i \<notin> set X" for i
  proof (cases "i = H")
    case False
    then have "i \<in> {..<H}" using that(1) by simp
    then have "i \<in> set X \<union> {i. \<exists>u. pc u = DeqRead (of_nat i) \<and> i < H}" unfolding cells_invD(2) [OF inv] .
    then obtain u where "pc u = DeqRead (of_nat i)" using \<open>i \<notin> set X\<close> by blast
    moreover from this have "u \<noteq> t" using q by auto
    ultimately show ?thesis by auto
  qed (auto intro: exI [of _ t])
  show "set X \<union> {i. \<exists>u. ?pc u = DeqRead (of_nat i) \<and> i < Suc H} = {..<Suc H}"
  proof -
    have "set X \<subseteq> {..<H}" using cells_invD(2) [OF inv] by blast
    then have "i \<in> set X \<Longrightarrow> i < Suc H" for i by (auto intro: less_SucI)
    then show ?thesis using sub by blast
  qed
  show "unat w < Suc H \<and> unat w \<notin> set X" if "?pc u = DeqRead w" for u w
    using that cells_invD(3) [OF inv, of u w] H X by (cases "u = t") auto
  show "u = v" if "?pc u = DeqRead w" "?pc v = DeqRead w" for u v w
    using that cells_invD(3) [OF inv, of u w] cells_invD(3) [OF inv, of v w] cells_invD(4) [OF inv, of u w v] H
    by (cases "u = t"; cases "v = t") auto
  show "distinct X" "R = map (\<lambda>i. Some (E ! i)) X" using cells_invD(1,5) [OF inv] by blast+
  show "c (of_nat i) = Some (E ! i)" if "i < length E" "i \<notin> set X" for i
    using cells_invD(6) [OF inv that] .
  show "w = of_nat (length E)" if "en = EnqStore x w" for x w using cells_invD(7) [OF inv that] .
  show "w = of_nat (length E) \<and> c w = Some x" if "en = EnqPublish x w" for x w
    using cells_invD(8) [OF inv that] .
qed

lemma cells_read:
  assumes inv: "cells_inv X H E pc R en c" and pc: "pc t = DeqRead w" and "H \<le> length E" and "length E < 2 ^ 64"
  shows "cells_inv (X @ [unat w]) H E (pc(t := DeqIdle)) (R @ [c w]) en (c(w := None))"
proof (rule cells_invI)
  let ?pc = "pc(t := DeqIdle)"
  have upd: "?pc u = DeqRead v \<longleftrightarrow> u \<noteq> t \<and> pc u = DeqRead v" for u v by auto
  have w: "unat w < H" "unat w \<notin> set X" using cells_invD(3) [OF inv pc] by auto
  have cw: "c w = Some (E ! unat w)"
    using cells_invD(6) [OF inv, of "unat w"] w assms(3) by simp
  have other: "v \<noteq> w" if "pc u = DeqRead v" "u \<noteq> t" for u v
    using cells_invD(4) [OF inv, of u w t] that pc by auto
  show "distinct (X @ [unat w])" using cells_invD(1) [OF inv] w by simp
  show "set (X @ [unat w]) \<union> {i. \<exists>u. ?pc u = DeqRead (of_nat i) \<and> i < H} = {..<H}"
  proof -
    have "pc u = DeqRead (of_nat i) \<and> i < H \<Longrightarrow> i = unat w \<or> u \<noteq> t" for u i
      using pc assms(3,4) by (auto simp: unat_of_nat_u64)
    then have "i < H \<Longrightarrow> i \<noteq> unat w \<Longrightarrow> i \<notin> set X \<Longrightarrow> \<exists>u. u \<noteq> t \<and> pc u = DeqRead (of_nat i)" for i
      using cells_invD(2) [OF inv] by blast
    then show ?thesis using cells_invD(2) [OF inv] w(1) unfolding upd by auto
  qed
  show "unat v < H \<and> unat v \<notin> set (X @ [unat w])" if "?pc u = DeqRead v" for u v
    using that cells_invD(3) [OF inv, of u v] other [of u v] unfolding upd by (auto dest: unat_u64_inj)
  show "u = v" if "?pc u = DeqRead y" "?pc v = DeqRead y" for u v y
    using that cells_invD(4) [OF inv, of u y v] unfolding upd by blast
  show "R @ [c w] = map (\<lambda>i. Some (E ! i)) (X @ [unat w])" using cells_invD(5) [OF inv] cw by simp
  show "(c(w := None)) (of_nat i) = Some (E ! i)" if "i < length E" "i \<notin> set (X @ [unat w])" for i
    using that cells_invD(6) [OF inv, of i] assms(4) by (auto simp: unat_of_nat_u64)
  have "w \<noteq> of_nat (length E)" using w(1) assms(3,4) by (auto simp: unat_of_nat_u64)
  then show "v = of_nat (length E) \<and> (c(w := None)) v = Some x" if "en = EnqPublish x v" for x v
    using cells_invD(8) [OF inv that] by auto
qed (use cells_invD(7) [OF inv] in auto)

lemma cells_begin:
  "cells_inv X H E pc R en c \<Longrightarrow> cells_inv X H E pc R (EnqStore x (of_nat (length E))) c"
  unfolding cells_inv_def by simp

lemma cells_store:
  "cells_inv X H E pc R (EnqStore x w) c \<Longrightarrow> length E < 2 ^ 64 \<Longrightarrow>
   cells_inv X H E pc R (EnqPublish x w) (c(w := Some x))"
  unfolding cells_inv_def by (auto simp: of_nat_u64_eq)

lemma cells_publish:
  assumes inv: "cells_inv X H E pc R (EnqPublish x w) c" and "H \<le> length E"
  shows "cells_inv X H (E @ [x]) pc R EnqIdle c"
proof -
  have "set X \<subseteq> {..<H}" using inv unfolding cells_inv_def by blast
  then have X: "set X \<subseteq> {..<length E}" using assms(2) by auto
  then have "map (\<lambda>i. Some ((E @ [x]) ! i)) X = map (\<lambda>i. Some (E ! i)) X"
    by (intro map_cong) (auto simp: nth_append)
  then show ?thesis using inv unfolding cells_inv_def by (auto simp: nth_append less_Suc_eq)
qed

section \<open>Every step keeps the invariant\<close>

definition reached :: "nat \<Rightarrow> 'a system \<Rightarrow> bool" where
  "reached n s \<longleftrightarrow> (\<exists>Hd F X D. sys_inv n Hd F X D s)"

lemma sys_inv_small:
  assumes "sys_inv n Hd F X D s" and "n < 2 ^ 62"
  shows "length (enqueued s) < 2 ^ 64" and "D < 2 ^ 64"
  using assms unfolding sys_inv_def by auto

lemma reached_enq:
  assumes "reached n s" and "n < 2 ^ 62"
  shows "reached (Suc n) (enq_step x s)"
proof -
  obtain Hd F X D where inv: "sys_inv n Hd F X D s" using assms(1) unfolding reached_def by blast
  note E = sys_inv_small(1) [OF inv assms(2)]
  have "sys_inv (Suc n) Hd F X D (enq_step x s)"
  proof (cases "enq_at s")
    case EnqIdle
    then show ?thesis using inv cells_begin [where x = x and c = "cells (shared s)" and en = EnqIdle]
      unfolding sys_inv_def by (simp add: Let_def)
  next
    case (EnqStore y w)
    then show ?thesis using inv cells_store [OF _ E, where c = "cells (shared s)"]
      unfolding sys_inv_def by (simp add: Let_def)
  next
    case (EnqPublish y w)
    then have ci: "cells_inv X (card Hd) (enqueued s) (deq_at s) (dequeued s) (EnqPublish y w) (cells (shared s))"
      using inv unfolding sys_inv_def by simp
    have cl: "claims_inv Hd F D (length (enqueued s)) (deq_at s)" and le: "card Hd \<le> length (enqueued s)"
      using inv unfolding sys_inv_def by blast+
    from claims_mono [OF cl] have "claims_inv Hd F D (Suc (length (enqueued s))) (deq_at s)" by simp
    moreover have "1 + w = of_nat (Suc (length (enqueued s)))" using cells_invD(8) [OF ci refl] by simp
    ultimately show ?thesis
      using inv cells_publish [OF ci le] unfolding sys_inv_def by (simp add: Let_def EnqPublish)
  qed
  then show ?thesis unfolding reached_def by blast
qed

lemma sys_inv_goto:
  assumes "sys_inv n Hd F X D s" and "claim q = claim (deq_at s t)"
    and "knows F (length (enqueued s)) q" and "\<not> reads (deq_at s t)" and "\<not> reads q"
  shows "reached (Suc n) (goto t q s)"
proof -
  have "sys_inv (Suc n) Hd F X D (goto t q s)"
    using assms claims_same [of Hd F D _ "deq_at s" q t] cells_same [where c = "cells (shared s)" and pc = "deq_at s" and t = t and q = q]
    unfolding sys_inv_def goto_def by simp
  then show ?thesis unfolding reached_def by blast
qed

lemma sys_inv_knows: "sys_inv n Hd F X D s \<Longrightarrow> knows F (length (enqueued s)) (deq_at s t)"
  unfolding sys_inv_def claims_inv_def by blast

lemma sys_inv_card:
  assumes "sys_inv n Hd F X D s"
  shows "card F \<le> n" and "card Hd \<le> n" and "finite F" and "finite Hd"
proof -
  have b: "Hd \<subseteq> {..<D}" "F \<subseteq> {..<D}" and "D \<le> n"
    using assms claims_bound unfolding sys_inv_def by blast+
  then show "card F \<le> n" "card Hd \<le> n"
    using card_mono [OF finite_lessThan b(1)] card_mono [OF finite_lessThan b(2)] by auto
  show "finite F" "finite Hd" using b finite_subset by blast+
qed

lemma sys_inv_check:
  assumes inv: "sys_inv n Hd F X D s" and pc: "deq_at s t = DeqCheck v my" and "n < 2 ^ 62"
    and "circular_less_than (my - v) (tailIndex (shared s))"
  shows "covered F (length (enqueued s)) (unat my)"
proof -
  obtain A where A: "A \<subseteq> F \<inter> {..<unat my}" "card A = unat v"
    using sys_inv_knows [OF inv, of t] pc by auto
  have "unat v \<le> unat my" using A card_mono [of "{..<unat my}" A] by auto
  moreover have "unat my < D"
    using inv claims_bound [of Hd F D _ "deq_at s" t "unat my"] pc unfolding sys_inv_def by auto
  moreover have "D \<le> n" "length (enqueued s) \<le> n" "tailIndex (shared s) = of_nat (length (enqueued s))"
    using inv unfolding sys_inv_def by auto
  ultimately have "unat my - unat v < length (enqueued s)"
    using assms(3,4) circular_less_than_small [of "my - v" "tailIndex (shared s)"]
    by (simp add: unat_sub word_le_nat_alt unat_of_nat_u64)
  then have "unat my < card A + length (enqueued s)" using A(2) by linarith
  then show ?thesis using A(1) unfolding covered_def by blast
qed

lemma reached_deq:
  assumes "reached n s" and "n < 2 ^ 62"
  shows "reached (Suc n) (deq_step t s)"
proof -
  obtain Hd F X D where inv: "sys_inv n Hd F X D s" using assms(1) unfolding reached_def by blast
  note E = sys_inv_small(1) [OF inv assms(2)] and D = sys_inv_small(2) [OF inv assms(2)]
  note k = sys_inv_knows [OF inv, of t] and go = sys_inv_goto [OF inv]
  have ci: "claims_inv Hd F D (length (enqueued s)) (deq_at s)" using inv unfolding sys_inv_def by blast
  show ?thesis
  proof (cases "deq_at s t")
    case DeqIdle
    then show ?thesis using go by (simp add: step_defs [unfolded goto_def] flip: goto_def)
  next
    case (DeqTail tl)
    have "card F < 2 ^ 64" using sys_inv_card(1) [OF inv] assms(2) by simp
    then have "knows F (length (enqueued s)) (DeqOver tl (dequeueOvercommit (shared s)))"
      using inv unfolding sys_inv_def by (auto simp: unat_of_nat_u64)
    then show ?thesis using DeqTail go by simp
  next
    case (DeqOver tl v)
    then show ?thesis using go k by simp
  next
    case (DeqClaim v)
    have "sys_inv (Suc n) Hd F X (Suc D) (deq_step t s)"
      using inv claims_new [OF ci DeqClaim D] cells_same [where c = "cells (shared s)" and pc = "deq_at s" and t = t] DeqClaim
      unfolding sys_inv_def by (simp add: goto_def add.commute)
    then show ?thesis unfolding reached_def by blast
  next
    case (DeqCheck v my)
    then show ?thesis using go sys_inv_check [OF inv DeqCheck assms(2)] by simp
  next
    case (DeqWon my)
    note room = claims_room [OF ci DeqWon]
    have "sys_inv (Suc n) (insert (unat my) Hd) F X D (deq_step t s)"
      using inv claims_win [OF ci DeqWon] cells_advance [where t = t, OF _ _ room(1) E] DeqWon room
      unfolding sys_inv_def by (simp add: goto_def add.commute)
    then show ?thesis unfolding reached_def by blast
  next
    case (DeqLost my)
    have "unat my \<notin> F" using claims_bound [OF ci, of t "unat my"] DeqLost by simp
    then have "sys_inv (Suc n) Hd (insert (unat my) F) X D (deq_step t s)"
      using inv claims_lose [OF ci DeqLost] cells_same [where c = "cells (shared s)" and pc = "deq_at s" and t = t] DeqLost sys_inv_card(3) [OF inv]
      unfolding sys_inv_def by (simp add: goto_def add.commute)
    then show ?thesis unfolding reached_def by blast
  next
    case (DeqRead w)
    have "sys_inv (Suc n) Hd F (X @ [unat w]) D (deq_step t s)"
      using inv claims_same [OF ci, of DeqIdle t] cells_read [where t = t and pc = "deq_at s" and w = w, OF _ DeqRead _ E] DeqRead
      unfolding sys_inv_def by (simp add: goto_def Let_def)
    then show ?thesis unfolding reached_def by blast
  qed
qed

lemma reached_interleave: "reached n s \<Longrightarrow> n + length ms \<le> 2 ^ 62 \<Longrightarrow> reached (n + length ms) (interleave ms s)"
proof (induction ms arbitrary: n s)
  case (Cons m ms)
  then have "reached (Suc n) (move m s)" by (cases m) (auto intro: reached_enq reached_deq simp del: enq_step.simps deq_step.simps)
  then show ?case using Cons.IH [of "Suc n" "move m s"] Cons.prems(2) by (simp add: interleave_def)
qed (simp add: interleave_def)

lemma reached_start: "length ms \<le> 2 ^ 62 \<Longrightarrow> reached (length ms) (interleave ms (start_system t))"
  using reached_interleave [of 0 "start_system t" ms] sys_inv_start [of t] unfolding reached_def by auto

section \<open>A call that runs alone is the atomic operation\<close>

lemma take_cells_list:
  assumes "\<And>k. k < length xs \<Longrightarrow> c (i + of_nat k) = Some (xs ! k)"
  shows "take_cells c i (length xs) = xs"
proof -
  have "filter (\<lambda>k. c (i + of_nat k) \<noteq> None) [0..<length xs] = [0..<length xs]"
    using assms by (intro filter_True) auto
  moreover have "map (\<lambda>k. the (c (i + of_nat k))) [0..<length xs] = map ((!) xs) [0..<length xs]"
    using assms by (intro map_cong) auto
  ultimately show ?thesis by (simp add: take_cells_def List.map_filter_def o_def map_nth)
qed

lemma mset_prefix:
  assumes "n \<le> length E"
  shows "image_mset (\<lambda>i. Some (E ! i)) (mset [0..<n]) = image_mset Some (mset (take n E))"
proof -
  have "map (\<lambda>i. Some (E ! i)) [0..<n] = map Some (take n E)"
    using assms by (intro nth_equalityI) auto
  then show ?thesis by (metis mset_map)
qed

lemma reached_items:
  assumes "sys_inv n Hd F X D s" and "n < 2 ^ 62" and idle: "\<And>t. deq_at s t = DeqIdle"
  shows "set X = {..<card Hd}" and "D = card Hd + card F"
    and "producer_size (shared s) = length (enqueued s) - card Hd"
    and "producer_items (shared s) = drop (card Hd) (enqueued s)"
proof -
  let ?E = "enqueued s" and ?H = "card Hd"
  have ci: "cells_inv X ?H ?E (deq_at s) (dequeued s) (enq_at s) (cells (shared s))"
    and cl: "claims_inv Hd F D (length ?E) (deq_at s)" and le: "?H \<le> length ?E" "length ?E \<le> n"
    and ix: "tailIndex (shared s) = of_nat (length ?E)" "headIndex (shared s) = of_nat ?H"
    using assms(1) unfolding sys_inv_def by blast+
  show X: "set X = {..<?H}" using cells_invD(2) [OF ci] idle by simp
  have "{..<D} = Hd \<union> F" "Hd \<inter> F = {}" using cl idle unfolding claims_inv_def by auto
  then show "D = ?H + card F"
    using sys_inv_card(3,4) [OF assms(1)] by (metis card_Un_disjoint card_lessThan)
  show size: "producer_size (shared s) = length ?E - ?H"
    using le assms(2) ix by (simp add: producer_size_def unat_of_nat_u64 flip: of_nat_diff)
  have "cells (shared s) (headIndex (shared s) + of_nat k) = Some (drop ?H ?E ! k)" if "k < length ?E - ?H" for k
    using cells_invD(6) [OF ci, of "?H + k"] that X le by (simp add: ix)
  then show "producer_items (shared s) = drop ?H ?E"
    using take_cells_list [of "drop ?H ?E"] unfolding producer_items_def size by simp
qed

lemma deq_step_goto [interleave_simps]:
  "deq_step t (goto t DeqIdle s) = goto t (DeqTail (tailIndex (shared s))) s"
  "deq_step t (goto t (DeqTail tail) s) = goto t (DeqOver tail (dequeueOvercommit (shared s))) s"
  "deq_step t (goto t (DeqOver tail v) s)
     = goto t (if circular_less_than (dequeueOptimisticCount (shared s) - v) tail then DeqClaim v else DeqIdle) s"
  "deq_step t (goto t (DeqClaim v) s) = goto t (DeqCheck v (dequeueOptimisticCount (shared s)))
     (s\<lparr>shared := (shared s)\<lparr>dequeueOptimisticCount := dequeueOptimisticCount (shared s) + 1\<rparr>\<rparr>)"
  "deq_step t (goto t (DeqCheck v my) s)
     = goto t (if circular_less_than (my - v) (tailIndex (shared s)) then DeqWon my else DeqLost my) s"
  "deq_step t (goto t (DeqWon my) s) = goto t (DeqRead (headIndex (shared s)))
     (s\<lparr>shared := (shared s)\<lparr>headIndex := headIndex (shared s) + 1\<rparr>\<rparr>)"
  "deq_step t (goto t (DeqRead w) s) = goto t DeqIdle
     (s\<lparr>shared := (shared s)\<lparr>cells := (cells (shared s))(w := None)\<rparr>,
        dequeued := dequeued s @ [cells (shared s) w]\<rparr>)"
  by (simp_all add: goto_def Let_def)

lemma goto_idle [interleave_simps]: "deq_at s t = DeqIdle \<Longrightarrow> goto t DeqIdle s = s"
  unfolding goto_def by (simp add: fun_upd_idem)

lemma deq_step_alone:
  assumes "deq_at s t = DeqIdle" and "wf_producer (shared s)"
  shows "\<exists>k. (deq_step t ^^ k) s = s\<lparr>shared := snd (producer_dequeue (shared s)),
     dequeued := dequeued s @ map Some (case fst (producer_dequeue (shared s)) of None \<Rightarrow> [] | Some y \<Rightarrow> [y])\<rparr>"
proof -
  let ?p = "shared s" and ?s = "goto t DeqIdle s"
  have wf: "dequeueOptimisticCount ?p - dequeueOvercommit ?p = headIndex ?p"
    using assms(2) unfolding wf_producer_def by blast
  have s: "?s = s" using assms(1) by (rule goto_idle)
  show ?thesis
  proof (cases "circular_less_than (headIndex ?p) (tailIndex ?p)")
    case True
    then have "0 < producer_size ?p" by (simp add: circular_less_than_iff producer_size_def)
    then obtain y where y: "cells ?p (headIndex ?p) = Some y"
      using assms(2) unfolding wf_producer_def by force
    have "(deq_step t ^^ 7) ?s
        = goto t DeqIdle (s\<lparr>shared := snd (producer_dequeue ?p), dequeued := dequeued s @ [Some y]\<rparr>)"
      using True y wf
      by (simp add: numeral_eq_Suc producer_dequeue_def Let_def interleave_simps del: deq_step.simps)
    moreover have "fst (producer_dequeue ?p) = Some y" using True y wf by (simp add: producer_dequeue_def Let_def)
    ultimately show ?thesis using assms(1) unfolding s by (intro exI [of _ 7]) (simp add: goto_idle)
  next
    case False
    then have "(deq_step t ^^ 3) ?s = ?s" and "producer_dequeue ?p = (None, ?p)"
      using wf by (simp_all add: numeral_eq_Suc producer_dequeue_def Let_def interleave_simps del: deq_step.simps)
    then show ?thesis unfolding s by (intro exI [of _ 3]) simp
  qed
qed

lemma enq_step_alone:
  assumes "enq_at s = EnqIdle"
  shows "\<exists>k. (enq_step x ^^ k) s = s\<lparr>shared := snd (producer_enqueue x (shared s)),
     enqueued := enqueued s @ (if fst (producer_enqueue x (shared s)) then [x] else [])\<rparr>"
proof (cases "fst (producer_enqueue x (shared s))")
  case True
  then have "\<not> (tailIndex (shared s) AND (BLOCK_SIZE - 1) = 0
      \<and> \<not> circular_less_than (headIndex (shared s)) (tailIndex (shared s) + BLOCK_SIZE))"
    by (simp add: producer_enqueue_def Let_def split: if_splits)
  then have "(enq_step x ^^ 3) s = s\<lparr>shared := snd (producer_enqueue x (shared s)), enqueued := enqueued s @ [x]\<rparr>"
    using assms by (cases s) (simp only: numeral_eq_Suc funpow.simps o_apply id_apply pred_numeral_simps
      arith_simps BitM.simps enq_step.simps Let_def producer_enqueue_def system.simps if_False snd_conv enq_pc.simps)
  then show ?thesis using True by (intro exI [of _ 3]) simp
next
  case False
  then have "enq_step x s = s" and "snd (producer_enqueue x (shared s)) = shared s"
    using assms by (auto simp: step_defs producer_enqueue_def split: if_splits)
  then show ?thesis using False by (intro exI [of _ 1]) simp
qed

text \<open>An own step of a thread brings the end of its call nearer; no other step changes its place.\<close>

fun steps_left :: "deq_pc \<Rightarrow> nat" where
  "steps_left DeqIdle = 0"
| "steps_left (DeqTail tail) = 6"
| "steps_left (DeqOver tail v) = 5"
| "steps_left (DeqClaim v) = 4"
| "steps_left (DeqCheck v my) = 3"
| "steps_left (DeqWon my) = 2"
| "steps_left (DeqLost my) = 1"
| "steps_left (DeqRead w) = 1"

lemma steps_left_0: "steps_left pc = 0 \<longleftrightarrow> pc = DeqIdle"
  by (cases pc) auto

lemma deq_at_move:
  "deq_at s t \<noteq> DeqIdle \<Longrightarrow> m = Consume t \<Longrightarrow> steps_left (deq_at (move m s) t) < steps_left (deq_at s t)"
  "m \<noteq> Consume t \<Longrightarrow> deq_at (move m s) t = deq_at s t"
proof -
  show "deq_at s t \<noteq> DeqIdle \<Longrightarrow> m = Consume t \<Longrightarrow> steps_left (deq_at (move m s) t) < steps_left (deq_at s t)"
    by (cases "deq_at s t") (auto simp: Let_def goto_def)
  show "m \<noteq> Consume t \<Longrightarrow> deq_at (move m s) t = deq_at s t"
    by (cases m) (auto simp: Let_def goto_def split: enq_pc.splits deq_pc.splits)
qed

text \<open>Two threads race for one element: both pass the first test before either claims.\<close>

definition race :: "nat turn list" where
  "race = replicate 3 (Produce 7) @ concat (replicate 6 [Consume 1, Consume 2]) @ [Consume 1]"

lemma length_race: "length race < 2 ^ 62"
  by (simp add: race_def length_concat sum_list_replicate)

lemma race_run:
  "enqueued (interleave race (start_system 0)) = [7]" "dequeued (interleave race (start_system 0)) = [Some 7]"
  "enq_at (interleave race (start_system 0)) = EnqIdle"
  "deq_at (interleave race (start_system 0)) 1 = DeqIdle" "deq_at (interleave race (start_system 0)) 2 = DeqIdle"
  "dequeueOvercommit (shared (interleave race (start_system 0))) = 1"
  by code_simp+

lemma deq_at_interleave: "Consume t \<notin> set ms \<Longrightarrow> deq_at (interleave ms s) t = deq_at s t"
  unfolding interleave_def by (induction ms arbitrary: s) (auto simp: deq_at_move(2) simp del: move.simps)

lemma race_quiescent: "quiescent (interleave race (start_system 0))"
proof -
  have "deq_at (interleave race (start_system 0)) t = DeqIdle" if "t \<noteq> 1" "t \<noteq> 2" for t
    using that by (subst deq_at_interleave) (auto simp: race_def start_system_def)
  then show ?thesis using race_run unfolding quiescent_def by metis
qed

lemma returns_within:
  "steps_left (deq_at s t) \<le> count_list ms (Consume t) \<Longrightarrow>
   \<exists>k \<le> length ms. deq_at (interleave (take k ms) s) t = DeqIdle"
proof (induction ms arbitrary: s)
  case Nil
  then show ?case by (simp add: interleave_def steps_left_0)
next
  case (Cons m ms)
  show ?case
  proof (cases "deq_at s t = DeqIdle")
    case False
    then have "steps_left (deq_at (move m s) t) \<le> count_list ms (Consume t)"
      using Cons.prems deq_at_move [where m = m and s = s and t = t] by (cases "m = Consume t") (auto simp del: move.simps)
    then obtain k where "k \<le> length ms" "deq_at (interleave (take k ms) (move m s)) t = DeqIdle"
      using Cons.IH by blast
    then show ?thesis by (intro exI [of _ "Suc k"]) (simp add: interleave_def)
  qed (auto simp: interleave_def intro: exI [of _ 0])
qed

section \<open>Properties\<close>

text \<open>
  C7. Any number of threads dequeue while one enqueues, in any interleaving of their atomic
  steps: what the dequeues return are elements that were enqueued, and no two of them return
  the same one.  A dequeue never reads a cell in which no element lives.  (The schedule is
  shorter than the range of the counters.)\<close>

theorem dequeue_interleaving_safe:
  assumes "length ms < 2 ^ 62"
  shows "\<exists>is. distinct is \<and> set is \<subseteq> {..<length (enqueued (interleave ms (start_system t)))}
     \<and> dequeued (interleave ms (start_system t))
         = map (\<lambda>i. Some (enqueued (interleave ms (start_system t)) ! i)) is"
proof -
  let ?s = "interleave ms (start_system t)"
  have "reached (length ms) ?s" by (rule reached_start) (use assms in simp)
  then obtain Hd F X D where inv: "sys_inv (length ms) Hd F X D ?s" unfolding reached_def by blast
  then have ci: "cells_inv X (card Hd) (enqueued ?s) (deq_at ?s) (dequeued ?s) (enq_at ?s) (cells (shared ?s))"
    and "card Hd \<le> length (enqueued ?s)" unfolding sys_inv_def by blast+
  moreover have "set X \<subseteq> {..<card Hd}" using cells_invD(2) [OF ci] by blast
  ultimately have "set X \<subseteq> {..<length (enqueued ?s)}" by auto
  then show ?thesis using cells_invD(1,5) [OF ci] by blast
qed

theorem dequeue_interleaving_safe_witness:
  "enqueued (interleave race (start_system 0)) = [7] \<and> dequeued (interleave race (start_system 0)) = [Some 7]
   \<and> (\<exists>is. distinct is \<and> set is \<subseteq> {..<length (enqueued (interleave race (start_system 0)))}
        \<and> dequeued (interleave race (start_system 0))
            = map (\<lambda>i. Some (enqueued (interleave race (start_system 0)) ! i)) is)"
  using dequeue_interleaving_safe [of race 0, OF length_race] race_run by blast

text \<open>
  C8. Whenever no call is in progress, the producer is a well-formed one, its counters agree
  (every claim advanced the head or was counted as an overcommit), and nothing is lost: what has
  been dequeued is, up to order, a prefix of what was enqueued, and what is stored is the rest
  of it, in order.\<close>

theorem dequeue_interleaving_complete:
  assumes "length ms < 2 ^ 62" and "quiescent (interleave ms (start_system t))"
  shows "wf_producer (shared (interleave ms (start_system t)))
     \<and> (\<exists>n. mset (dequeued (interleave ms (start_system t)))
              = image_mset Some (mset (take n (enqueued (interleave ms (start_system t)))))
          \<and> producer_items (shared (interleave ms (start_system t)))
              = drop n (enqueued (interleave ms (start_system t))))"
proof -
  let ?s = "interleave ms (start_system t)"
  have "reached (length ms) ?s" by (rule reached_start) (use assms in simp)
  then obtain Hd F X D where inv: "sys_inv (length ms) Hd F X D ?s" unfolding reached_def by blast
  have idle: "deq_at ?s u = DeqIdle" for u using assms(2) unfolding quiescent_def by blast
  note it = reached_items [OF inv assms(1) idle]
  have ci: "cells_inv X (card Hd) (enqueued ?s) (deq_at ?s) (dequeued ?s) (enq_at ?s) (cells (shared ?s))"
    and le: "card Hd \<le> length (enqueued ?s)" "length (enqueued ?s) \<le> length ms"
    and ix: "headIndex (shared ?s) = of_nat (card Hd)"
      "dequeueOptimisticCount (shared ?s) = of_nat D" "dequeueOvercommit (shared ?s) = of_nat (card F)"
    using inv unfolding sys_inv_def by blast+
  have "mset X = mset [0..<card Hd]"
    using it(1) cells_invD(1) [OF ci] set_eq_iff_mset_eq_distinct [of X "[0..<card Hd]"]
    by (simp add: lessThan_atLeast0)
  then have "mset (dequeued ?s) = image_mset (\<lambda>i. Some (enqueued ?s ! i)) (mset [0..<card Hd])"
    using cells_invD(5) [OF ci] by (metis mset_map)
  also have "\<dots> = image_mset Some (mset (take (card Hd) (enqueued ?s)))"
    by (rule mset_prefix [OF le(1)])
  finally have "mset (dequeued ?s) = image_mset Some (mset (take (card Hd) (enqueued ?s)))" .
  moreover have "cells (shared ?s) (headIndex (shared ?s) + of_nat k) \<noteq> None"
    if "k < producer_size (shared ?s)" for k
    using cells_invD(6) [OF ci, of "card Hd + k"] that it(1,3) le(1) by (simp add: ix)
  moreover have "producer_size (shared ?s) < 2 ^ 62" using it(3) le(2) assms(1) by linarith
  ultimately show ?thesis
    using it(2,4) ix producer_pad_less [of "shared ?s"] unfolding wf_producer_def by auto
qed

theorem dequeue_interleaving_complete_witness:
  "quiescent (interleave race (start_system 0))
   \<and> wf_producer (shared (interleave race (start_system 0)))
   \<and> (\<exists>n. mset (dequeued (interleave race (start_system 0)))
              = image_mset Some (mset (take n (enqueued (interleave race (start_system 0)))))
          \<and> producer_items (shared (interleave race (start_system 0)))
              = drop n (enqueued (interleave race (start_system 0))))"
  using dequeue_interleaving_complete [OF length_race race_quiescent] race_quiescent by blast





end
