(* ===== verification/Free_List.thy ===== *)
theory Free_List
  imports Concurrent_Queue
begin

text \<open>
  The lock-free free list of \<open>common/concurrentqueue.h\<close> (\<open>FreeListNode\<close>, \<open>FreeList::add\<close>,
  \<open>FreeList::try_get\<close>, \<open>add_knowing_refcount_is_zero\<close>), through which emptied blocks are
  reused.  Any number of threads call it; a step is one atomic operation on a shared field, with
  the local computation behind it, and memory is sequentially consistent.  A schedule says
  which thread moves next and which calls it begins.
\<close>

section \<open>Nodes, threads and their steps\<close>

definition REFS_MASK :: u32 where "REFS_MASK = 0x7FFFFFFF"

definition SHOULD_BE_ON_FREELIST :: u32 where "SHOULD_BE_ON_FREELIST = 0x80000000"

text \<open>Where \<open>add_knowing_refcount_is_zero\<close> returns to: \<open>add\<close>, or the loop of \<open>try_get\<close> with its \<open>head\<close>.\<close>

datatype caller = FromAdd | FromGet "nat option"

text \<open>
  The points of the three functions with their local variables.  \<open>AddFlag\<close> is before the
  \<open>fetch_add\<close> of \<open>add\<close>; \<open>InsLoad\<close> to \<open>InsFail\<close> are the operations of
  \<open>add_knowing_refcount_is_zero\<close>; \<open>GetAgain\<close> to \<open>GetDone\<close> are those of \<open>try_get\<close>, \<open>GetDrop\<close>
  giving back a reference and \<open>GetDone\<close> giving back two before the node is returned.
\<close>

datatype fl_pc = Idle | AddFlag nat
  | InsLoad nat caller | InsNext nat "nat option" caller | InsRefs nat "nat option" caller
  | InsCas nat "nat option" caller | InsFail nat "nat option" caller
  | GetAgain | GetRefs nat | GetInc nat u32 | GetNext nat | GetCas nat "nat option"
  | GetDrop nat "nat option" | GetDone nat

text \<open>\<open>out\<close> are the nodes that callers hold: fresh ones, and those that \<open>try_get\<close> returned.\<close>

record freelist =
  freeListHead :: "nat option"
  freeListRefs :: "nat \<Rightarrow> u32"
  freeListNext :: "nat \<Rightarrow> nat option"
  fl_at :: "nat \<Rightarrow> fl_pc"
  out :: "nat set"

fun resume :: "caller \<Rightarrow> fl_pc" where
  "resume FromAdd = Idle"
| "resume (FromGet None) = Idle"
| "resume (FromGet (Some n)) = GetRefs n"

definition at :: "nat \<Rightarrow> fl_pc \<Rightarrow> freelist \<Rightarrow> freelist" where
  "at t pc s = s\<lparr>fl_at := (fl_at s)(t := pc)\<rparr>"

definition set_refs :: "nat \<Rightarrow> u32 \<Rightarrow> freelist \<Rightarrow> freelist" where
  "set_refs n r s = s\<lparr>freeListRefs := (freeListRefs s)(n := r)\<rparr>"

text \<open>Calling \<open>add\<close> gives up the node; only a thread's own node may be given up.\<close>

definition begin_add :: "nat \<Rightarrow> nat \<Rightarrow> freelist \<Rightarrow> freelist" where
  "begin_add t n s = (if fl_at s t = Idle \<and> n \<in> out s then at t (AddFlag n) (s\<lparr>out := out s - {n}\<rparr>) else s)"

definition begin_get :: "nat \<Rightarrow> freelist \<Rightarrow> freelist" where
  "begin_get t s = (if fl_at s t = Idle then at t GetAgain s else s)"

fun add_step :: "nat \<Rightarrow> nat \<Rightarrow> freelist \<Rightarrow> freelist" where
  "add_step t n s =
     at t (if freeListRefs s n = 0 then InsLoad n FromAdd else Idle)
       (set_refs n (freeListRefs s n + SHOULD_BE_ON_FREELIST) s)"

fun add_knowing_refcount_is_zero_step :: "nat \<Rightarrow> fl_pc \<Rightarrow> freelist \<Rightarrow> freelist" where
  "add_knowing_refcount_is_zero_step t (InsLoad n k) s = at t (InsNext n (freeListHead s) k) s"
| "add_knowing_refcount_is_zero_step t (InsNext n h k) s =
     at t (InsRefs n h k) (s\<lparr>freeListNext := (freeListNext s)(n := h)\<rparr>)"
| "add_knowing_refcount_is_zero_step t (InsRefs n h k) s = at t (InsCas n h k) (set_refs n 1 s)"
| "add_knowing_refcount_is_zero_step t (InsCas n h k) s =
     (if freeListHead s = h then at t (resume k) (s\<lparr>freeListHead := Some n\<rparr>)
      else at t (InsFail n (freeListHead s) k) s)"
| "add_knowing_refcount_is_zero_step t (InsFail n h k) s =
     at t (if freeListRefs s n = 1 then InsNext n h k else resume k)
       (set_refs n (freeListRefs s n + (SHOULD_BE_ON_FREELIST - 1)) s)"
| "add_knowing_refcount_is_zero_step t _ s = s"

fun try_get_step :: "nat \<Rightarrow> fl_pc \<Rightarrow> freelist \<Rightarrow> freelist" where
  "try_get_step t GetAgain s = at t (resume (FromGet (freeListHead s))) s"
| "try_get_step t (GetRefs n) s =
     at t (if freeListRefs s n AND REFS_MASK = 0 then GetAgain else GetInc n (freeListRefs s n)) s"
| "try_get_step t (GetInc n r) s =
     (if freeListRefs s n = r then at t (GetNext n) (set_refs n (r + 1) s) else at t GetAgain s)"
| "try_get_step t (GetNext n) s = at t (GetCas n (freeListNext s n)) s"
| "try_get_step t (GetCas n nx) s =
     (if freeListHead s = Some n then at t (GetDone n) (s\<lparr>freeListHead := nx\<rparr>)
      else at t (GetDrop n (freeListHead s)) s)"
| "try_get_step t (GetDone n) s =
     at t Idle (set_refs n (freeListRefs s n - 2) (s\<lparr>out := insert n (out s)\<rparr>))"
| "try_get_step t (GetDrop n h) s =
     at t (if freeListRefs s n = SHOULD_BE_ON_FREELIST + 1 then InsLoad n (FromGet h) else resume (FromGet h))
       (set_refs n (freeListRefs s n - 1) s)"
| "try_get_step t _ s = s"

fun fl_step :: "nat \<Rightarrow> freelist \<Rightarrow> freelist" where
  "fl_step t s =
     (case fl_at s t of
        Idle \<Rightarrow> s
      | AddFlag n \<Rightarrow> add_step t n s
      | InsLoad n k \<Rightarrow> add_knowing_refcount_is_zero_step t (InsLoad n k) s
      | InsNext n h k \<Rightarrow> add_knowing_refcount_is_zero_step t (InsNext n h k) s
      | InsRefs n h k \<Rightarrow> add_knowing_refcount_is_zero_step t (InsRefs n h k) s
      | InsCas n h k \<Rightarrow> add_knowing_refcount_is_zero_step t (InsCas n h k) s
      | InsFail n h k \<Rightarrow> add_knowing_refcount_is_zero_step t (InsFail n h k) s
      | pc \<Rightarrow> try_get_step t pc s)"

datatype fl_turn = FlAdd nat nat | FlGet nat | FlStep nat

fun fl_move :: "fl_turn \<Rightarrow> freelist \<Rightarrow> freelist" where
  "fl_move (FlAdd t n) s = begin_add t n s"
| "fl_move (FlGet t) s = begin_get t s"
| "fl_move (FlStep t) s = fl_step t s"

fun thread_of :: "fl_turn \<Rightarrow> nat" where
  "thread_of (FlAdd t n) = t"
| "thread_of (FlGet t) = t"
| "thread_of (FlStep t) = t"

definition fl_run :: "fl_turn list \<Rightarrow> freelist \<Rightarrow> freelist" where
  "fl_run ms s = fold fl_move ms s"

text \<open>\<open>N\<close> nodes, all of them with their allocators.\<close>

definition new_freelist :: "nat \<Rightarrow> freelist" where
  "new_freelist N = \<lparr>freeListHead = None, freeListRefs = (\<lambda>_. 0), freeListNext = (\<lambda>_. None),
     fl_at = (\<lambda>_. Idle), out = {..<N}\<rparr>"

section \<open>The invariant\<close>

text \<open>Where a node is: with a caller, being added, waiting for its last reader, and so on.\<close>

datatype status = Out | Adding | Pending | Inserting | Posted | Listed | Taken

fun own :: "fl_pc \<Rightarrow> nat option" where
  "own (AddFlag n) = Some n"
| "own (InsLoad n k) = Some n"
| "own (InsNext n h k) = Some n"
| "own (InsRefs n h k) = Some n"
| "own (InsCas n h k) = Some n"
| "own (InsFail n h k) = Some n"
| "own (GetDone n) = Some n"
| "own _ = None"

fun holds :: "fl_pc \<Rightarrow> nat option" where
  "holds (GetNext n) = Some n"
| "holds (GetCas n nx) = Some n"
| "holds (GetDrop n h) = Some n"
| "holds (GetDone n) = Some n"
| "holds _ = None"

definition known :: "nat \<Rightarrow> nat option \<Rightarrow> bool" where
  "known N h \<longleftrightarrow> (case h of None \<Rightarrow> True | Some n \<Rightarrow> n < N)"

fun caller_ok :: "nat \<Rightarrow> caller \<Rightarrow> bool" where
  "caller_ok N FromAdd = True"
| "caller_ok N (FromGet h) = known N h"

fun thread_ok :: "nat \<Rightarrow> (nat \<Rightarrow> status) \<Rightarrow> (nat \<Rightarrow> nat option) \<Rightarrow> fl_pc \<Rightarrow> bool" where
  "thread_ok N st nx Idle = True"
| "thread_ok N st nx (AddFlag n) \<longleftrightarrow> n < N \<and> st n = Adding"
| "thread_ok N st nx (InsLoad n k) \<longleftrightarrow> n < N \<and> st n = Inserting \<and> caller_ok N k"
| "thread_ok N st nx (InsNext n h k) \<longleftrightarrow> n < N \<and> st n = Inserting \<and> caller_ok N k"
| "thread_ok N st nx (InsRefs n h k) \<longleftrightarrow> n < N \<and> st n = Inserting \<and> nx n = h \<and> caller_ok N k"
| "thread_ok N st nx (InsCas n h k) \<longleftrightarrow> n < N \<and> st n = Posted \<and> nx n = h \<and> caller_ok N k"
| "thread_ok N st nx (InsFail n h k) \<longleftrightarrow> n < N \<and> st n = Posted \<and> caller_ok N k"
| "thread_ok N st nx GetAgain = True"
| "thread_ok N st nx (GetRefs n) \<longleftrightarrow> n < N"
| "thread_ok N st nx (GetInc n r) \<longleftrightarrow> n < N \<and> r AND REFS_MASK \<noteq> 0"
| "thread_ok N st nx (GetNext n) \<longleftrightarrow> n < N"
| "thread_ok N st nx (GetCas n x) \<longleftrightarrow> n < N \<and> nx n = x"
| "thread_ok N st nx (GetDrop n h) \<longleftrightarrow> n < N \<and> known N h"
| "thread_ok N st nx (GetDone n) \<longleftrightarrow> n < N \<and> st n = Taken"

definition temps :: "(nat \<Rightarrow> fl_pc) \<Rightarrow> nat \<Rightarrow> nat set" where
  "temps pcs n = {t. holds (pcs t) = Some n}"

fun flagged :: "status \<Rightarrow> bool" where
  "flagged Pending = True"
| "flagged Inserting = True"
| "flagged _ = False"

fun list_ref :: "status \<Rightarrow> nat" where
  "list_ref Posted = 1"
| "list_ref Listed = 1"
| "list_ref Taken = 1"
| "list_ref _ = 0"

fun owned :: "status \<Rightarrow> bool" where
  "owned Adding = True"
| "owned Inserting = True"
| "owned Posted = True"
| "owned Taken = True"
| "owned _ = False"

definition refs_of :: "status \<Rightarrow> nat \<Rightarrow> u32" where
  "refs_of st c = (if flagged st then SHOULD_BE_ON_FREELIST else 0) + of_nat (c + list_ref st)"

definition node_ok :: "(nat \<Rightarrow> fl_pc) \<Rightarrow> status \<Rightarrow> u32 \<Rightarrow> nat \<Rightarrow> bool" where
  "node_ok pcs st r n \<longleftrightarrow>
     r = refs_of st (card (temps pcs n)) \<and> (st = Pending \<longrightarrow> temps pcs n \<noteq> {})
     \<and> (st = Inserting \<longrightarrow> temps pcs n = {}) \<and> (owned st \<longrightarrow> (\<exists>t. own (pcs t) = Some n))"

fun chain :: "(nat \<Rightarrow> nat option) \<Rightarrow> nat option \<Rightarrow> nat list \<Rightarrow> bool" where
  "chain nx h [] \<longleftrightarrow> h = None"
| "chain nx h (n # ns) \<longleftrightarrow> h = Some n \<and> chain nx (nx n) ns"

definition list_ok :: "nat \<Rightarrow> (nat \<Rightarrow> status) \<Rightarrow> (nat \<Rightarrow> nat option) \<Rightarrow> nat option \<Rightarrow> nat list \<Rightarrow> bool" where
  "list_ok N st nx h ns \<longleftrightarrow> distinct ns \<and> chain nx h ns \<and> set ns = {n. n < N \<and> st n = Listed}"

definition threads_ok :: "nat \<Rightarrow> (nat \<Rightarrow> status) \<Rightarrow> (nat \<Rightarrow> nat option) \<Rightarrow> (nat \<Rightarrow> fl_pc) \<Rightarrow> bool" where
  "threads_ok N st nx pcs \<longleftrightarrow>
     (\<forall>t. thread_ok N st nx (pcs t)) \<and> (\<forall>t. pcs t \<noteq> Idle \<longrightarrow> t < 2 ^ 30)
     \<and> (\<forall>t u n. own (pcs t) = Some n \<and> own (pcs u) = Some n \<longrightarrow> t = u)"

definition fl_inv :: "nat \<Rightarrow> (nat \<Rightarrow> status) \<Rightarrow> nat list \<Rightarrow> freelist \<Rightarrow> bool" where
  "fl_inv N st ns s \<longleftrightarrow>
     threads_ok N st (freeListNext s) (fl_at s)
     \<and> (\<forall>n < N. node_ok (fl_at s) (st n) (freeListRefs s n) n)
     \<and> list_ok N st (freeListNext s) (freeListHead s) ns
     \<and> out s = {n. n < N \<and> st n = Out}"

lemma fl_inv_new: "fl_inv N (\<lambda>_. Out) [] (new_freelist N)"
  by (auto simp: fl_inv_def new_freelist_def threads_ok_def node_ok_def temps_def refs_of_def list_ok_def)

section \<open>One thread and one node change\<close>

lemma temps_upd:
  "temps (pcs(t := q)) n = (if holds q = Some n then insert t (temps pcs n) else temps pcs n - {t})"
  by (auto simp: temps_def)

lemma threads_okD:
  assumes "threads_ok N st nx pcs"
  shows "thread_ok N st nx (pcs t)" and "pcs t \<noteq> Idle \<Longrightarrow> t < 2 ^ 30"
    and "own (pcs t) = Some n \<Longrightarrow> own (pcs u) = Some n \<Longrightarrow> t = u"
  using assms unfolding threads_ok_def by blast+

lemma thread_ok_frame:
  "thread_ok N st nx pc \<Longrightarrow> own pc \<noteq> Some n \<or> c = st n \<Longrightarrow> (own pc \<noteq> Some n \<and> holds pc \<noteq> Some n) \<or> x = nx n \<Longrightarrow>
   thread_ok N (st(n := c)) (nx(n := x)) pc"
  by (cases pc) auto

lemma own_status: "thread_ok N st nx pc \<Longrightarrow> own pc = Some n \<Longrightarrow> n < N \<and> owned (st n)"
  by (cases pc) auto

lemma holds_known: "thread_ok N st nx pc \<Longrightarrow> holds pc = Some n \<Longrightarrow> n < N"
  by (cases pc) auto

lemma node_ok_frame:
  assumes "node_ok pcs st r m" and "own (pcs t) \<noteq> Some m" and "holds (pcs t) \<noteq> Some m"
    and "own q \<noteq> Some m" and "holds q \<noteq> Some m"
  shows "node_ok (pcs(t := q)) st r m"
proof -
  have "temps (pcs(t := q)) m = temps pcs m" using assms(3,5) by (auto simp: temps_def)
  moreover have "(\<exists>u. own ((pcs(t := q)) u) = Some m) \<longleftrightarrow> (\<exists>u. own (pcs u) = Some m)"
    using assms(2,4) by (auto split: if_splits)
  ultimately show ?thesis using assms(1) unfolding node_ok_def by simp
qed

definition touches :: "fl_pc \<Rightarrow> nat \<Rightarrow> bool" where
  "touches pc n \<longleftrightarrow> own pc \<in> {None, Some n} \<and> holds pc \<in> {None, Some n}"

lemma fl_inv_update:
  assumes inv: "fl_inv N st ns s" and "t < 2 ^ 30"
    and tq: "touches (fl_at s t) n" "touches q n"
    and alone: "\<And>u. c \<noteq> st n \<or> own q = Some n \<Longrightarrow> u \<noteq> t \<Longrightarrow> own (fl_at s u) \<noteq> Some n"
    and nxt: "\<And>u. x \<noteq> freeListNext s n \<Longrightarrow> u \<noteq> t \<Longrightarrow>
                own (fl_at s u) \<noteq> Some n \<and> holds (fl_at s u) \<noteq> Some n"
    and q: "thread_ok N (st(n := c)) ((freeListNext s)(n := x)) q"
    and node: "node_ok ((fl_at s)(t := q)) c r n"
    and list: "list_ok N (st(n := c)) ((freeListNext s)(n := x)) (freeListHead s') ns'"
    and out: "out s' = {m. m < N \<and> (st(n := c)) m = Out}"
    and s': "freeListRefs s' = (freeListRefs s)(n := r)" "freeListNext s' = (freeListNext s)(n := x)"
      "fl_at s' = (fl_at s)(t := q)"
  shows "fl_inv N (st(n := c)) ns' s'"
proof -
  let ?pcs = "(fl_at s)(t := q)"
  have th: "threads_ok N st (freeListNext s) (fl_at s)"
    and nd: "\<And>m. m < N \<Longrightarrow> node_ok (fl_at s) (st m) (freeListRefs s m) m"
    using inv unfolding fl_inv_def by blast+
  have "thread_ok N (st(n := c)) ((freeListNext s)(n := x)) (?pcs u)" for u
  proof (cases "u = t")
    case False
    have "own (fl_at s u) \<noteq> Some n \<or> c = st n"
      and "(own (fl_at s u) \<noteq> Some n \<and> holds (fl_at s u) \<noteq> Some n) \<or> x = freeListNext s n"
      using alone nxt False by blast+
    then show ?thesis using thread_ok_frame [OF threads_okD(1) [OF th]] False by simp
  qed (use q in simp)
  moreover have "?pcs u \<noteq> Idle \<Longrightarrow> u < 2 ^ 30" for u using threads_okD(2) [OF th, of u] assms(2) by (auto split: if_splits)
  moreover have "own (?pcs u) = Some m \<and> own (?pcs v) = Some m \<longrightarrow> u = v" for u v m
  proof -
    have q: "own q = Some m \<Longrightarrow> w \<noteq> t \<Longrightarrow> own (fl_at s w) \<noteq> Some m" for w
      using alone tq(2) unfolding touches_def by fastforce
    show ?thesis using threads_okD(3) [OF th, of u m v] q [of u] q [of v]
      by (cases "u = t"; cases "v = t") auto
  qed
  ultimately have "threads_ok N (st(n := c)) ((freeListNext s)(n := x)) ?pcs" unfolding threads_ok_def by blast
  moreover have "node_ok ?pcs ((st(n := c)) m) (((freeListRefs s)(n := r)) m) m" if "m < N" for m
  proof (cases "m = n")
    case False
    then show ?thesis using node_ok_frame [OF nd [OF that], of t q] tq unfolding touches_def by auto
  qed (simp add: node)
  ultimately show ?thesis using list out unfolding fl_inv_def s' by blast
qed

section \<open>The list\<close>

lemma chain_frame: "n \<notin> set ns \<Longrightarrow> chain (nx(n := x)) h ns \<longleftrightarrow> chain nx h ns"
  by (induction ns arbitrary: h) auto

lemma list_ok_same:
  "list_ok N st nx h ns \<Longrightarrow> st n \<noteq> Listed \<Longrightarrow> c \<noteq> Listed \<Longrightarrow> list_ok N (st(n := c)) (nx(n := x)) h ns"
  unfolding list_ok_def by (subst chain_frame) auto

lemma list_ok_status: "list_ok N st nx h ns \<Longrightarrow> st n \<noteq> Listed \<Longrightarrow> c \<noteq> Listed \<Longrightarrow> list_ok N (st(n := c)) nx h ns"
  using list_ok_same [of N st nx h ns n c "nx n"] by simp

lemma list_ok_push:
  "list_ok N st nx h ns \<Longrightarrow> st n \<noteq> Listed \<Longrightarrow> n < N \<Longrightarrow> nx n = h \<Longrightarrow>
   list_ok N (st(n := Listed)) nx (Some n) (n # ns)"
  unfolding list_ok_def by auto

lemma list_ok_pop:
  assumes "list_ok N st nx (Some n) ns" and "c \<noteq> Listed"
  shows "list_ok N (st(n := c)) nx (nx n) (tl ns)" and "st n = Listed" and "n < N"
proof -
  obtain ns' where ns: "ns = n # ns'" using assms(1) unfolding list_ok_def by (cases ns) auto
  then have "n \<in> {m. m < N \<and> st m = Listed}" using assms(1) unfolding list_ok_def by auto
  then show "st n = Listed" "n < N" by auto
  have "set ns' = {m. m < N \<and> st m = Listed} - {n}" using ns assms(1) unfolding list_ok_def by auto
  then show "list_ok N (st(n := c)) nx (nx n) (tl ns)" using ns assms unfolding list_ok_def by auto
qed

lemma list_ok_head: "list_ok N st nx h ns \<Longrightarrow> known N h"
  unfolding list_ok_def known_def by (cases ns) auto

section \<open>The reference count\<close>

lemma unat_refs_of:
  "c < 2 ^ 31 - 1 \<Longrightarrow> unat (refs_of st c) = (if flagged st then 2 ^ 31 else 0) + (c + list_ref st)"
  by (cases st) (simp_all add: refs_of_def SHOULD_BE_ON_FREELIST_def unat_word_ariths unat_of_nat)

lemma mask_u32: "unat (r AND REFS_MASK) = unat r mod 2 ^ 31"
proof -
  have "r AND REFS_MASK = take_bit 31 r"
    by (simp add: take_bit_eq_mask REFS_MASK_def mask_eq_exp_minus_1)
  then have "unat (r AND REFS_MASK) = take_bit 31 (unat r)" by (simp only: unsigned_take_bit_eq)
  then show ?thesis by (simp only: take_bit_eq_mod)
qed

lemma refs_eqI: "unat r = unat r' \<Longrightarrow> r = (r' :: u32)"
  by (rule unsigned_word_eqI)

lemma refs_of_tests:
  assumes "c < 2 ^ 31 - 1"
  shows "refs_of st c = 0 \<longleftrightarrow> \<not> flagged st \<and> c + list_ref st = 0"
    and "refs_of st c = 1 \<longleftrightarrow> \<not> flagged st \<and> c + list_ref st = 1"
    and "refs_of st c = SHOULD_BE_ON_FREELIST + 1 \<longleftrightarrow> flagged st \<and> c + list_ref st = 1"
    and "refs_of st c AND REFS_MASK = 0 \<longleftrightarrow> c + list_ref st = 0"
    and "refs_of st c AND SHOULD_BE_ON_FREELIST = 0 \<longleftrightarrow> \<not> flagged st"
proof -
  note u = unat_refs_of [OF assms, of st]
  have l: "list_ref st \<le> 1" by (cases st) auto
  then have small: "c + list_ref st < 2 ^ 31" using assms by simp
  show "refs_of st c = 0 \<longleftrightarrow> \<not> flagged st \<and> c + list_ref st = 0"
    using u unat_0_iff [of "refs_of st c"] by auto
  have "refs_of st c = 1 \<longleftrightarrow> unat (refs_of st c) = 1" by (metis refs_eqI unat_1)
  then show "refs_of st c = 1 \<longleftrightarrow> \<not> flagged st \<and> c + list_ref st = 1" using u by simp
  have "refs_of st c = SHOULD_BE_ON_FREELIST + 1 \<longleftrightarrow> unat (refs_of st c) = 2 ^ 31 + 1"
    using refs_eqI [of "refs_of st c" "SHOULD_BE_ON_FREELIST + 1"] by (auto simp: SHOULD_BE_ON_FREELIST_def)
  then show "refs_of st c = SHOULD_BE_ON_FREELIST + 1 \<longleftrightarrow> flagged st \<and> c + list_ref st = 1"
    using u small by simp
  have "unat (refs_of st c AND REFS_MASK) = c + list_ref st"
    unfolding mask_u32 u using small by auto
  then show "refs_of st c AND REFS_MASK = 0 \<longleftrightarrow> c + list_ref st = 0" by (metis unat_0_iff)
  have "SHOULD_BE_ON_FREELIST = 2 ^ 31" by (simp add: SHOULD_BE_ON_FREELIST_def)
  then have "refs_of st c AND SHOULD_BE_ON_FREELIST = 0 \<longleftrightarrow> \<not> bit (refs_of st c) 31"
    using and_exp_eq_0_iff_not_bit [of "refs_of st c" 31] by metis
  also have "\<dots> \<longleftrightarrow> \<not> bit (unat (refs_of st c)) 31" by (simp add: bit_unsigned_iff)
  also have "\<dots> \<longleftrightarrow> \<not> flagged st"
    using small unfolding u by (auto simp: bit_iff_odd div_add_self1)
  finally show "refs_of st c AND SHOULD_BE_ON_FREELIST = 0 \<longleftrightarrow> \<not> flagged st" .
qed

section \<open>Every step keeps the invariant\<close>

lemmas fl_defs = at_def set_refs_def

lemma temps_bound:
  assumes "threads_ok N st nx pcs"
  shows "finite (temps pcs n)" and "card (temps pcs n) < 2 ^ 31 - 1"
proof -
  have "temps pcs n \<subseteq> {..<2 ^ 30}"
  proof
    fix t assume "t \<in> temps pcs n"
    then have "pcs t \<noteq> Idle" by (auto simp: temps_def)
    then show "t \<in> {..<2 ^ 30}" using threads_okD(2) [OF assms] by simp
  qed
  then show "finite (temps pcs n)" and "card (temps pcs n) < 2 ^ 31 - 1"
    using finite_subset card_mono [of "{..<2 ^ 30 :: nat}" "temps pcs n"] by auto
qed

lemma caller_ok_resume: "caller_ok N k \<Longrightarrow> thread_ok N st nx (resume k)"
  by (cases k rule: resume.cases) (auto simp: known_def)

lemma touches_resume [simp]: "own (resume k) = None" "holds (resume k) = None" "touches (resume k) n"
  by (cases k rule: resume.cases; simp add: touches_def)+

lemma fl_invD:
  assumes "fl_inv N st ns s"
  shows "threads_ok N st (freeListNext s) (fl_at s)"
    and "n < N \<Longrightarrow> node_ok (fl_at s) (st n) (freeListRefs s n) n"
    and "list_ok N st (freeListNext s) (freeListHead s) ns"
    and "out s = {n. n < N \<and> st n = Out}"
  using assms unfolding fl_inv_def by blast+

text \<open>A step that moves a thread and changes nothing of any node.\<close>

lemma fl_inv_at:
  assumes inv: "fl_inv N st ns s" and "t < 2 ^ 30" and "own q = own (fl_at s t)" and "holds q = holds (fl_at s t)"
    and "thread_ok N st (freeListNext s) q"
  shows "fl_inv N st ns (at t q s)"
proof -
  have th: "threads_ok N st (freeListNext s) (fl_at s)" using inv unfolding fl_inv_def by blast
  have own: "own (((fl_at s)(t := q)) u) = own (fl_at s u)" for u using assms(3) by simp
  have "temps ((fl_at s)(t := q)) n = temps (fl_at s) n" for n using assms(4) by (auto simp: temps_def)
  then have "node_ok ((fl_at s)(t := q)) c r n \<longleftrightarrow> node_ok (fl_at s) c r n" for c r n
    unfolding node_ok_def own by simp
  moreover have "threads_ok N st (freeListNext s) ((fl_at s)(t := q))"
    using th assms(2,5) unfolding threads_ok_def own by simp
  ultimately show ?thesis using inv unfolding fl_inv_def at_def by simp
qed

text \<open>A step that changes a node's status or count, its owner alone or nobody owning it.\<close>

lemma fl_inv_node:
  assumes inv: "fl_inv N st ns s" and "t < 2 ^ 30" and "touches (fl_at s t) n" "touches q n"
    and "own (fl_at s t) = Some n \<or> \<not> owned (st n) \<or> (c = st n \<and> own q = None)"
    and "thread_ok N (st(n := c)) (freeListNext s) q"
    and "node_ok ((fl_at s)(t := q)) c r n"
    and "list_ok N (st(n := c)) (freeListNext s) (freeListHead s') ns'"
    and "out s' = {m. m < N \<and> (st(n := c)) m = Out}"
    and "freeListRefs s' = (freeListRefs s)(n := r)" "freeListNext s' = freeListNext s"
      "fl_at s' = (fl_at s)(t := q)"
  shows "fl_inv N (st(n := c)) ns' s'"
proof -
  note th = fl_invD(1) [OF inv]
  have "own (fl_at s u) \<noteq> Some n" if "c \<noteq> st n \<or> own q = Some n" "u \<noteq> t" for u
    using that assms(5) own_status [OF threads_okD(1) [OF th, of u], of n] threads_okD(3) [OF th, of t n u] by auto
  then show ?thesis
    using assms by (intro fl_inv_update [where x = "freeListNext s n", OF inv assms(2-4)]) auto
qed

lemma out_same:
  "fl_inv N st ns s \<Longrightarrow> st n \<noteq> Out \<Longrightarrow> c \<noteq> Out \<Longrightarrow> out s = {m. m < N \<and> (st(n := c)) m = Out}"
  unfolding fl_inv_def by auto

lemma temps_same: "holds q = holds (pcs t) \<Longrightarrow> temps (pcs(t := q)) n = temps pcs n"
  by (auto simp: temps_def)

lemma node_okI:
  assumes "r = refs_of c (card (temps (pcs(t := q)) n))" and "c = Pending \<Longrightarrow> temps (pcs(t := q)) n \<noteq> {}"
    and "c = Inserting \<Longrightarrow> temps (pcs(t := q)) n = {}" and "owned c \<Longrightarrow> own q = Some n \<or> (\<exists>u. u \<noteq> t \<and> own (pcs u) = Some n)"
  shows "node_ok (pcs(t := q)) c r n"
  using assms unfolding node_ok_def by (auto intro: exI [of _ t])

lemma own_other: "node_ok pcs st r n \<Longrightarrow> own (pcs t) = None \<Longrightarrow> owned st \<Longrightarrow> \<exists>u. u \<noteq> t \<and> own (pcs u) = Some n"
  unfolding node_ok_def by (metis option.distinct(1))

lemma begin_add_inv:
  assumes inv: "fl_inv N st ns s" and "t < 2 ^ 30" and "fl_at s t = Idle" and "n \<in> out s"
  shows "fl_inv N (st(n := Adding)) ns (at t (AddFlag n) (s\<lparr>out := out s - {n}\<rparr>))"
proof -
  have n: "n < N" "st n = Out" using assms(4) fl_invD(4) [OF inv] by auto
  have nd: "node_ok (fl_at s) Out (freeListRefs s n) n" using fl_invD(2) [OF inv n(1)] n(2) by simp
  show ?thesis
  proof (rule fl_inv_node [OF inv assms(2)])
    show "node_ok ((fl_at s)(t := AddFlag n)) Adding (freeListRefs s n) n"
      using nd assms(3) by (intro node_okI) (auto simp: temps_same node_ok_def refs_of_def)
    show "list_ok N (st(n := Adding)) (freeListNext s) (freeListHead (at t (AddFlag n) (s\<lparr>out := out s - {n}\<rparr>))) ns"
      using list_ok_status [OF fl_invD(3) [OF inv], of n Adding] n by (simp add: at_def)
  qed (use assms(3) n fl_invD(4) [OF inv] in \<open>auto simp: touches_def at_def\<close>)
qed

text \<open>The \<open>fetch_add\<close> of \<open>add\<close>: the node goes to the list at once or when its last reader leaves.\<close>

lemma add_step_inv:
  assumes inv: "fl_inv N st ns s" and "t < 2 ^ 30" and pc: "fl_at s t = AddFlag n"
  shows "\<exists>c. fl_inv N (st(n := c)) ns (add_step t n s)"
proof -
  note th = fl_invD(1) [OF inv]
  have n: "n < N" "st n = Adding" using threads_okD(1) [OF th, of t] pc by auto
  let ?c = "if temps (fl_at s) n = {} then Inserting else Pending"
  let ?q = "if freeListRefs s n = 0 then InsLoad n FromAdd else Idle"
  have r: "freeListRefs s n = refs_of Adding (card (temps (fl_at s) n))"
    using fl_invD(2) [OF inv n(1)] n(2) unfolding node_ok_def by simp
  have z: "freeListRefs s n = 0 \<longleftrightarrow> temps (fl_at s) n = {}"
    using refs_of_tests(1) [OF temps_bound(2) [OF th]] temps_bound(1) [OF th] unfolding r by auto
  have tp: "temps ((fl_at s)(t := ?q)) n = temps (fl_at s) n" using pc by (intro temps_same) simp
  have "fl_inv N (st(n := ?c)) ns (add_step t n s)"
  proof (rule fl_inv_node [OF inv assms(2)])
    show "node_ok ((fl_at s)(t := ?q)) ?c (freeListRefs s n + SHOULD_BE_ON_FREELIST) n"
      unfolding node_ok_def tp by (auto simp: z r refs_of_def intro: exI [of _ t])
    show "list_ok N (st(n := ?c)) (freeListNext s) (freeListHead (add_step t n s)) ns"
      using list_ok_status [OF fl_invD(3) [OF inv], of n ?c] n by (simp add: fl_defs)
    show "out (add_step t n s) = {m. m < N \<and> (st(n := ?c)) m = Out}"
      using out_same [OF inv, of n ?c] n by (simp add: fl_defs)
  qed (simp_all add: pc n z touches_def fl_defs)
  then show ?thesis by blast
qed

lemma ins_next_inv:
  assumes inv: "fl_inv N st ns s" and "t < 2 ^ 30" and pc: "fl_at s t = InsNext n h k"
  shows "fl_inv N st ns (add_knowing_refcount_is_zero_step t (InsNext n h k) s)"
proof -
  note th = fl_invD(1) [OF inv]
  have n: "n < N" "st n = Inserting" "caller_ok N k" using threads_okD(1) [OF th, of t] pc by auto
  have nd: "node_ok (fl_at s) Inserting (freeListRefs s n) n" using fl_invD(2) [OF inv n(1)] n(2) by simp
  have "own (fl_at s u) \<noteq> Some n \<and> holds (fl_at s u) \<noteq> Some n" if "u \<noteq> t" for u
    using that threads_okD(3) [OF th, of t n u] pc nd unfolding node_ok_def temps_def by auto
  moreover have tp: "temps ((fl_at s)(t := InsRefs n h k)) n = temps (fl_at s) n" using pc by (intro temps_same) simp
  moreover have "list_ok N (st(n := Inserting)) ((freeListNext s)(n := h)) (freeListHead s) ns"
    using list_ok_same [OF fl_invD(3) [OF inv], of n Inserting h] n by simp
  ultimately have "fl_inv N (st(n := Inserting)) ns (add_knowing_refcount_is_zero_step t (InsNext n h k) s)"
    using n pc nd fl_invD(4) [OF inv]
    by (intro fl_inv_update [where x = h and r = "freeListRefs s n" and q = "InsRefs n h k", OF inv assms(2)])
      (auto simp: touches_def at_def node_ok_def intro: exI [of _ t])
  then show ?thesis using n(2) by (simp add: fun_upd_idem)
qed

lemma ins_refs_inv:
  assumes inv: "fl_inv N st ns s" and "t < 2 ^ 30" and pc: "fl_at s t = InsRefs n h k"
  shows "fl_inv N (st(n := Posted)) ns (add_knowing_refcount_is_zero_step t (InsRefs n h k) s)" (is "fl_inv _ _ _ ?s'")
proof -
  note th = fl_invD(1) [OF inv]
  have n: "n < N" "st n = Inserting" "freeListNext s n = h" "caller_ok N k" using threads_okD(1) [OF th, of t] pc by auto
  have nd: "node_ok (fl_at s) Inserting (freeListRefs s n) n" using fl_invD(2) [OF inv n(1)] n(2) by simp
  show ?thesis
  proof (rule fl_inv_node [OF inv assms(2)])
    show "node_ok ((fl_at s)(t := InsCas n h k)) Posted 1 n"
      using nd pc by (intro node_okI) (auto simp: temps_same node_ok_def refs_of_def)
    show "list_ok N (st(n := Posted)) (freeListNext s) (freeListHead ?s') ns"
      using list_ok_status [OF fl_invD(3) [OF inv], of n Posted] n by (simp add: fl_defs)
    show "out ?s' = {m. m < N \<and> (st(n := Posted)) m = Out}"
      using out_same [OF inv, of n Posted] n by (simp add: fl_defs)
  qed (simp_all add: pc n touches_def fl_defs)
qed

lemma ins_cas_inv:
  assumes inv: "fl_inv N st ns s" and "t < 2 ^ 30" and pc: "fl_at s t = InsCas n h k" and h: "freeListHead s = h"
  shows "fl_inv N (st(n := Listed)) (n # ns) (add_knowing_refcount_is_zero_step t (InsCas n h k) s)"
    (is "fl_inv _ _ _ ?s'")
proof -
  note th = fl_invD(1) [OF inv]
  have n: "n < N" "st n = Posted" "freeListNext s n = h" "caller_ok N k" using threads_okD(1) [OF th, of t] pc by auto
  have nd: "node_ok (fl_at s) Posted (freeListRefs s n) n" using fl_invD(2) [OF inv n(1)] n(2) by simp
  show ?thesis
  proof (rule fl_inv_node [OF inv assms(2)])
    show "node_ok ((fl_at s)(t := resume k)) Listed (freeListRefs s n) n"
      using nd pc by (intro node_okI) (auto simp: temps_same node_ok_def refs_of_def)
    show "list_ok N (st(n := Listed)) (freeListNext s) (freeListHead ?s') (n # ns)"
      using list_ok_push [OF fl_invD(3) [OF inv], of n] n h by (simp add: fl_defs)
    show "out ?s' = {m. m < N \<and> (st(n := Listed)) m = Out}"
      using out_same [OF inv, of n Listed] n h by (simp add: fl_defs)
  qed (simp_all add: pc n h touches_def fl_defs caller_ok_resume)
qed

lemma ins_fail_inv:
  assumes inv: "fl_inv N st ns s" and "t < 2 ^ 30" and pc: "fl_at s t = InsFail n h k"
  shows "\<exists>c. fl_inv N (st(n := c)) ns (add_knowing_refcount_is_zero_step t (InsFail n h k) s)"
proof -
  note th = fl_invD(1) [OF inv]
  have n: "n < N" "st n = Posted" "caller_ok N k" using threads_okD(1) [OF th, of t] pc by auto
  let ?c = "if temps (fl_at s) n = {} then Inserting else Pending"
  let ?q = "if freeListRefs s n = 1 then InsNext n h k else resume k"
  have r: "freeListRefs s n = refs_of Posted (card (temps (fl_at s) n))"
    using fl_invD(2) [OF inv n(1)] n(2) unfolding node_ok_def by simp
  have z: "freeListRefs s n = 1 \<longleftrightarrow> temps (fl_at s) n = {}"
    using refs_of_tests(2) [OF temps_bound(2) [OF th]] temps_bound(1) [OF th] unfolding r by auto
  have tp: "temps ((fl_at s)(t := ?q)) n = temps (fl_at s) n" using pc by (intro temps_same) simp
  have "fl_inv N (st(n := ?c)) ns (add_knowing_refcount_is_zero_step t (InsFail n h k) s)" (is "fl_inv _ _ _ ?s'")
  proof (rule fl_inv_node [OF inv assms(2)])
    show "node_ok ((fl_at s)(t := ?q)) ?c (freeListRefs s n + (SHOULD_BE_ON_FREELIST - 1)) n"
      unfolding node_ok_def tp by (auto simp: z r refs_of_def intro: exI [of _ t])
    show "list_ok N (st(n := ?c)) (freeListNext s) (freeListHead ?s') ns"
      using list_ok_status [OF fl_invD(3) [OF inv], of n ?c] n by (simp add: fl_defs)
    show "out ?s' = {m. m < N \<and> (st(n := ?c)) m = Out}"
      using out_same [OF inv, of n ?c] n by (simp add: fl_defs)
  qed (simp_all add: pc n z touches_def fl_defs caller_ok_resume)
  then show ?thesis by blast
qed

text \<open>A reader takes a reference: the count was not zero, so nobody is inserting the node.\<close>

lemma get_inc_inv:
  assumes inv: "fl_inv N st ns s" and "t < 2 ^ 30" and pc: "fl_at s t = GetInc n r" and r: "freeListRefs s n = r"
  shows "fl_inv N st ns (try_get_step t (GetInc n r) s)"
proof -
  note th = fl_invD(1) [OF inv]
  have n: "n < N" "r AND REFS_MASK \<noteq> 0" using threads_okD(1) [OF th, of t] pc by auto
  note nd = fl_invD(2) [OF inv n(1), unfolded node_ok_def]
  have "card (temps (fl_at s) n) + list_ref (st n) \<noteq> 0"
    using refs_of_tests(4) [OF temps_bound(2) [OF th], of "st n" n] nd n(2) r by auto
  then have "st n \<noteq> Inserting" using nd by auto
  moreover have t: "t \<notin> temps (fl_at s) n" using pc by (auto simp: temps_def)
  moreover have "refs_of (st n) (Suc (card (temps (fl_at s) n))) = r + 1"
    using nd r by (simp add: refs_of_def)
  ultimately have "node_ok ((fl_at s)(t := GetNext n)) (st n) (r + 1) n"
    using own_other [OF fl_invD(2) [OF inv n(1)], of t] pc temps_bound(1) [OF th]
    by (intro node_okI) (simp_all add: temps_upd)
  then have "fl_inv N (st(n := st n)) ns (try_get_step t (GetInc n r) s)"
    using n pc r fl_invD(3,4) [OF inv]
    by (intro fl_inv_node [where r = "r + 1" and q = "GetNext n", OF inv assms(2)]) (auto simp: touches_def fl_defs)
  then show ?thesis by simp
qed

lemma get_cas_inv:
  assumes inv: "fl_inv N st ns s" and "t < 2 ^ 30" and pc: "fl_at s t = GetCas n nx" and h: "freeListHead s = Some n"
  shows "fl_inv N (st(n := Taken)) (tl ns) (try_get_step t (GetCas n nx) s)" (is "fl_inv _ _ _ ?s'")
proof -
  note th = fl_invD(1) [OF inv]
  have nx: "freeListNext s n = nx" using threads_okD(1) [OF th, of t] pc by auto
  have l: "list_ok N st (freeListNext s) (Some n) ns" using fl_invD(3) [OF inv] h by simp
  have n: "n < N" "st n = Listed" using list_ok_pop(2,3) [OF l, of Out] by auto
  have nd: "node_ok (fl_at s) Listed (freeListRefs s n) n" using fl_invD(2) [OF inv n(1)] n(2) by simp
  show ?thesis
  proof (rule fl_inv_node [OF inv assms(2)])
    show "node_ok ((fl_at s)(t := GetDone n)) Taken (freeListRefs s n) n"
      using nd pc by (intro node_okI) (simp_all add: temps_same node_ok_def refs_of_def)
    show "list_ok N (st(n := Taken)) (freeListNext s) (freeListHead ?s') (tl ns)"
      using list_ok_pop(1) [OF l, of Taken] h nx by (simp add: fl_defs)
    show "out ?s' = {m. m < N \<and> (st(n := Taken)) m = Out}"
      using out_same [OF inv, of n Taken] n h by (simp add: fl_defs)
  qed (simp_all add: pc n h touches_def fl_defs)
qed

text \<open>The node leaves the list's hands; the assertion of the source holds before that.\<close>

lemma get_done_inv:
  assumes inv: "fl_inv N st ns s" and "t < 2 ^ 30" and pc: "fl_at s t = GetDone n"
  shows "fl_inv N (st(n := Out)) ns (try_get_step t (GetDone n) s)" (is "fl_inv _ _ _ ?s'")
    and "n \<notin> out s" and "freeListRefs s n AND SHOULD_BE_ON_FREELIST = 0"
proof -
  note th = fl_invD(1) [OF inv]
  have n: "n < N" "st n = Taken" using threads_okD(1) [OF th, of t] pc by auto
  have nd: "freeListRefs s n = refs_of Taken (card (temps (fl_at s) n))"
    using fl_invD(2) [OF inv n(1)] n(2) unfolding node_ok_def by simp
  show "n \<notin> out s" using fl_invD(4) [OF inv] n by simp
  show "freeListRefs s n AND SHOULD_BE_ON_FREELIST = 0"
    unfolding nd using refs_of_tests(5) [OF temps_bound(2) [OF th]] by simp
  have t: "t \<in> temps (fl_at s) n" using pc by (simp add: temps_def)
  then have "card (temps (fl_at s) n) = Suc (card (temps (fl_at s) n - {t}))"
    using temps_bound(1) [OF th] by (metis card.remove)
  then have r: "freeListRefs s n - 2 = refs_of Out (card (temps (fl_at s) n - {t}))"
    unfolding nd by (simp add: refs_of_def)
  show "fl_inv N (st(n := Out)) ns ?s'"
  proof (rule fl_inv_node [OF inv assms(2)])
    show "node_ok ((fl_at s)(t := Idle)) Out (freeListRefs s n - 2) n"
      using r by (intro node_okI) (simp_all add: temps_upd)
    show "list_ok N (st(n := Out)) (freeListNext s) (freeListHead ?s') ns"
      using list_ok_status [OF fl_invD(3) [OF inv], of n Out] n by (simp add: fl_defs)
    show "out ?s' = {m. m < N \<and> (st(n := Out)) m = Out}"
      using fl_invD(4) [OF inv] n by (auto simp: fl_defs)
  qed (simp_all add: pc n touches_def fl_defs)
qed

lemma get_drop_inv:
  assumes inv: "fl_inv N st ns s" and "t < 2 ^ 30" and pc: "fl_at s t = GetDrop n h"
  shows "\<exists>c. fl_inv N (st(n := c)) ns (try_get_step t (GetDrop n h) s)"
proof -
  note th = fl_invD(1) [OF inv]
  have n: "n < N" "known N h" using threads_okD(1) [OF th, of t] pc by auto
  note nd = fl_invD(2) [OF inv n(1)]
  let ?T = "temps (fl_at s) n"
  let ?last = "st n = Pending \<and> ?T = {t}"
  let ?c = "if ?last then Inserting else st n"
  let ?q = "if freeListRefs s n = SHOULD_BE_ON_FREELIST + 1 then InsLoad n (FromGet h) else resume (FromGet h)"
  have t: "t \<in> ?T" using pc by (simp add: temps_def)
  then have card: "card ?T = Suc (card (?T - {t}))"
    using temps_bound(1) [OF th] by (metis card.remove)
  have ni: "st n \<noteq> Inserting" using nd t unfolding node_ok_def by auto
  have "card ?T = 1 \<longleftrightarrow> ?T = {t}" using t by (auto simp: card_1_singleton_iff)
  moreover have "flagged (st n) \<longleftrightarrow> st n = Pending" using ni by (cases "st n") auto
  ultimately have last: "freeListRefs s n = SHOULD_BE_ON_FREELIST + 1 \<longleftrightarrow> ?last"
    using nd refs_of_tests(3) [OF temps_bound(2) [OF th], of "st n" n] unfolding node_ok_def by auto
  have r: "freeListRefs s n - 1 = refs_of ?c (card (?T - {t}))"
    using nd card unfolding node_ok_def by (auto simp: refs_of_def)
  have tp: "temps ((fl_at s)(t := ?q)) n = ?T - {t}" by (auto simp: temps_upd)
  have "node_ok ((fl_at s)(t := ?q)) ?c (freeListRefs s n - 1) n"
  proof (rule node_okI)
    show "freeListRefs s n - 1 = refs_of ?c (card (temps ((fl_at s)(t := ?q)) n))" unfolding tp by (rule r)
    show "temps ((fl_at s)(t := ?q)) n \<noteq> {}" if "?c = Pending" using that t unfolding tp by (auto split: if_splits)
    show "temps ((fl_at s)(t := ?q)) n = {}" if "?c = Inserting"
      using that ni unfolding tp by (auto split: if_splits)
    show "own ?q = Some n \<or> (\<exists>u. u \<noteq> t \<and> own (fl_at s u) = Some n)" if "owned ?c"
      using that own_other [OF nd, of t] pc last by (simp split: if_splits)
  qed
  moreover have "list_ok N (st(n := ?c)) (freeListNext s) (freeListHead s) ns"
    using list_ok_status [OF fl_invD(3) [OF inv], of n Inserting] fl_invD(3) [OF inv] by auto
  moreover have "out s = {m. m < N \<and> (st(n := ?c)) m = Out}"
    using out_same [OF inv, of n Inserting] fl_invD(4) [OF inv] by auto
  ultimately have "fl_inv N (st(n := ?c)) ns (try_get_step t (GetDrop n h) s)"
    using n pc last caller_ok_resume [of N "FromGet h"]
    by (intro fl_inv_node [where r = "freeListRefs s n - 1" and q = ?q, OF inv assms(2)])
      (simp_all add: touches_def fl_defs)
  then show ?thesis by blast
qed

definition fl_ok :: "nat \<Rightarrow> freelist \<Rightarrow> bool" where
  "fl_ok N s \<longleftrightarrow> (\<exists>st ns. fl_inv N st ns s)"

lemma fl_ok_step:
  assumes "fl_ok N s" and "t < 2 ^ 30"
  shows "fl_ok N (fl_step t s)"
proof -
  obtain st ns where inv: "fl_inv N st ns s" using assms(1) unfolding fl_ok_def by blast
  note th = threads_okD(1) [OF fl_invD(1) [OF inv], of t]
  note at = fl_inv_at [OF inv assms(2)]
  note head = list_ok_head [OF fl_invD(3) [OF inv]]
  have "\<exists>st ns. fl_inv N st ns (fl_step t s)"
  proof (cases "fl_at s t")
    case (AddFlag n)
    then have "fl_step t s = add_step t n s" by simp
    then show ?thesis using add_step_inv [OF inv assms(2) AddFlag] by metis
  next
    case (InsLoad n k)
    have "fl_inv N st ns (fl_step t s)" using at th InsLoad by simp
    then show ?thesis by blast
  next
    case (InsNext n h k)
    have "fl_inv N st ns (fl_step t s)" using ins_next_inv [OF inv assms(2) InsNext] InsNext by simp
    then show ?thesis by blast
  next
    case (InsRefs n h k)
    have "fl_inv N (st(n := Posted)) ns (fl_step t s)" using ins_refs_inv [OF inv assms(2) InsRefs] InsRefs by simp
    then show ?thesis by blast
  next
    case (InsCas n h k)
    then have "fl_inv N (if freeListHead s = h then st(n := Listed) else st)
        (if freeListHead s = h then n # ns else ns) (fl_step t s)"
      using ins_cas_inv [OF inv assms(2) InsCas] at th by simp
    then show ?thesis by blast
  next
    case (InsFail n h k)
    then have "fl_step t s = add_knowing_refcount_is_zero_step t (InsFail n h k) s" by simp
    then show ?thesis using ins_fail_inv [OF inv assms(2) InsFail] by metis
  next
    case GetAgain
    have "fl_inv N st ns (fl_step t s)" using at [of "resume (FromGet (freeListHead s))"] head GetAgain caller_ok_resume by simp
    then show ?thesis by blast
  next
    case (GetRefs n)
    have "fl_inv N st ns (fl_step t s)" using at th GetRefs by simp
    then show ?thesis by blast
  next
    case (GetInc n r)
    have "fl_inv N st ns (fl_step t s)"
      using get_inc_inv [OF inv assms(2) GetInc] at th GetInc by (cases "freeListRefs s n = r") auto
    then show ?thesis by blast
  next
    case (GetNext n)
    have "fl_inv N st ns (fl_step t s)" using at th GetNext by simp
    then show ?thesis by blast
  next
    case (GetCas n nx)
    then have "fl_inv N (if freeListHead s = Some n then st(n := Taken) else st)
        (if freeListHead s = Some n then tl ns else ns) (fl_step t s)"
      using get_cas_inv [OF inv assms(2) GetCas] at th head by simp
    then show ?thesis by blast
  next
    case (GetDrop n h)
    then have "fl_step t s = try_get_step t (GetDrop n h) s" by simp
    then show ?thesis using get_drop_inv [OF inv assms(2) GetDrop] by metis
  next
    case (GetDone n)
    have "fl_inv N (st(n := Out)) ns (fl_step t s)" using get_done_inv(1) [OF inv assms(2) GetDone] GetDone by simp
    then show ?thesis by blast
  qed (use inv in auto)
  then show ?thesis unfolding fl_ok_def .
qed

lemma fl_ok_move:
  assumes "fl_ok N s" and "thread_of m < 2 ^ 30"
  shows "fl_ok N (fl_move m s)"
proof (cases m)
  case (FlAdd t n)
  obtain st ns where inv: "fl_inv N st ns s" using assms(1) unfolding fl_ok_def by blast
  then show ?thesis
    using begin_add_inv [OF inv, of t n] assms FlAdd unfolding fl_ok_def by (auto simp: begin_add_def)
next
  case (FlGet t)
  obtain st ns where inv: "fl_inv N st ns s" using assms(1) unfolding fl_ok_def by blast
  then have "fl_inv N st ns (fl_move m s)"
    using fl_inv_at [OF inv, of t GetAgain] assms FlGet by (simp add: begin_get_def)
  then show ?thesis unfolding fl_ok_def by blast
next
  case (FlStep t)
  then show ?thesis using fl_ok_step assms by (simp del: fl_step.simps)
qed

lemma fl_ok_run: "\<forall>m \<in> set ms. thread_of m < 2 ^ 30 \<Longrightarrow> fl_ok N s \<Longrightarrow> fl_ok N (fl_run ms s)"
  unfolding fl_run_def by (induction ms arbitrary: s) (simp_all add: fl_ok_move del: fl_move.simps)

lemma fl_ok_new: "fl_ok N (new_freelist N)"
  using fl_inv_new unfolding fl_ok_def by blast

section \<open>Calls that run alone\<close>

lemma fl_quiet:
  assumes "fl_ok N s" and "\<forall>t. fl_at s t = Idle"
  obtains ns where "distinct ns" "chain (freeListNext s) (freeListHead s) ns"
    "set ns \<inter> out s = {}" "set ns \<union> out s = {..<N}"
    "\<forall>n \<in> set ns. freeListRefs s n = 1" "\<forall>n \<in> out s. freeListRefs s n = 0"
proof -
  obtain st ns where inv: "fl_inv N st ns s" using assms(1) unfolding fl_ok_def by blast
  have tm: "temps (fl_at s) n = {}" for n using assms(2) by (simp add: temps_def)
  have st: "st n = Out \<or> st n = Listed" if "n < N" for n
    using fl_invD(2) [OF inv that] tm assms(2) unfolding node_ok_def by (cases "st n") auto
  have r: "freeListRefs s n = refs_of (st n) 0" if "n < N" for n
    using fl_invD(2) [OF inv that] tm unfolding node_ok_def by simp
  have l: "distinct ns" "chain (freeListNext s) (freeListHead s) ns" "set ns = {n. n < N \<and> st n = Listed}"
    using fl_invD(3) [OF inv] unfolding list_ok_def by auto
  show ?thesis
  proof (rule that [OF l(1,2)])
    show "set ns \<union> out s = {..<N}" using l(3) fl_invD(4) [OF inv] st by auto
  qed (use l(3) fl_invD(4) [OF inv] r in \<open>auto simp: refs_of_def\<close>)
qed

text \<open>
  Three threads over two nodes: thread 3 holds a reference to node 0 while thread 2 takes it,
  gives it back and must leave the insertion to thread 3.
\<close>

definition contended :: "fl_turn list" where
  "contended = FlAdd 1 0 # replicate 5 (FlStep 1) @ FlGet 3 # replicate 4 (FlStep 3)
     @ FlGet 2 # replicate 5 (FlStep 2)"

definition contended_end :: "fl_turn list" where
  "contended_end = contended @ FlStep 2 # FlAdd 2 0 # replicate 2 (FlStep 2) @ replicate 6 (FlStep 3)"

lemma contended_threads:
  "\<forall>m \<in> set contended. thread_of m < 2 ^ 30" "\<forall>m \<in> set contended_end. thread_of m < 2 ^ 30"
  by (simp_all add: contended_def contended_end_def)

lemma contended_run: "fl_at (fl_run contended (new_freelist 2)) 2 = GetDone 0"
  by code_simp

lemma fl_at_run:
  "\<forall>m \<in> set ms. thread_of m \<noteq> t \<Longrightarrow> fl_at (fl_run ms s) t = fl_at s t"
  unfolding fl_run_def
proof (induction ms arbitrary: s)
  case (Cons m ms)
  then have "fl_at (fl_move m s) t = fl_at s t"
    by (cases m) (auto simp: begin_add_def begin_get_def fl_defs split: fl_pc.splits)
  then show ?case using Cons by simp
qed simp

lemma contended_end_run:
  "\<forall>t. fl_at (fl_run contended_end (new_freelist 2)) t = Idle"
  "freeListHead (fl_run contended_end (new_freelist 2)) = Some 0"
proof -
  have "fl_at (fl_run contended_end (new_freelist 2)) t = Idle" if "t \<notin> {1, 2, 3}" for t
    using that by (subst fl_at_run) (auto simp: contended_def contended_end_def new_freelist_def)
  moreover have "map (fl_at (fl_run contended_end (new_freelist 2))) [1, 2, 3] = [Idle, Idle, Idle]" by code_simp
  ultimately show "\<forall>t. fl_at (fl_run contended_end (new_freelist 2)) t = Idle" by (metis insertE list.inject list.simps(9) singletonD)
  show "freeListHead (fl_run contended_end (new_freelist 2)) = Some 0" by code_simp
qed

lemma add_alone:
  assumes "fl_at s t = Idle" and "n \<in> out s" and "freeListRefs s n = 0"
  shows "(fl_step t ^^ 5) (begin_add t n s) = s\<lparr>freeListHead := Some n, freeListRefs := (freeListRefs s)(n := 1),
      freeListNext := (freeListNext s)(n := freeListHead s), out := out s - {n}\<rparr>"
proof -
  have idle: "(fl_at s)(t := Idle) = fl_at s" using assms(1) by (rule fun_upd_idem)
  then show ?thesis using assms by (cases s) (simp add: begin_add_def fl_defs numeral_eq_Suc)
qed

lemma try_get_alone:
  assumes "fl_at s t = Idle" and "freeListHead s = Some n" and "freeListRefs s n = 1"
  shows "(fl_step t ^^ 6) (begin_get t s) = s\<lparr>freeListHead := freeListNext s n,
      freeListRefs := (freeListRefs s)(n := 0), out := insert n (out s)\<rparr>"
proof -
  have idle: "(fl_at s)(t := Idle) = fl_at s" using assms(1) by (rule fun_upd_idem)
  have "(1 :: u32) AND REFS_MASK \<noteq> 0" by (simp add: REFS_MASK_def)
  then show ?thesis using assms idle by (cases s) (simp add: begin_get_def fl_defs numeral_eq_Suc)
qed

lemma try_get_empty_alone:
  assumes "fl_at s t = Idle" and "freeListHead s = None"
  shows "fl_step t (begin_get t s) = s"
  using assms fun_upd_idem [of "fl_at s" t Idle] by (simp add: begin_get_def fl_defs)

section \<open>Properties\<close>

text \<open>
  C9. Whatever the interleaving of up to \<open>2 ^ 30\<close> threads, \<open>try_get\<close> never hands out a node that
  somebody holds, and no two threads are handed the same node.  The assertion of the source,
  that the should-be-on-freelist bit is clear when a node has been taken off the list, holds.\<close>

theorem try_get_exclusive:
  assumes "\<forall>m \<in> set ms. thread_of m < 2 ^ 30" and "fl_at (fl_run ms (new_freelist N)) t = GetDone n"
  shows "n < N \<and> n \<notin> out (fl_run ms (new_freelist N))
     \<and> freeListRefs (fl_run ms (new_freelist N)) n AND SHOULD_BE_ON_FREELIST = 0
     \<and> (\<forall>u. fl_at (fl_run ms (new_freelist N)) u = GetDone n \<longrightarrow> u = t)"
proof -
  let ?s = "fl_run ms (new_freelist N)"
  obtain st ns where inv: "fl_inv N st ns ?s"
    using fl_ok_run [OF assms(1) fl_ok_new] unfolding fl_ok_def by blast
  note th = fl_invD(1) [OF inv]
  have "t < 2 ^ 30" using threads_okD(2) [OF th, of t] assms(2) by simp
  moreover have "n < N" using threads_okD(1) [OF th, of t] assms(2) by simp
  moreover have "u = t" if "fl_at ?s u = GetDone n" for u
    using threads_okD(3) [OF th, of u n t] that assms(2) by simp
  ultimately show ?thesis using get_done_inv(2,3) [OF inv _ assms(2)] by blast
qed

theorem try_get_exclusive_witness:
  "fl_at (fl_run contended (new_freelist 2)) 2 = GetDone 0 \<and> 0 \<notin> out (fl_run contended (new_freelist 2))
   \<and> freeListRefs (fl_run contended (new_freelist 2)) 0 AND SHOULD_BE_ON_FREELIST = 0"
  using try_get_exclusive [OF contended_threads(1) contended_run] contended_run by blast

text \<open>
  C16. No node leaks: whenever no call is in progress, every node is either held by a caller or
  on the list, never both, and the list is a finite chain without repetition.\<close>

theorem freelist_no_leak:
  assumes "\<forall>m \<in> set ms. thread_of m < 2 ^ 30" and "\<forall>t. fl_at (fl_run ms (new_freelist N)) t = Idle"
  shows "\<exists>ns. distinct ns
     \<and> chain (freeListNext (fl_run ms (new_freelist N))) (freeListHead (fl_run ms (new_freelist N))) ns
     \<and> set ns \<inter> out (fl_run ms (new_freelist N)) = {} \<and> set ns \<union> out (fl_run ms (new_freelist N)) = {..<N}"
  using fl_quiet [OF fl_ok_run [OF assms(1) fl_ok_new] assms(2)] by metis

theorem freelist_no_leak_witness:
  "freeListHead (fl_run contended_end (new_freelist 2)) = Some 0
   \<and> (\<exists>ns. distinct ns
     \<and> chain (freeListNext (fl_run contended_end (new_freelist 2))) (freeListHead (fl_run contended_end (new_freelist 2))) ns
     \<and> set ns \<inter> out (fl_run contended_end (new_freelist 2)) = {}
     \<and> set ns \<union> out (fl_run contended_end (new_freelist 2)) = {..<2})"
  using freelist_no_leak [OF contended_threads(2) contended_end_run(1)] contended_end_run(2) by blast

text \<open>
  C20. Between calls the free list is a stack: a call of \<open>add\<close> that is not interrupted pushes its
  node, one of \<open>try_get\<close> pops the top node and hands it out, or returns nothing and changes
  nothing when the list is empty.\<close>

theorem freelist_stack:
  assumes "\<forall>m \<in> set ms. thread_of m < 2 ^ 30" and "\<forall>t. fl_at s t = Idle" and "s = fl_run ms (new_freelist N)"
  shows "(\<forall>n \<in> out s. (fl_step t ^^ 5) (begin_add t n s)
            = s\<lparr>freeListHead := Some n, freeListRefs := (freeListRefs s)(n := 1),
                freeListNext := (freeListNext s)(n := freeListHead s), out := out s - {n}\<rparr>)
     \<and> (\<forall>n. freeListHead s = Some n \<longrightarrow> (fl_step t ^^ 6) (begin_get t s)
            = s\<lparr>freeListHead := freeListNext s n, freeListRefs := (freeListRefs s)(n := 0), out := insert n (out s)\<rparr>)
     \<and> (freeListHead s = None \<longrightarrow> fl_step t (begin_get t s) = s)"
proof -
  have ok: "fl_ok N s" using fl_ok_run [OF assms(1) fl_ok_new] assms(3) by simp
  obtain ns where ns: "chain (freeListNext s) (freeListHead s) ns" "\<forall>n \<in> set ns. freeListRefs s n = 1"
    and out: "\<forall>n \<in> out s. freeListRefs s n = 0"
    using fl_quiet [OF ok assms(2)] by metis
  have "freeListRefs s n = 1" if "freeListHead s = Some n" for n using ns that by (cases ns) auto
  then show ?thesis using assms(2) out add_alone try_get_alone try_get_empty_alone by (simp del: fl_step.simps)
qed

theorem freelist_stack_witness:
  "freeListHead (fl_run contended_end (new_freelist 2)) = Some 0
   \<and> freeListHead ((fl_step 7 ^^ 6) (begin_get 7 (fl_run contended_end (new_freelist 2))))
      = freeListNext (fl_run contended_end (new_freelist 2)) 0"
  using freelist_stack [OF contended_threads(2) contended_end_run(1) refl, of 7] contended_end_run(2) by simp

end
