(* ===== verification/Block_Queue.thy ===== *)
theory Block_Queue
  imports Concurrent_Queue
begin

text \<open>
  How an implicit producer of \<open>common/concurrentqueue.h\<close> stores its elements: in blocks of 32
  cells, found through a circular index of blocks that doubles when it is full, taken from the
  initial pool, the free list or the allocator, and given to the free list when their last
  element has been dequeued.  Operations are atomic here; the free list is then a stack, as
  \<open>Free_List\<close> shows.  An assertion that fails and a null pointer that is used are \<open>None\<close>.
\<close>

named_theorems block_simps

section \<open>Blocks and where they come from\<close>

text \<open>The counter counts in the implicit context; the flags of the explicit one are left out.\<close>

record 'a block =
  elements :: "u64 \<Rightarrow> 'a option"
  elementsCompletelyDequeued :: u64
  dynamicallyAllocated :: bool

definition new_block :: "'a block" where
  "new_block = \<lparr>elements = (\<lambda>_. None), elementsCompletelyDequeued = 0, dynamicallyAllocated = True\<rparr>"

text \<open>\<open>operator[]\<close>.\<close>

definition slot :: "u64 \<Rightarrow> u64" where
  "slot idx = idx AND (BLOCK_SIZE - 1)"

definition set_empty :: "'a block \<Rightarrow> (bool \<times> 'a block) option" where
  "set_empty b =
     (let prevVal = elementsCompletelyDequeued b
      in if prevVal < BLOCK_SIZE
         then Some (prevVal = BLOCK_SIZE - 1, b\<lparr>elementsCompletelyDequeued := prevVal + 1\<rparr>) else None)"

definition reset_empty :: "'a block \<Rightarrow> 'a block" where
  "reset_empty b = b\<lparr>elementsCompletelyDequeued := 0\<rparr>"

text \<open>
  A block is known by a number: those below \<open>initialBlockPoolSize\<close> are the initial array, and
  \<open>next_block\<close> is what the allocator returns next.  \<open>mallocs\<close> says which of the next allocations
  succeed; past its end they all do.
\<close>

record 'a pool =
  blocks :: "nat \<Rightarrow> 'a block"
  initialBlockPoolSize :: u64
  initialBlockPoolIndex :: u64
  freeList :: "nat list"
  next_block :: nat
  mallocs :: "bool list"

definition malloc :: "'a pool \<Rightarrow> bool \<times> 'a pool" where
  "malloc s = (case mallocs s of [] \<Rightarrow> (True, s) | ok # oks \<Rightarrow> (ok, s\<lparr>mallocs := oks\<rparr>))"

definition populate_initial_block_list :: "u64 \<Rightarrow> 'a pool \<Rightarrow> 'a pool" where
  "populate_initial_block_list blockCount s =
     (if blockCount = 0 then s\<lparr>initialBlockPoolSize := 0\<rparr>
      else case malloc s of (ok, s1) \<Rightarrow>
        if ok then s1\<lparr>initialBlockPoolSize := blockCount, next_block := unat blockCount,
          blocks := (\<lambda>b. if b < unat blockCount then new_block\<lparr>dynamicallyAllocated := False\<rparr> else blocks s1 b)\<rparr>
        else s1\<lparr>initialBlockPoolSize := 0\<rparr>)"

text \<open>The constructor: at least \<open>capacity\<close> cells, rounded up to whole blocks.\<close>

definition new_pool :: "u64 \<Rightarrow> bool list \<Rightarrow> 'a pool" where
  "new_pool queue_capacity ms =
     populate_initial_block_list
       (queue_capacity div BLOCK_SIZE + (if queue_capacity AND (BLOCK_SIZE - 1) = 0 then 0 else 1))
       \<lparr>blocks = (\<lambda>_. new_block), initialBlockPoolSize = 0, initialBlockPoolIndex = 0, freeList = [],
        next_block = 0, mallocs = ms\<rparr>"

definition try_get_block_from_initial_pool :: "'a pool \<Rightarrow> nat option \<times> 'a pool" where
  "try_get_block_from_initial_pool s =
     (if initialBlockPoolIndex s \<ge> initialBlockPoolSize s then (None, s)
      else let idx = initialBlockPoolIndex s; s1 = s\<lparr>initialBlockPoolIndex := idx + 1\<rparr>
           in (if idx < initialBlockPoolSize s1 then Some (unat idx) else None, s1))"

definition add_block_to_free_list :: "nat \<Rightarrow> 'a pool \<Rightarrow> 'a pool" where
  "add_block_to_free_list b s = s\<lparr>freeList := b # freeList s\<rparr>"

definition try_get_block_from_free_list :: "'a pool \<Rightarrow> nat option \<times> 'a pool" where
  "try_get_block_from_free_list s =
     (case freeList s of [] \<Rightarrow> (None, s) | b # bs \<Rightarrow> (Some b, s\<lparr>freeList := bs\<rparr>))"

definition create_block :: "'a pool \<Rightarrow> nat option \<times> 'a pool" where
  "create_block s =
     (case malloc s of (ok, s1) \<Rightarrow>
        if ok then (Some (next_block s1),
          s1\<lparr>blocks := (blocks s1)(next_block s1 := new_block), next_block := next_block s1 + 1\<rparr>)
        else (None, s1))"

datatype allocation_mode = CanAlloc | CannotAlloc

definition requisition_block :: "allocation_mode \<Rightarrow> 'a pool \<Rightarrow> nat option \<times> 'a pool" where
  "requisition_block canAlloc s =
     (case try_get_block_from_initial_pool s of
        (Some b, s1) \<Rightarrow> (Some b, s1)
      | (None, s1) \<Rightarrow>
          (case try_get_block_from_free_list s1 of
             (Some b, s2) \<Rightarrow> (Some b, s2)
           | (None, s2) \<Rightarrow> if canAlloc = CanAlloc then create_block s2 else (None, s2)))"

section \<open>The index of blocks\<close>

definition INVALID_BLOCK_BASE :: u64 where "INVALID_BLOCK_BASE = 1"

text \<open>
  The source's index holds pointers to entries, which a larger index shares with the one it
  replaces; \<open>blockIndex\<close> only ever leads to the newest index, so the model keeps the entries of
  that one, and neither \<open>entries\<close> nor \<open>prev\<close>, which serve to free the memory.
\<close>

record block_index_entry =
  key :: u64
  val :: "nat option"

record block_index_header =
  capacity :: u64
  tail :: u64
  index :: "block_index_entry list"

record block_producer =
  bp_owner :: tid
  bp_tailIndex :: u64
  bp_headIndex :: u64
  bp_dequeueOptimisticCount :: u64
  bp_dequeueOvercommit :: u64
  tailBlock :: "nat option"
  nextBlockIndexCapacity :: u64
  blockIndex :: "block_index_header option"

text \<open>The loop that copies the entries of the old index, from the one behind its tail around to its tail.\<close>

definition copy_index :: "block_index_header \<Rightarrow> block_index_entry list" where
  "copy_index h = map (\<lambda>i. index h ! (Suc (unat (tail h) + i) mod unat (capacity h))) [0..<unat (capacity h)]"

text \<open>\<open>junk\<close> is what the memory of a new entry's value holds.\<close>

definition new_block_index :: "nat option \<Rightarrow> block_producer \<times> 'a pool \<Rightarrow> bool \<times> block_producer \<times> 'a pool" where
  "new_block_index junk st =
     (case st of (p, s) \<Rightarrow>
        let prevCapacity = (case blockIndex p of None \<Rightarrow> 0 | Some h \<Rightarrow> capacity h);
            entryCount = (case blockIndex p of None \<Rightarrow> nextBlockIndexCapacity p | Some h \<Rightarrow> prevCapacity)
        in case malloc s of (ok, s1) \<Rightarrow>
          if \<not> ok then (False, p, s1)
          else let idx = (case blockIndex p of None \<Rightarrow> [] | Some h \<Rightarrow> copy_index h)
                 @ replicate (unat entryCount) \<lparr>key = INVALID_BLOCK_BASE, val = junk\<rparr>;
               h = \<lparr>capacity = nextBlockIndexCapacity p,
                    tail = (prevCapacity - 1) AND (nextBlockIndexCapacity p - 1), index = idx\<rparr>
          in (True, p\<lparr>blockIndex := Some h, nextBlockIndexCapacity := push_bit 1 (nextBlockIndexCapacity p)\<rparr>, s1))"

definition IMPLICIT_INITIAL_INDEX_SIZE :: u64 where "IMPLICIT_INITIAL_INDEX_SIZE = 32"

definition new_block_producer :: "nat option \<Rightarrow> tid \<Rightarrow> 'a pool \<Rightarrow> block_producer \<times> 'a pool" where
  "new_block_producer junk t s =
     snd (new_block_index junk (\<lparr>bp_owner = t, bp_tailIndex = 0, bp_headIndex = 0, bp_dequeueOptimisticCount = 0,
       bp_dequeueOvercommit = 0, tailBlock = None, nextBlockIndexCapacity = IMPLICIT_INITIAL_INDEX_SIZE,
       blockIndex = None\<rparr>, s))"

definition next_tail :: "block_index_header \<Rightarrow> u64" where
  "next_tail h = (tail h + 1) AND (capacity h - 1)"

definition put_key :: "u64 \<Rightarrow> block_index_header \<Rightarrow> block_index_header" where
  "put_key k h = h\<lparr>index := (index h)[unat (next_tail h) := (index h ! unat (next_tail h))\<lparr>key := k\<rparr>], tail := next_tail h\<rparr>"

definition put_val :: "u64 \<Rightarrow> nat option \<Rightarrow> block_producer \<Rightarrow> block_producer" where
  "put_val i v p = p\<lparr>blockIndex := map_option (\<lambda>h. h\<lparr>index := (index h)[unat i := (index h ! unat i)\<lparr>val := v\<rparr>]\<rparr>) (blockIndex p)\<rparr>"

text \<open>The result is the position of the entry, or \<open>Some None\<close> when there is no room and no memory.\<close>

definition insert_block_index_entry ::
    "allocation_mode \<Rightarrow> nat option \<Rightarrow> u64 \<Rightarrow> block_producer \<times> 'a pool \<Rightarrow> (u64 option \<times> block_producer \<times> 'a pool) option" where
  "insert_block_index_entry mode junk blockStartIndex st =
     (case st of (p, s) \<Rightarrow>
        case blockIndex p of
          None \<Rightarrow> Some (None, p, s)
        | Some h \<Rightarrow>
            let e = index h ! unat (next_tail h)
            in if key e = INVALID_BLOCK_BASE \<or> val e = None
               then Some (Some (next_tail h), p\<lparr>blockIndex := Some (put_key blockStartIndex h)\<rparr>, s)
               else if mode = CannotAlloc then Some (None, p, s)
               else case new_block_index junk (p, s) of
                      (False, p1, s1) \<Rightarrow> Some (None, p1, s1)
                    | (True, p1, s1) \<Rightarrow>
                        (case blockIndex p1 of
                           None \<Rightarrow> None
                         | Some h1 \<Rightarrow>
                             if key (index h1 ! unat (next_tail h1)) = INVALID_BLOCK_BASE
                             then Some (Some (next_tail h1), p1\<lparr>blockIndex := Some (put_key blockStartIndex h1)\<rparr>, s1)
                             else None))"

definition rewind_block_index_tail :: "block_producer \<Rightarrow> block_producer" where
  "rewind_block_index_tail p =
     p\<lparr>blockIndex := map_option (\<lambda>h. h\<lparr>tail := (tail h - 1) AND (capacity h - 1)\<rparr>) (blockIndex p)\<rparr>"

text \<open>
  The difference of the indices is cast to a signed type and then divided by \<open>BLOCK_SIZE\<close>, which
  is a \<open>size_t\<close>: the division is one of unsigned numbers.
\<close>

definition get_block_index_index_for_index :: "u64 \<Rightarrow> block_producer \<Rightarrow> u64 option" where
  "get_block_index_index_for_index idx p =
     (case blockIndex p of
        None \<Rightarrow> None
      | Some h \<Rightarrow>
          let base = idx AND NOT (BLOCK_SIZE - 1);
              tailBase = key (index h ! unat (tail h))
          in if tailBase = INVALID_BLOCK_BASE then None
             else let offset = (base - tailBase) div BLOCK_SIZE;
                      i = (tail h + offset) AND (capacity h - 1)
                  in if key (index h ! unat i) = base \<and> val (index h ! unat i) \<noteq> None then Some i else None)"

definition get_block_for_index :: "u64 \<Rightarrow> block_producer \<Rightarrow> (u64 \<times> nat) option" where
  "get_block_for_index idx p =
     Option.bind (get_block_index_index_for_index idx p)
       (\<lambda>i. Option.bind (blockIndex p) (\<lambda>h. map_option (Pair i) (val (index h ! unat i))))"

section \<open>Enqueue and dequeue\<close>

definition update_block :: "nat \<Rightarrow> ('a block \<Rightarrow> 'a block) \<Rightarrow> 'a pool \<Rightarrow> 'a pool" where
  "update_block b f s = s\<lparr>blocks := (blocks s)(b := f (blocks s b))\<rparr>"

definition store_element :: "'a \<Rightarrow> block_producer \<times> 'a pool \<Rightarrow> (bool \<times> block_producer \<times> 'a pool) option" where
  "store_element x st =
     (case st of (p, s) \<Rightarrow>
        case tailBlock p of
          None \<Rightarrow> None
        | Some b \<Rightarrow>
            Some (True, p\<lparr>bp_tailIndex := 1 + bp_tailIndex p\<rparr>,
              update_block b (\<lambda>bl. bl\<lparr>elements := (elements bl)(slot (bp_tailIndex p) := Some x)\<rparr>) s))"

definition block_enqueue ::
    "allocation_mode \<Rightarrow> nat option \<Rightarrow> 'a \<Rightarrow> block_producer \<times> 'a pool \<Rightarrow> (bool \<times> block_producer \<times> 'a pool) option" where
  "block_enqueue mode junk x st =
     (case st of (p, s) \<Rightarrow>
        let currentTailIndex = bp_tailIndex p in
        if currentTailIndex AND (BLOCK_SIZE - 1) = 0 then
          if circular_less_than currentTailIndex (bp_headIndex p) then None
          else if \<not> circular_less_than (bp_headIndex p) (currentTailIndex + BLOCK_SIZE) then Some (False, p, s)
          else Option.bind (insert_block_index_entry mode junk currentTailIndex (p, s)) (\<lambda>(r, p1, s1).
            case r of
              None \<Rightarrow> Some (False, p1, s1)
            | Some i \<Rightarrow>
                (case requisition_block mode s1 of
                   (None, s2) \<Rightarrow> Some (False, put_val i None (rewind_block_index_tail p1), s2)
                 | (Some b, s2) \<Rightarrow>
                     store_element x ((put_val i (Some b) p1)\<lparr>tailBlock := Some b\<rparr>, update_block b reset_empty s2)))
        else store_element x (p, s))"

text \<open>Count the element; a block whose last element is gone leaves the index for the free list.\<close>

definition mark_dequeued :: "u64 \<Rightarrow> nat \<Rightarrow> block_producer \<times> 'a pool \<Rightarrow> (block_producer \<times> 'a pool) option" where
  "mark_dequeued i b st =
     (case st of (p, s) \<Rightarrow>
        Option.bind (set_empty (blocks s b)) (\<lambda>(last, bl).
          let s1 = s\<lparr>blocks := (blocks s)(b := bl)\<rparr>
          in if last then Some (put_val i None p, add_block_to_free_list b s1) else Some (p, s1)))"

definition block_dequeue :: "block_producer \<times> 'a pool \<Rightarrow> ('a option \<times> block_producer \<times> 'a pool) option" where
  "block_dequeue st =
     (case st of (p, s) \<Rightarrow>
        let tail = bp_tailIndex p; overcommit = bp_dequeueOvercommit p
        in if circular_less_than (bp_dequeueOptimisticCount p - overcommit) tail then
             let myDequeueCount = bp_dequeueOptimisticCount p;
                 p1 = p\<lparr>bp_dequeueOptimisticCount := myDequeueCount + 1\<rparr>
             in if circular_less_than (myDequeueCount - overcommit) tail then
                  let idx = bp_headIndex p1; p2 = p1\<lparr>bp_headIndex := idx + 1\<rparr>
                  in Option.bind (get_block_for_index idx p2) (\<lambda>(i, b).
                       let el = elements (blocks s b) (slot idx);
                           s1 = update_block b (\<lambda>bl. bl\<lparr>elements := (elements bl)(slot idx := None)\<rparr>) s
                       in map_option (Pair el) (mark_dequeued i b (p2, s1)))
                else Some (None, p1\<lparr>bp_dequeueOvercommit := bp_dequeueOvercommit p1 + 1\<rparr>, s)
           else Some (None, p, s))"

section \<open>The index, read from behind its tail\<close>

definition view :: "block_index_header \<Rightarrow> block_index_entry list" where
  "view h = rotate (Suc (unat (tail h))) (index h)"

definition header_ok :: "nat \<Rightarrow> block_index_header \<Rightarrow> bool" where
  "header_ok m h \<longleftrightarrow> m \<le> 59 \<and> 0 < m \<and> capacity h = 2 ^ m \<and> length (index h) = 2 ^ m \<and> unat (tail h) < 2 ^ m"

lemma unat_exp_u64: "m < 64 \<Longrightarrow> unat (2 ^ m :: u64) = 2 ^ m"
proof -
  assume "m < 64"
  then have "(2 :: nat) ^ m < 2 ^ 64" by (intro power_strict_increasing) auto
  then have "unat (of_nat (2 ^ m) :: u64) = 2 ^ m" by (simp only: unat_of_nat) simp
  then show ?thesis by simp
qed

lemma unat_and_mask_u64: "m < 64 \<Longrightarrow> unat (w AND (2 ^ m - 1) :: u64) = unat w mod 2 ^ m"
proof -
  assume m: "m < 64"
  have "w AND (2 ^ m - 1) = take_bit m w" by (simp add: take_bit_eq_mask mask_eq_exp_minus_1)
  then have "unat (w AND (2 ^ m - 1)) = take_bit m (unat w)" by (simp only: unsigned_take_bit_eq)
  then show ?thesis by (simp only: take_bit_eq_mod)
qed

lemma header_ok_le: "header_ok m h \<Longrightarrow> (2 :: nat) ^ m \<le> 2 ^ 59"
  by (rule power_increasing) (simp_all add: header_ok_def)

lemma header_okD:
  assumes "header_ok m h"
  shows "unat (capacity h) = 2 ^ m" and "length (index h) = 2 ^ m" and "length (view h) = 2 ^ m"
    and "unat (tail h) < 2 ^ m" and "unat (w AND (capacity h - 1)) = unat w mod 2 ^ m"
    and "unat (next_tail h) = Suc (unat (tail h)) mod 2 ^ m" and "m < 64"
proof -
  show m: "m < 64" "length (index h) = 2 ^ m" "unat (tail h) < 2 ^ m" using assms by (auto simp: header_ok_def)
  then show "length (view h) = 2 ^ m" by (simp add: view_def)
  have c: "capacity h = 2 ^ m" using assms by (simp add: header_ok_def)
  then show "unat (capacity h) = 2 ^ m" using m(1) by (simp add: unat_exp_u64)
  show mask: "unat (w AND (capacity h - 1)) = unat w mod 2 ^ m" for w using m(1) c by (simp add: unat_and_mask_u64)
  have "(2 :: nat) ^ m \<le> 2 ^ 59" by (rule header_ok_le [OF assms])
  then have "unat (tail h + 1) = Suc (unat (tail h))" using m(3) by (simp add: unat_word_ariths)
  then show "unat (next_tail h) = Suc (unat (tail h)) mod 2 ^ m" using mask unfolding next_tail_def by simp
qed

lemma nth_view: "header_ok m h \<Longrightarrow> i < 2 ^ m \<Longrightarrow> view h ! i = index h ! ((Suc (unat (tail h)) + i) mod 2 ^ m)"
  unfolding view_def using header_okD(2) [of m h] nth_rotate [of i "index h" "Suc (unat (tail h))"] by simp

lemma hd_view: "header_ok m h \<Longrightarrow> hd (view h) = index h ! unat (next_tail h)"
  using nth_view [of m h 0] header_okD(3,6) [of m h] by (simp add: hd_conv_nth flip: length_greater_0_conv)

lemma copy_index_view: "header_ok m h \<Longrightarrow> copy_index h = view h"
  using nth_view [of m h] header_okD(1,3) [of m h] unfolding copy_index_def by (intro nth_equalityI) auto

lemma header_ok_put_key: "header_ok m h \<Longrightarrow> header_ok m (put_key k h)"
  using header_okD(6) [of m h] by (simp add: header_ok_def put_key_def)

lemma mod_shift_eq: "i < c \<Longrightarrow> j < c \<Longrightarrow> (a + i) mod c = (a + j) mod (c :: nat) \<longleftrightarrow> i = j"
proof
  assume c: "i < c" "j < c" and e: "(a + i) mod c = (a + j) mod c"
  show "i = j"
  proof (cases "i \<le> j")
    case True
    then have "c dvd (a + j) - (a + i)" using e by (metis mod_eq_dvd_iff_nat add_le_mono le_refl)
    then show ?thesis using c True by (auto dest: dvd_imp_le)
  next
    case False
    then have "c dvd (a + i) - (a + j)" using e by (metis mod_eq_dvd_iff_nat add_le_mono le_refl nat_le_linear)
    then show ?thesis using c False by (auto dest: dvd_imp_le)
  qed
qed simp

lemma view_update:
  assumes "header_ok m h" and "i < 2 ^ m"
  shows "view (h\<lparr>index := (index h)[(Suc (unat (tail h)) + i) mod 2 ^ m := e]\<rparr>) = (view h)[i := e]"
proof (rule nth_equalityI)
  let ?h = "h\<lparr>index := (index h)[(Suc (unat (tail h)) + i) mod 2 ^ m := e]\<rparr>"
  have ok: "header_ok m ?h" using assms(1) by (simp add: header_ok_def)
  show "length (view ?h) = length ((view h)[i := e])" using header_okD(3) assms(1) ok by simp
  fix j assume "j < length (view ?h)"
  then have j: "j < 2 ^ m" using header_okD(3) [OF ok] by simp
  then show "view ?h ! j = (view h)[i := e] ! j"
    using nth_view [OF ok j] nth_view [OF assms(1) j] header_okD(2,3) [OF assms(1)] assms(2)
      mod_shift_eq [OF assms(2) j, of "Suc (unat (tail h))"]
    by (simp add: nth_list_update)
qed

lemma view_put_key:
  assumes "header_ok m h"
  shows "view (put_key k h) = tl (view h) @ [(hd (view h))\<lparr>key := k\<rparr>]"
proof -
  let ?t = "unat (tail h)" and ?e = "(hd (view h))\<lparr>key := k\<rparr>"
  let ?h1 = "h\<lparr>index := (index h)[(Suc ?t + 0) mod 2 ^ m := ?e]\<rparr>"
  have v: "view ?h1 = (view h)[0 := ?e]" by (rule view_update [OF assms]) simp
  have nt: "unat (next_tail h) = Suc ?t mod 2 ^ m" using header_okD(6) [OF assms] .
  have "put_key k h = ?h1\<lparr>tail := next_tail h\<rparr>" using hd_view [OF assms] nt by (simp add: put_key_def)
  then have "view (put_key k h) = rotate (Suc (Suc ?t mod 2 ^ m)) (index ?h1)" by (simp add: view_def nt)
  also have "\<dots> = rotate1 (rotate (Suc ?t mod 2 ^ m) (index ?h1))" by (rule rotate_Suc)
  also have "rotate (Suc ?t mod 2 ^ m) (index ?h1) = rotate (Suc ?t) (index ?h1)"
    using header_okD(2) [OF assms] rotate_conv_mod [of "Suc ?t" "index ?h1"] by simp
  also have "\<dots> = view ?h1" by (simp add: view_def)
  finally have "view (put_key k h) = rotate1 ((view h)[0 := ?e])" unfolding v .
  moreover have "view h \<noteq> []" using header_okD(3) [OF assms] by (metis length_0_conv power_not_zero zero_neq_numeral)
  ultimately show ?thesis by (cases "view h") simp_all
qed

text \<open>Giving up: the tail goes back, and the entry is free.\<close>

lemma rewind_view:
  fixes k h
  assumes "header_ok m h"
  defines "h1 \<equiv> put_key k h"
  defines "h2 \<equiv> h1\<lparr>tail := (tail h1 - 1) AND (capacity h1 - 1)\<rparr>"
  defines "h3 \<equiv> h2\<lparr>index := (index h2)[unat (next_tail h) := (index h2 ! unat (next_tail h))\<lparr>val := None\<rparr>]\<rparr>"
  shows "header_ok m h3" and "view h3 = (hd (view h))\<lparr>key := k, val := None\<rparr> # tl (view h)"
proof -
  let ?t = "unat (tail h)"
  have nt: "unat (next_tail h) = Suc ?t mod 2 ^ m" using header_okD(6) [OF assms(1)] .
  have ok1: "header_ok m h1" unfolding h1_def by (rule header_ok_put_key [OF assms(1)])
  have c: "capacity h1 = capacity h" "tail h1 = next_tail h" by (simp_all add: h1_def put_key_def)
  have "(next_tail h - 1) AND (capacity h - 1) = tail h"
  proof -
    have p: "(2 :: nat) ^ m \<le> 2 ^ 59" by (rule header_ok_le [OF assms(1)])
    have "unat (next_tail h - 1) mod 2 ^ m = ?t"
    proof (cases "Suc ?t = 2 ^ m")
      case True
      then have "next_tail h = 0" using nt by (simp add: unat_eq_0)
      then have "unat (next_tail h - 1) = 2 ^ 64 - 1" by (simp add: unat_minus_1_u64)
      moreover have "(2 :: nat) ^ 64 - 1 = (2 ^ (64 - m) - 1) * 2 ^ m + (2 ^ m - 1)"
      proof -
        have "(2 :: nat) ^ (64 - m) * 2 ^ m = 2 ^ 64" using assms(1) by (simp add: header_ok_def flip: power_add)
        then show ?thesis using p by (simp add: diff_mult_distrib)
      qed
      ultimately show ?thesis using True by (metis diff_Suc_1 header_okD(4) [OF assms(1)] mod_less mod_mult_self3)
    next
      case False
      then have "Suc ?t < 2 ^ m" using header_okD(4) [OF assms(1)] by simp
      then have "unat (next_tail h) = Suc ?t" using nt by simp
      then have "unat (next_tail h - 1) = ?t" using unat_minus_one [of "next_tail h"] by (metis diff_Suc_1 nat.distinct(1) unat_0)
      then show ?thesis using header_okD(4) [OF assms(1)] by simp
    qed
    then show ?thesis using header_okD(5) [OF assms(1), of "next_tail h - 1"] unat_u64_inj by metis
  qed
  then have h3: "h3 = h\<lparr>index := (index h)[(Suc ?t + 0) mod 2 ^ m := (hd (view h))\<lparr>key := k, val := None\<rparr>]\<rparr>"
    using hd_view [OF assms(1)] nt header_okD(2) [OF assms(1)]
    by (simp add: h3_def h2_def c) (simp add: h1_def put_key_def)
  show "header_ok m h3" using assms(1) unfolding h3 by (simp add: header_ok_def)
  have "view h \<noteq> []" using header_okD(3) [OF assms(1)] by (metis length_0_conv power_not_zero zero_neq_numeral)
  then show "view h3 = (hd (view h))\<lparr>key := k, val := None\<rparr> # tl (view h)"
    unfolding h3 view_update [OF assms(1) zero_less_power [OF zero_less_numeral]] by (cases "view h") simp_all
qed

definition fresh_entry :: "nat option \<Rightarrow> block_index_entry" where
  "fresh_entry junk = \<lparr>key = INVALID_BLOCK_BASE, val = junk\<rparr>"

text \<open>Growing puts as many free entries again in front of the old ones.\<close>

lemma grow_view:
  fixes h junk
  assumes "header_ok m h" and "m \<le> 58"
  defines "h1 \<equiv> \<lparr>capacity = 2 ^ Suc m, tail = (capacity h - 1) AND (2 ^ Suc m - 1),
    index = copy_index h @ replicate (unat (capacity h)) (fresh_entry junk)\<rparr>"
  shows "header_ok (Suc m) h1" and "view h1 = replicate (2 ^ m) (fresh_entry junk) @ view h"
proof -
  have cap: "unat (capacity h) = 2 ^ m" using header_okD(1) [OF assms(1)] .
  have "capacity h \<noteq> 0" using cap by (metis power_not_zero unat_0 zero_neq_numeral)
  then have "unat (capacity h - 1) = 2 ^ m - 1" using cap unat_minus_one by metis
  moreover have "((2 :: nat) ^ m - 1) mod (2 * 2 ^ m) = 2 ^ m - 1"
    by (rule mod_less, rule le_less_trans [OF diff_le_self]) simp
  ultimately have tl: "unat (tail h1) = 2 ^ m - 1"
    using unat_and_mask_u64 [of "Suc m" "capacity h - 1"] assms(2) by (simp add: h1_def)
  have len: "length (view h) = 2 ^ m" using header_okD(3) [OF assms(1)] .
  have idx: "index h1 = view h @ replicate (2 ^ m) (fresh_entry junk)"
    using copy_index_view [OF assms(1)] cap by (simp add: h1_def)
  have "(2 :: nat) ^ m - 1 < 2 ^ Suc m" by (rule le_less_trans [OF diff_le_self]) simp
  then show "header_ok (Suc m) h1"
    using assms(2) tl len idx unfolding header_ok_def by (simp add: h1_def)
  have sl: "Suc (2 ^ m - 1) = length (view h)" using len by simp
  show "view h1 = replicate (2 ^ m) (fresh_entry junk) @ view h"
    unfolding view_def [of h1] tl idx sl by (rule rotate_append)
qed

text \<open>The entry of the \<open>k\<close>-th of the last \<open>n\<close> blocks: the unsigned division is as good as a signed one.\<close>

lemma lookup_position:
  assumes "header_ok m h" and "k < n" and "n \<le> 2 ^ m" and "d = n - 1 - k"
  shows "unat ((tail h + (- of_nat (32 * d)) div BLOCK_SIZE) AND (capacity h - 1))
       = (Suc (unat (tail h)) + (2 ^ m - n + k)) mod 2 ^ m"
proof -
  have m: "m \<le> 59" "(2 :: nat) ^ m \<le> 2 ^ 59"
    using assms(1) header_ok_le [OF assms(1)] by (simp_all add: header_ok_def)
  have d: "d < 2 ^ m" "d < 2 ^ 59" using assms(2-4) m(2) by auto
  have t: "unat (tail h) < 2 ^ m" using header_okD(4) [OF assms(1)] .
  define y :: u64 where "y = (- of_nat (32 * d)) div BLOCK_SIZE"
  have y: "unat y mod 2 ^ m = (2 ^ m - d) mod 2 ^ m \<and> unat y \<le> 2 ^ 59"
  proof (cases "d = 0")
    case False
    have u: "unat (of_nat (32 * d) :: u64) = 32 * d" using d(2) by (intro unat_of_nat_u64) simp
    then have "(of_nat (32 * d) :: u64) \<noteq> 0" using False by (metis mult_is_0 unat_0 zero_neq_numeral)
    then have "unat (- of_nat (32 * d) :: u64) = 2 ^ 64 - 32 * d" using unat_minus_u64 u by metis
    then have "unat y = (2 ^ 64 - 32 * d) div 32" by (simp add: y_def BLOCK_SIZE_def unat_div)
    also have "\<dots> = 2 ^ 59 - d"
    proof -
      have "(2 :: nat) ^ 64 - 32 * d = (2 ^ 59 - d) * 32" using d(2) by (simp add: diff_mult_distrib)
      then show ?thesis by simp
    qed
    finally have y: "unat y = 2 ^ 59 - d" .
    moreover have "(2 :: nat) ^ 59 - d = (2 ^ (59 - m) - 1) * 2 ^ m + (2 ^ m - d)"
    proof -
      have "(2 :: nat) ^ (59 - m) * 2 ^ m = 2 ^ 59" using m(1) by (simp flip: power_add)
      then show ?thesis using m(2) d by (simp add: diff_mult_distrib)
    qed
    ultimately show ?thesis by (metis diff_le_self mod_mult_self3)
  qed (simp add: y_def BLOCK_SIZE_def)
  then have "unat (tail h + y) = unat (tail h) + unat y" using t m(2) by (simp add: unat_word_ariths)
  then have "unat ((tail h + y) AND (capacity h - 1)) = (unat (tail h) + (2 ^ m - d)) mod 2 ^ m"
    using header_okD(5) [OF assms(1), of "tail h + y"] y by (metis mod_add_right_eq)
  moreover have "Suc (unat (tail h)) + (2 ^ m - n + k) = unat (tail h) + (2 ^ m - d)" using assms(2-4) by simp
  ultimately show ?thesis unfolding y_def by (simp only:)
qed

section \<open>The invariant of a producer and its blocks\<close>

text \<open>
  \<open>hb\<close> is the base of the head's block, the head is \<open>r\<close> cells behind it and there are \<open>n\<close> elements;
  \<open>bids\<close> are the blocks that hold them, oldest first.
\<close>

definition shape :: "u64 \<Rightarrow> nat \<Rightarrow> nat \<Rightarrow> nat list \<Rightarrow> block_producer \<Rightarrow> bool" where
  "shape hb r n bids p \<longleftrightarrow>
     bp_headIndex p = hb + of_nat r \<and> bp_tailIndex p = hb + of_nat (r + n) \<and> hb AND 31 = 0 \<and> r < 32
     \<and> r + n \<le> 32 * length bids \<and> 32 * length bids < r + n + 32 \<and> length bids \<le> 2 ^ 58"

definition live_entry :: "u64 \<Rightarrow> nat list \<Rightarrow> nat \<Rightarrow> block_index_entry" where
  "live_entry hb bids k = \<lparr>key = hb + of_nat (32 * k), val = Some (bids ! k)\<rparr>"

definition free_entry :: "block_index_entry \<Rightarrow> bool" where
  "free_entry e \<longleftrightarrow> key e = INVALID_BLOCK_BASE \<or> val e = None"

definition index_inv :: "u64 \<Rightarrow> nat list \<Rightarrow> block_producer \<Rightarrow> nat \<Rightarrow> block_index_header \<Rightarrow> block_index_entry list \<Rightarrow> bool" where
  "index_inv hb bids p m h frees \<longleftrightarrow>
     blockIndex p = Some h \<and> header_ok m h \<and> nextBlockIndexCapacity p = 2 ^ Suc m
     \<and> view h = frees @ map (live_entry hb bids) [0..<length bids] \<and> (\<forall>e \<in> set frees. free_entry e)"

definition stored :: "nat \<Rightarrow> nat \<Rightarrow> nat list \<Rightarrow> block_producer \<Rightarrow> 'a pool \<Rightarrow> bool" where
  "stored r n bids p s \<longleftrightarrow>
     distinct bids \<and> (bids \<noteq> [] \<longrightarrow> tailBlock p = Some (last bids))
     \<and> (\<forall>k < length bids. elementsCompletelyDequeued (blocks s (bids ! k)) = (if k = 0 then of_nat r else 0))"

text \<open>Every block is in use, free, still in the initial pool or not yet allocated.\<close>

definition allocated :: "'a pool \<Rightarrow> nat set" where
  "allocated s = {b. b < unat (initialBlockPoolIndex s)} \<union> {b. unat (initialBlockPoolSize s) \<le> b \<and> b < next_block s}"

definition pool_ok :: "nat set \<Rightarrow> 'a pool \<Rightarrow> bool" where
  "pool_ok used s \<longleftrightarrow>
     distinct (freeList s) \<and> used \<inter> set (freeList s) = {} \<and> used \<union> set (freeList s) = allocated s
     \<and> initialBlockPoolIndex s \<le> initialBlockPoolSize s \<and> unat (initialBlockPoolSize s) \<le> next_block s"

lemma slot_base:
  assumes "hb AND 31 = (0 :: u64)"
  shows "slot (hb + of_nat j) = of_nat (j mod 32)" and "(hb + of_nat j) AND NOT (BLOCK_SIZE - 1) = hb + of_nat (32 * (j div 32))"
proof -
  have "unat hb mod 32 = 0" using assms unat_and_31 [of hb] by simp
  then have "unat ((hb + of_nat j) AND 31) = j mod 32" using unat_and_31 unat_add_mod_32 [of hb j] by (metis add.left_neutral mod_add_eq mod_mod_trivial)
  moreover have "unat (of_nat (j mod 32) :: u64) = j mod 32"
    by (rule unat_of_nat_u64) (rule less_trans [of _ 32], simp_all)
  ultimately have a: "(hb + of_nat j) AND 31 = of_nat (j mod 32)" by (metis unat_u64_inj)
  then show "slot (hb + of_nat j) = of_nat (j mod 32)" by (simp add: slot_def BLOCK_SIZE_def)
  have "(of_nat j :: u64) = of_nat (32 * (j div 32)) + of_nat (j mod 32)"
    by (metis mult_div_mod_eq of_nat_add)
  then show "(hb + of_nat j) AND NOT (BLOCK_SIZE - 1) = hb + of_nat (32 * (j div 32))"
    using and_not_31 [of "hb + of_nat j"] a by (simp add: BLOCK_SIZE_def)
qed

lemma key_valid: "hb AND 31 = (0 :: u64) \<Longrightarrow> hb + of_nat (32 * k) \<noteq> INVALID_BLOCK_BASE"
proof
  assume h: "hb AND 31 = 0" "hb + of_nat (32 * k) = INVALID_BLOCK_BASE"
  have "slot (hb + of_nat (32 * k)) = 0" using slot_base(1) [OF h(1), of "32 * k"] by simp
  then show False unfolding h(2) by (simp add: slot_def BLOCK_SIZE_def INVALID_BLOCK_BASE_def)
qed

lemma index_inv_frees: "index_inv hb bids p m h frees \<Longrightarrow> length frees + length bids = 2 ^ m"
  using header_okD(3) [of m h] by (auto simp: index_inv_def)

lemma index_inv_entry:
  assumes "index_inv hb bids p m h frees" and "k < length bids"
  shows "index h ! ((Suc (unat (tail h)) + (length frees + k)) mod 2 ^ m) = live_entry hb bids k"
proof -
  have ok: "header_ok m h" and v: "view h = frees @ map (live_entry hb bids) [0..<length bids]"
    using assms(1) unfolding index_inv_def by blast+
  have "length frees + k < 2 ^ m" using index_inv_frees [OF assms(1)] assms(2) by simp
  then have "index h ! ((Suc (unat (tail h)) + (length frees + k)) mod 2 ^ m) = view h ! (length frees + k)"
    using nth_view [OF ok] by simp
  then show ?thesis unfolding v using assms(2) by (simp add: nth_append)
qed

text \<open>The lookup finds the block of an element, and the assertions of the source hold.\<close>

lemma lookup_block:
  assumes inv: "index_inv hb bids p m h frees" and j: "j < 32 * length bids" and "hb AND 31 = 0"
  shows "\<exists>i. get_block_for_index (hb + of_nat j) p = Some (i, bids ! (j div 32))
    \<and> unat i = (Suc (unat (tail h)) + (length frees + j div 32)) mod 2 ^ m"
proof -
  let ?k = "j div 32" and ?n = "length bids" and ?t = "unat (tail h)"
  have ok: "header_ok m h" and p: "blockIndex p = Some h" using inv unfolding index_inv_def by blast+
  have k: "?k < ?n" using j by (simp add: less_mult_imp_div_less mult.commute)
  note len = index_inv_frees [OF inv]
  have e: "index h ! ?t = live_entry hb bids (?n - 1)"
  proof -
    have "Suc ?t + (length frees + (?n - 1)) = ?t + 2 ^ m" using len k by simp
    then have "(Suc ?t + (length frees + (?n - 1))) mod 2 ^ m = ?t"
      using header_okD(4) [OF ok] by (metis mod_add_self2 mod_less)
    then show ?thesis using index_inv_entry [OF inv, of "?n - 1"] k by simp
  qed
  let ?i = "(tail h + ((hb + of_nat (32 * ?k)) - (hb + of_nat (32 * (?n - 1)))) div BLOCK_SIZE) AND (capacity h - 1)"
  have "(hb + of_nat (32 * ?k)) - (hb + of_nat (32 * (?n - 1))) = - of_nat (32 * (?n - 1 - ?k))"
    using k by (simp add: of_nat_diff algebra_simps)
  moreover have "2 ^ m - ?n = length frees" using len by simp
  ultimately have i: "unat ?i = (Suc ?t + (length frees + ?k)) mod 2 ^ m"
    using lookup_position [OF ok k _ refl] len by simp
  then have "index h ! unat ?i = live_entry hb bids ?k" using index_inv_entry [OF inv k] by simp
  then have "get_block_index_index_for_index (hb + of_nat j) p = Some ?i"
    using p e slot_base(2) [OF assms(3), of j] key_valid [OF assms(3)]
    by (simp add: get_block_index_index_for_index_def Let_def live_entry_def)
  then have "get_block_for_index (hb + of_nat j) p = Some (?i, bids ! ?k)"
    using p \<open>index h ! unat ?i = live_entry hb bids ?k\<close> by (simp add: get_block_for_index_def live_entry_def)
  then show ?thesis using i by blast
qed

section \<open>Taking and returning blocks\<close>

lemma malloc_cases:
  obtains (ok) ms where "malloc s = (True, s\<lparr>mallocs := ms\<rparr>)" "mallocs s = [] \<longrightarrow> ms = []"
  | (fails) ms where "malloc s = (False, s\<lparr>mallocs := ms\<rparr>)" "mallocs s \<noteq> []"
proof (cases "mallocs s")
  case Nil
  then have "malloc s = (True, s\<lparr>mallocs := []\<rparr>)" by (simp add: malloc_def)
  then show thesis by (rule ok) simp
next
  case (Cons m ms)
  then show thesis using ok [of ms] fails [of ms] by (cases m) (simp_all add: malloc_def)
qed

lemma malloc_plenty: "mallocs s = [] \<Longrightarrow> malloc s = (True, s)"
  by (simp add: malloc_def)

lemma pool_ok_mallocs [simp]: "pool_ok used (s\<lparr>mallocs := ms\<rparr>) \<longleftrightarrow> pool_ok used s"
  by (simp add: pool_ok_def allocated_def)

lemma pool_ok_update [simp]: "pool_ok used (update_block b f s) \<longleftrightarrow> pool_ok used s"
  by (simp add: pool_ok_def allocated_def update_block_def)

lemma pool_ok_free:
  "pool_ok used s \<Longrightarrow> b \<in> used \<Longrightarrow> pool_ok (used - {b}) (add_block_to_free_list b s)"
  by (auto simp: pool_ok_def allocated_def add_block_to_free_list_def)

lemma initial_pool_block:
  assumes "pool_ok used s" and "initialBlockPoolIndex s < initialBlockPoolSize s"
  defines "b \<equiv> unat (initialBlockPoolIndex s)" and "s' \<equiv> s\<lparr>initialBlockPoolIndex := initialBlockPoolIndex s + 1\<rparr>"
  shows "try_get_block_from_initial_pool s = (Some b, s')" and "b \<notin> used" and "pool_ok (insert b used) s'"
proof -
  have i: "unat (initialBlockPoolIndex s) < unat (initialBlockPoolSize s)" using assms(2) by (simp add: word_less_nat_alt)
  moreover have "unat (initialBlockPoolSize s) < 2 ^ 64" using unsigned_less [of "initialBlockPoolSize s"] by simp
  ultimately have "unat (initialBlockPoolIndex s) + 1 < 2 ^ 64" by simp
  then have u: "unat (initialBlockPoolIndex s + 1) = Suc b" using unat_add_small [of "initialBlockPoolIndex s" 1] by (simp add: b_def)
  have nin: "b \<notin> allocated s" using i by (simp add: allocated_def b_def)
  then show "b \<notin> used" using assms(1) by (auto simp: pool_ok_def)
  have "allocated s' = insert b (allocated s)" using u by (auto simp: allocated_def s'_def b_def less_Suc_eq)
  then show "pool_ok (insert b used) s'"
    using assms(1) nin i u by (auto simp: pool_ok_def s'_def word_le_nat_alt b_def)
  show "try_get_block_from_initial_pool s = (Some b, s')"
    using assms(2) by (simp add: try_get_block_from_initial_pool_def s'_def b_def Let_def linorder_not_le)
qed

lemma created_block:
  assumes "pool_ok used s"
  defines "s' \<equiv> s\<lparr>blocks := (blocks s)(next_block s := new_block), next_block := next_block s + 1\<rparr>"
  shows "next_block s \<notin> used" and "pool_ok (insert (next_block s) used) s'"
proof -
  have le: "unat (initialBlockPoolIndex s) \<le> unat (initialBlockPoolSize s)" "unat (initialBlockPoolSize s) \<le> next_block s"
    using assms(1) by (auto simp: pool_ok_def word_le_nat_alt)
  then have nin: "next_block s \<notin> allocated s" by (auto simp: allocated_def)
  then show "next_block s \<notin> used" using assms(1) by (auto simp: pool_ok_def)
  have "allocated s' = insert (next_block s) (allocated s)" using le by (auto simp: allocated_def s'_def)
  then show "pool_ok (insert (next_block s) used) s'"
    using assms(1) nin by (auto simp: pool_ok_def s'_def)
qed

text \<open>The block that \<open>requisition_block\<close> returns is in use nowhere, and no other block changes.\<close>

lemma requisition_block_fresh:
  assumes "pool_ok used s" and "requisition_block mode s = (r, s')"
  shows "case r of
      None \<Rightarrow> pool_ok used s' \<and> blocks s' = blocks s \<and> (mode = CannotAlloc \<or> mallocs s \<noteq> [])
    | Some b \<Rightarrow> b \<notin> used \<and> pool_ok (insert b used) s' \<and> (\<forall>c. c \<noteq> b \<longrightarrow> blocks s' c = blocks s c)"
    and "mallocs s = [] \<Longrightarrow> mallocs s' = []"
proof -
  show m: "mallocs s' = []" if "mallocs s = []"
    using assms(2) that unfolding requisition_block_def
    by (auto simp: try_get_block_from_initial_pool_def try_get_block_from_free_list_def create_block_def malloc_def Let_def
        split: if_splits option.splits list.splits)
  show "case r of
      None \<Rightarrow> pool_ok used s' \<and> blocks s' = blocks s \<and> (mode = CannotAlloc \<or> mallocs s \<noteq> [])
    | Some b \<Rightarrow> b \<notin> used \<and> pool_ok (insert b used) s' \<and> (\<forall>c. c \<noteq> b \<longrightarrow> blocks s' c = blocks s c)"
  proof (cases "initialBlockPoolIndex s < initialBlockPoolSize s")
    case True
    then show ?thesis using initial_pool_block [OF assms(1)] assms(2) by (auto simp: requisition_block_def)
  next
    case False
    then have n: "try_get_block_from_initial_pool s = (None, s)" by (simp add: try_get_block_from_initial_pool_def)
    show ?thesis
    proof (cases "freeList s")
      case (Cons b bs)
      then have "s' = s\<lparr>freeList := bs\<rparr>" "r = Some b"
        using assms(2) n by (auto simp: requisition_block_def try_get_block_from_free_list_def)
      then show ?thesis using assms(1) Cons by (auto simp: pool_ok_def allocated_def)
    next
      case Nil
      then have r: "(r, s') = (if mode = CanAlloc then create_block s else (None, s))"
        using assms(2) n by (simp add: requisition_block_def try_get_block_from_free_list_def)
      show ?thesis
      proof (cases "mode = CanAlloc")
        case True
        show ?thesis
        proof (cases rule: malloc_cases [of s])
          case (ok ms)
          then show ?thesis using r True created_block [of used "s\<lparr>mallocs := ms\<rparr>"] assms(1)
            by (auto simp: create_block_def)
        next
          case (fails ms)
          then show ?thesis using r True assms(1) by (simp add: create_block_def)
        qed
      next
        case False
        then show ?thesis using r assms(1) by (cases mode) auto
      qed
    qed
  qed
qed

section \<open>A new entry of the index\<close>

text \<open>A producer that differs only in its index of blocks.\<close>

definition same_but_index :: "block_producer \<Rightarrow> block_producer \<Rightarrow> bool" where
  "same_but_index p q \<longleftrightarrow> bp_owner q = bp_owner p \<and> bp_tailIndex q = bp_tailIndex p \<and> bp_headIndex q = bp_headIndex p
     \<and> bp_dequeueOptimisticCount q = bp_dequeueOptimisticCount p
     \<and> bp_dequeueOvercommit q = bp_dequeueOvercommit p \<and> tailBlock q = tailBlock p"

lemma same_but_index_steps [simp]:
  "same_but_index p p" "same_but_index p (put_val i v q) \<longleftrightarrow> same_but_index p q"
  "same_but_index p (rewind_block_index_tail q) \<longleftrightarrow> same_but_index p q"
  "same_but_index p (q\<lparr>blockIndex := bi\<rparr>) \<longleftrightarrow> same_but_index p q"
  by (simp_all add: same_but_index_def put_val_def rewind_block_index_tail_def)

text \<open>An entry is found in the index, which has been doubled if it was full, or memory has run out.\<close>

lemma insert_entry:
  assumes inv: "index_inv hb bids p m h frees" and "length bids \<le> 2 ^ 58" and "hb AND 31 = 0"
  obtains (nomem) ms where "insert_block_index_entry mode junk k (p, s) = Some (None, p, s\<lparr>mallocs := ms\<rparr>)"
      "mallocs s = [] \<longrightarrow> ms = [] \<and> mode = CannotAlloc"
  | (room) q n g e fs ms where "insert_block_index_entry mode junk k (p, s)
        = Some (Some (next_tail g), q\<lparr>blockIndex := Some (put_key k g)\<rparr>, s\<lparr>mallocs := ms\<rparr>)"
      "index_inv hb bids q n g (e # fs)" "same_but_index p q" "mallocs s = [] \<longrightarrow> ms = []"
proof -
  have p: "blockIndex p = Some h" and ok: "header_ok m h" and nc: "nextBlockIndexCapacity p = 2 ^ Suc m"
    and v: "view h = frees @ map (live_entry hb bids) [0..<length bids]" and fr: "\<forall>e \<in> set frees. free_entry e"
    using inv unfolding index_inv_def by blast+
  show thesis
  proof (cases frees)
    case (Cons e fs)
    then have "free_entry (index h ! unat (next_tail h))" using hd_view [OF ok] v fr by simp
    then have "insert_block_index_entry mode junk k (p, s)
        = Some (Some (next_tail h), p\<lparr>blockIndex := Some (put_key k h)\<rparr>, s\<lparr>mallocs := mallocs s\<rparr>)"
      using p by (simp add: insert_block_index_entry_def Let_def free_entry_def)
    then show thesis using room [of h p "mallocs s" m e fs] inv Cons by simp
  next
    case Nil
    then have len: "length bids = 2 ^ m" using index_inv_frees [OF inv] by simp
    then have "(2 :: nat) ^ m \<le> 2 ^ 58" using assms(2) by simp
    then have m: "m \<le> 58" by (simp only: power_increasing_iff one_less_numeral_iff semiring_norm)
    have "bids \<noteq> []" using len by auto
    then have "hd (view h) = live_entry hb bids 0" using v Nil by (simp add: hd_map upt_rec)
    then have nf: "\<not> (key (index h ! unat (next_tail h)) = INVALID_BLOCK_BASE \<or> val (index h ! unat (next_tail h)) = None)"
      using hd_view [OF ok] key_valid [OF assms(3), of 0] by (simp add: live_entry_def)
    show thesis
    proof (cases "mode = CannotAlloc")
      case True
      then have "insert_block_index_entry mode junk k (p, s) = Some (None, p, s\<lparr>mallocs := mallocs s\<rparr>)"
        using p nf by (auto simp: insert_block_index_entry_def Let_def)
      then show thesis using nomem True by metis
    next
      case False
      show thesis
      proof (cases rule: malloc_cases [of s])
        case (ok ms)
        define g where "g = \<lparr>capacity = 2 ^ Suc m, tail = (capacity h - 1) AND (2 ^ Suc m - 1),
          index = copy_index h @ replicate (unat (capacity h)) (fresh_entry junk)\<rparr>"
        define q where "q = p\<lparr>blockIndex := Some g, nextBlockIndexCapacity := push_bit 1 (2 ^ Suc m)\<rparr>"
        note gv = grow_view [OF \<open>header_ok m h\<close> m, of junk, folded g_def]
        have nb: "new_block_index junk (p, s) = (True, q, s\<lparr>mallocs := ms\<rparr>)"
          using ok p nc by (simp add: new_block_index_def Let_def fresh_entry_def q_def g_def)
        have "hd (view g) = fresh_entry junk" unfolding gv(2) by (cases "(2 :: nat) ^ m") simp_all
        then have "key (index g ! unat (next_tail g)) = INVALID_BLOCK_BASE"
          using hd_view [OF gv(1)] by (simp add: fresh_entry_def)
        then have "insert_block_index_entry mode junk k (p, s)
            = Some (Some (next_tail g), q\<lparr>blockIndex := Some (put_key k g)\<rparr>, s\<lparr>mallocs := ms\<rparr>)"
          using p nf False nb by (auto simp: insert_block_index_entry_def Let_def q_def)
        moreover have "index_inv hb bids q (Suc m) g (replicate (2 ^ m) (fresh_entry junk))"
          using gv v Nil unfolding index_inv_def q_def by (simp add: push_bit_eq_mult free_entry_def fresh_entry_def)
        moreover obtain fs where "replicate (2 ^ m) (fresh_entry junk) = fresh_entry junk # fs"
          by (cases "(2 :: nat) ^ m") simp_all
        moreover have "same_but_index p q" unfolding same_but_index_def q_def by simp
        moreover have "mallocs s = [] \<longrightarrow> ms = []" by (rule ok)
        ultimately show thesis using room by metis
      next
        case (fails ms)
        then have "insert_block_index_entry mode junk k (p, s) = Some (None, p, s\<lparr>mallocs := ms\<rparr>)"
          using p nf False by (auto simp: insert_block_index_entry_def new_block_index_def Let_def)
        then show thesis using nomem fails(2) by metis
      qed
    qed
  qed
qed

lemma commit_entry:
  assumes "index_inv hb bids p m h (e # fs)" and "k = hb + of_nat (32 * length bids)"
  shows "\<exists>h'. index_inv hb (bids @ [b]) (put_val (next_tail h) (Some b) (p\<lparr>blockIndex := Some (put_key k h)\<rparr>)) m h' fs"
proof -
  have ok: "header_ok m h" and v: "view h = (e # fs) @ map (live_entry hb bids) [0..<length bids]"
    using assms(1) unfolding index_inv_def by blast+
  let ?h = "put_key k h" and ?i = "(2 :: nat) ^ m - 1"
  have ok': "header_ok m ?h" by (rule header_ok_put_key [OF ok])
  have v': "view ?h = fs @ map (live_entry hb bids) [0..<length bids] @ [e\<lparr>key := k\<rparr>]"
    using view_put_key [OF ok, of k] v by simp
  have len: "length fs + length bids = ?i" using index_inv_frees [OF assms(1)] by simp
  have t: "(Suc (unat (tail ?h)) + ?i) mod 2 ^ m = unat (next_tail h)"
    using header_okD(4) [OF ok'] by (simp add: put_key_def)
  let ?e = "e\<lparr>key := k, val := Some b\<rparr>"
  have "view ?h ! ?i = e\<lparr>key := k\<rparr>" unfolding v' len [symmetric] by (simp add: nth_append)
  then have ix: "index ?h ! unat (next_tail h) = e\<lparr>key := k\<rparr>"
    using nth_view [OF ok', of ?i] unfolding t by simp
  let ?h2 = "?h\<lparr>index := (index ?h)[(Suc (unat (tail ?h)) + ?i) mod 2 ^ m := ?e]\<rparr>"
  have "view ?h2 = (view ?h)[?i := ?e]" by (rule view_update [OF ok']) simp
  also have "\<dots> = fs @ map (live_entry hb bids) [0..<length bids] @ [?e]"
    unfolding v' len [symmetric] by (simp add: list_update_append)
  also have "map (live_entry hb bids) [0..<length bids] @ [?e] = map (live_entry hb (bids @ [b])) [0..<length (bids @ [b])]"
    using assms(2) by (simp add: live_entry_def nth_append)
  finally have "view ?h2 = fs @ map (live_entry hb (bids @ [b])) [0..<length (bids @ [b])]" .
  moreover have "header_ok m ?h2" using ok' by (simp add: header_ok_def)
  moreover have "put_val (next_tail h) (Some b) (p\<lparr>blockIndex := Some ?h\<rparr>) = p\<lparr>blockIndex := Some ?h2\<rparr>"
    using ix unfolding t by (simp add: put_val_def)
  ultimately show ?thesis
    using assms(1) unfolding index_inv_def by (intro exI [of _ ?h2]) (simp del: upt_Suc)
qed

lemma abandon_entry:
  assumes "index_inv hb bids p m h (e # fs)"
  shows "\<exists>h' e'. index_inv hb bids (put_val (next_tail h) None (rewind_block_index_tail (p\<lparr>blockIndex := Some (put_key k h)\<rparr>))) m h' (e' # fs)"
proof -
  have ok: "header_ok m h" and v: "view h = (e # fs) @ map (live_entry hb bids) [0..<length bids]"
    using assms(1) unfolding index_inv_def by blast+
  note r = rewind_view [OF ok, of k]
  show ?thesis
    using r v assms(1) unfolding index_inv_def by (simp add: put_val_def rewind_block_index_tail_def free_entry_def)
qed

section \<open>The cells that the blocks implement\<close>

definition block_cell :: "block_producer \<Rightarrow> 'a pool \<Rightarrow> u64 \<Rightarrow> 'a option" where
  "block_cell p s w =
     (if unat (w - bp_headIndex p) < unat (bp_tailIndex p - bp_headIndex p)
      then case get_block_for_index w p of None \<Rightarrow> None | Some (i, b) \<Rightarrow> elements (blocks s b) (slot w)
      else None)"

definition babs :: "block_producer \<times> 'a pool \<Rightarrow> 'a producer" where
  "babs st = (case st of (p, s) \<Rightarrow>
     \<lparr>owner = bp_owner p, tailIndex = bp_tailIndex p, headIndex = bp_headIndex p,
      dequeueOptimisticCount = bp_dequeueOptimisticCount p, dequeueOvercommit = bp_dequeueOvercommit p,
      cells = block_cell p s\<rparr>)"

definition cells_of :: "u64 \<Rightarrow> nat \<Rightarrow> nat \<Rightarrow> nat list \<Rightarrow> (nat \<Rightarrow> 'a block) \<Rightarrow> u64 \<Rightarrow> 'a option" where
  "cells_of hb r n bids bl w =
     (let i = unat (w - (hb + of_nat r))
      in if i < n then elements (bl (bids ! ((r + i) div 32))) (of_nat ((r + i) mod 32)) else None)"

lemma block_cell_eq:
  assumes inv: "index_inv hb bids p m h frees" and "hb AND 31 = 0" and "r + n \<le> 32 * length bids"
    and "length bids \<le> 2 ^ 58 + 1" and "bp_headIndex p = hb + of_nat r" and "bp_tailIndex p = hb + of_nat (r + n)"
  shows "block_cell p s = cells_of hb r n bids (blocks s)"
proof
  fix w
  let ?i = "unat (w - (hb + of_nat r))"
  have n: "unat (bp_tailIndex p - bp_headIndex p) = n"
    using assms(3-6) by (simp add: unat_of_nat_u64)
  show "block_cell p s w = cells_of hb r n bids (blocks s) w"
  proof (cases "?i < n")
    case True
    have w: "w = hb + of_nat (r + ?i)" by simp
    have "r + ?i < 32 * length bids" using True assms(3) by simp
    then obtain j where "get_block_for_index w p = Some (j, bids ! ((r + ?i) div 32))"
      using lookup_block [OF inv _ assms(2), of "r + ?i"] w by metis
    moreover have "slot w = of_nat ((r + ?i) mod 32)" using slot_base(1) [OF assms(2), of "r + ?i"] w by metis
    ultimately show ?thesis using True n assms(5) by (simp add: block_cell_def cells_of_def Let_def)
  qed (simp add: block_cell_def cells_of_def n [unfolded assms(5)] assms(5))
qed

lemma slot_inject: "a mod 32 = b mod 32 \<longleftrightarrow> (of_nat (a mod 32) :: u64) = of_nat (b mod 32)"
proof -
  have "a mod 32 < 2 ^ 64" "b mod 32 < 2 ^ 64" by (rule less_trans [of _ 32]; simp)+
  then show ?thesis by (simp only: of_nat_u64_eq)
qed

lemma cells_of_store:
  assumes "distinct bids" and "r + n < 32 * length bids" and "n < 2 ^ 64"
    and "\<And>b. bl' b = (if b = bids ! ((r + n) div 32)
           then (bl b)\<lparr>elements := (elements (bl b))(of_nat ((r + n) mod 32) := Some x)\<rparr> else bl b)"
  shows "cells_of hb r (Suc n) bids bl' = (cells_of hb r n bids bl)(hb + of_nat (r + n) := Some x)"
proof
  fix w
  let ?i = "unat (w - (hb + of_nat r))"
  have w: "w = hb + of_nat (r + ?i)" by simp
  have eq: "w = hb + of_nat (r + n) \<longleftrightarrow> ?i = n"
  proof
    assume "w = hb + of_nat (r + n)"
    then have "w - (hb + of_nat r) = of_nat n" by simp
    then show "?i = n" using assms(3) by (simp add: unat_of_nat_u64)
  qed (use w in metis)
  have "elements (bl' (bids ! ((r + ?i) div 32))) (of_nat ((r + ?i) mod 32))
      = elements (bl (bids ! ((r + ?i) div 32))) (of_nat ((r + ?i) mod 32))" if "?i < n"
  proof (cases "(r + ?i) div 32 = (r + n) div 32")
    case True
    then have "(r + ?i) mod 32 \<noteq> (r + n) mod 32" using that by (metis add_left_cancel less_irrefl mult_div_mod_eq)
    then show ?thesis using True slot_inject [of "r + ?i" "r + n"] by (simp add: assms(4))
  next
    case False
    have "(r + ?i) div 32 < length bids" "(r + n) div 32 < length bids"
      using that assms(2) by (simp_all add: less_mult_imp_div_less mult.commute)
    then show ?thesis using False assms(1) by (simp add: assms(4) nth_eq_iff_index_eq)
  qed
  then show "cells_of hb r (Suc n) bids bl' w = ((cells_of hb r n bids bl)(hb + of_nat (r + n) := Some x)) w"
    unfolding fun_upd_apply eq by (auto simp: cells_of_def Let_def less_Suc_eq assms(4))
qed

lemma nth_tl': "xs \<noteq> [] \<Longrightarrow> tl xs ! k = xs ! Suc k"
  by (cases xs) simp_all

lemma cells_of_drop:
  fixes hb r bids
  assumes "distinct bids" and "0 < n" and "r + n \<le> 32 * length bids" and "r < 32" and "n < 2 ^ 64"
    and bl': "\<And>b. elements (bl' b) = (if b = bids ! 0 then (elements (bl b))(of_nat r := None) else elements (bl b))"
  defines "hb' \<equiv> if r = 31 then hb + 32 else hb" and "r' \<equiv> if r = 31 then 0 else Suc r"
    and "bids' \<equiv> if r = 31 then tl bids else bids"
  shows "cells_of hb' r' (n - 1) bids' bl' = (cells_of hb r n bids bl)(hb + of_nat r := None)"
proof
  fix w
  let ?i = "unat (w - (hb + of_nat r))" and ?j = "unat (w - (hb' + of_nat r'))"
  have h: "hb' + of_nat r' = hb + of_nat r + 1" by (simp add: hb'_def r'_def)
  show "cells_of hb' r' (n - 1) bids' bl' w = ((cells_of hb r n bids bl)(hb + of_nat r := None)) w"
  proof (cases "w = hb + of_nat r")
    case True
    then have "w - (hb' + of_nat r') = - 1" using h by simp
    then have "?j = 2 ^ 64 - 1" by (simp only: unat_minus_1_u64)
    then have "\<not> ?j < n - 1" using assms(5) by linarith
    then show ?thesis using True by (simp add: cells_of_def Let_def)
  next
    case False
    then have ij: "?i = Suc ?j" using unat_diff_step [of w "hb + of_nat r"] h by simp
    have pos: "bids' ! ((r' + ?j) div 32) = bids ! ((r + ?i) div 32) \<and> (r' + ?j) mod 32 = (r + ?i) mod 32"
      if "?i < n"
    proof (cases "r = 31")
      case True
      have "bids \<noteq> []" using assms(2,3) by auto
      then show ?thesis using True ij by (simp add: bids'_def r'_def nth_tl' del: mult_Suc_right)
    qed (use ij in \<open>simp add: bids'_def r'_def\<close>)
    have "elements (bl' (bids ! ((r + ?i) div 32))) (of_nat ((r + ?i) mod 32))
        = elements (bl (bids ! ((r + ?i) div 32))) (of_nat ((r + ?i) mod 32))" if "?i < n"
    proof (cases "(r + ?i) div 32 = 0")
      case True
      then have "(r + ?i) mod 32 \<noteq> r mod 32" using ij assms(4) by simp
      then have "(of_nat ((r + ?i) mod 32) :: u64) \<noteq> of_nat r" using slot_inject [of "r + ?i" r] assms(4) by simp
      then show ?thesis by (simp add: bl')
    next
      case False
      have "(r + ?i) div 32 < length bids" using that assms(3) by (simp add: less_mult_imp_div_less mult.commute)
      moreover have "0 < length bids" using assms(2,3) by (cases bids) auto
      ultimately have "bids ! ((r + ?i) div 32) \<noteq> bids ! 0" using False assms(1) nth_eq_iff_index_eq by metis
      then show ?thesis by (simp add: bl')
    qed
    then show ?thesis using False pos ij by (auto simp: cells_of_def Let_def)
  qed
qed

section \<open>The invariant and its preservation\<close>

text \<open>\<open>F\<close> are the blocks that belong to other producers.\<close>

definition block_inv :: "nat set \<Rightarrow> block_producer \<times> 'a pool \<Rightarrow> bool" where
  "block_inv F st \<longleftrightarrow> (case st of (p, s) \<Rightarrow>
     wf_producer (babs (p, s))
     \<and> (\<exists>hb r n bids m h frees. shape hb r n bids p \<and> index_inv hb bids p m h frees \<and> stored r n bids p s
          \<and> F \<inter> set bids = {} \<and> pool_ok (F \<union> set bids) s))"

lemma store_element_ok:
  assumes inv: "index_inv hb bids p m h frees" and hb: "hb AND 31 = 0" "r < 32"
    and len: "r + n < 32 * length bids" "32 * length bids \<le> r + n + 32" "length bids \<le> 2 ^ 58"
    and p: "bp_headIndex p = hb + of_nat r" "bp_tailIndex p = hb + of_nat (r + n)"
    and st: "distinct bids" "tailBlock p = Some (bids ! ((r + n) div 32))"
      "\<forall>k < length bids. elementsCompletelyDequeued (blocks s (bids ! k)) = (if k = 0 then of_nat r else 0)"
  shows "\<exists>p' s'. store_element x (p, s) = Some (True, p', s') \<and> shape hb r (Suc n) bids p'
    \<and> index_inv hb bids p' m h frees \<and> stored r (Suc n) bids p' s' \<and> (\<forall>used. pool_ok used s' \<longleftrightarrow> pool_ok used s)
    \<and> mallocs s' = mallocs s \<and> (\<forall>b. b \<notin> set bids \<longrightarrow> blocks s' b = blocks s b)
    \<and> babs (p', s') = (babs (p, s))\<lparr>cells := (block_cell p s)(bp_tailIndex p := Some x), tailIndex := 1 + bp_tailIndex p\<rparr>"
proof -
  let ?b = "bids ! ((r + n) div 32)"
  let ?p = "p\<lparr>bp_tailIndex := 1 + bp_tailIndex p\<rparr>"
  let ?s = "update_block ?b (\<lambda>bl. bl\<lparr>elements := (elements bl)(slot (bp_tailIndex p) := Some x)\<rparr>) s"
  have slot: "slot (bp_tailIndex p) = of_nat ((r + n) mod 32)" unfolding p(2) by (rule slot_base(1) [OF hb(1)])
  have k: "(r + n) div 32 < length bids" using len(1) by (simp add: less_mult_imp_div_less mult.commute)
  have inv': "index_inv hb bids ?p m h frees" using inv by (simp add: index_inv_def)
  have "(r + n) div 32 = length bids - 1" using len(1,2) by linarith
  then have last: "?b = last bids" using k by (metis last_conv_nth length_0_conv less_nat_zero_code)
  have "block_cell ?p ?s = cells_of hb r (Suc n) bids (blocks ?s)"
    using p len hb by (intro block_cell_eq [OF inv']) (simp_all add: add.commute add.left_commute)
  also have "\<dots> = (cells_of hb r n bids (blocks s))(hb + of_nat (r + n) := Some x)"
    using st(1) len slot by (intro cells_of_store) (auto simp: update_block_def)
  also have "cells_of hb r n bids (blocks s) = block_cell p s"
    using p len hb by (intro block_cell_eq [OF inv, symmetric]) simp_all
  finally have "block_cell ?p ?s = (block_cell p s)(bp_tailIndex p := Some x)" unfolding p(2) .
  then have "babs (?p, ?s) = (babs (p, s))\<lparr>cells := (block_cell p s)(bp_tailIndex p := Some x), tailIndex := 1 + bp_tailIndex p\<rparr>"
    by (simp add: babs_def)
  moreover have "shape hb r (Suc n) bids ?p" using p len hb by (simp add: shape_def add.commute add.left_commute)
  moreover have "stored r (Suc n) bids ?p ?s" using st last by (auto simp: stored_def update_block_def)
  moreover have "\<forall>b. b \<notin> set bids \<longrightarrow> blocks ?s b = blocks s b" using k by (auto simp: update_block_def)
  moreover have "store_element x (p, s) = Some (True, ?p, ?s)" using st(2) by (simp add: store_element_def)
  moreover have "mallocs ?s = mallocs s" by (simp add: update_block_def)
  ultimately show ?thesis using inv' by (intro exI [of _ ?p] exI [of _ ?s]) simp
qed

text \<open>The abstraction looks only at the blocks that hold elements.\<close>

lemma cells_of_cong:
  assumes "r + n \<le> 32 * length bids" and "\<And>b. b \<in> set bids \<Longrightarrow> bl' b = bl b" and "\<And>k. k < length bids \<Longrightarrow> bids' ! k = bids ! k"
  shows "cells_of hb r n bids' bl' = cells_of hb r n bids bl"
proof
  fix w
  let ?i = "unat (w - (hb + of_nat r))"
  have "(r + ?i) div 32 < length bids" if "?i < n"
    using that assms(1) by (simp add: less_mult_imp_div_less mult.commute)
  then show "cells_of hb r n bids' bl' w = cells_of hb r n bids bl w"
    using assms(2,3) by (simp add: cells_of_def Let_def)
qed

lemma babs_cong:
  assumes "shape hb r n bids p" and "index_inv hb bids p m h frees" and "index_inv hb bids' q m' h' frees'"
    and "same_but_index p q" and "length bids \<le> length bids'" and "length bids' \<le> Suc (length bids)"
    and "\<And>b. b \<in> set bids \<Longrightarrow> blocks s' b = blocks s b" and "\<And>k. k < length bids \<Longrightarrow> bids' ! k = bids ! k"
  shows "babs (q, s') = babs (p, s)"
proof -
  have sh: "bp_headIndex p = hb + of_nat r" "bp_tailIndex p = hb + of_nat (r + n)" "hb AND 31 = 0"
    "r + n \<le> 32 * length bids" "length bids \<le> 2 ^ 58" using assms(1) by (auto simp: shape_def)
  have "block_cell q s' = cells_of hb r n bids' (blocks s')"
    using sh assms(4-6) by (intro block_cell_eq [OF assms(3)]) (auto simp: same_but_index_def)
  also have "\<dots> = cells_of hb r n bids (blocks s)" using sh(4) assms(7,8) by (intro cells_of_cong) auto
  also have "\<dots> = block_cell p s" using sh by (intro block_cell_eq [OF assms(2), symmetric]) auto
  finally show ?thesis using assms(4) by (simp add: babs_def same_but_index_def)
qed

lemma shape_same: "shape hb r n bids p \<Longrightarrow> same_but_index p q \<Longrightarrow> shape hb r n bids q"
  by (simp add: shape_def same_but_index_def)

lemma stored_same:
  "stored r n bids p s \<Longrightarrow> same_but_index p q \<Longrightarrow> (\<And>b. b \<in> set bids \<Longrightarrow> blocks s' b = blocks s b) \<Longrightarrow> stored r n bids q s'"
  by (simp add: stored_def same_but_index_def)

lemma shape_full:
  assumes "shape hb r n bids p" and "(r + n) mod 32 = 0"
  shows "r + n = 32 * length bids"
proof -
  obtain k where "r + n = 32 * k" using assms(2) by (metis add_0_right mult_div_mod_eq)
  then show ?thesis using assms(1) by (simp add: shape_def)
qed

text \<open>At the end of a block: a new one is entered into the index and the element goes to its first cell.\<close>

lemma enqueue_new_block:
  assumes sh: "shape hb r n bids p" and inv: "index_inv hb bids p m h frees" and st: "stored r n bids p s"
    and F: "F \<inter> set bids = {}" "pool_ok (F \<union> set bids) s"
    and full: "(r + n) mod 32 = 0" and "Suc (length bids) \<le> 2 ^ 58"
    and i: "index_inv hb bids q m' g (e # fs)" "same_but_index p q"
    and b: "b \<notin> F \<union> set bids" "pool_ok (insert b (F \<union> set bids)) s2" "\<forall>c. c \<noteq> b \<longrightarrow> blocks s2 c = blocks s c"
  shows "\<exists>p' s'. store_element x ((put_val (next_tail g) (Some b) (q\<lparr>blockIndex := Some (put_key (bp_tailIndex p) g)\<rparr>))\<lparr>tailBlock := Some b\<rparr>,
        update_block b reset_empty s2) = Some (True, p', s')
    \<and> (\<exists>bids' m'' h'' frees''. shape hb r (Suc n) bids' p' \<and> index_inv hb bids' p' m'' h'' frees'' \<and> stored r (Suc n) bids' p' s'
         \<and> F \<inter> set bids' = {} \<and> pool_ok (F \<union> set bids') s')
    \<and> mallocs s' = mallocs s2 \<and> (\<forall>c \<in> F. blocks s' c = blocks s c)
    \<and> babs (p', s') = (babs (p, s))\<lparr>cells := (block_cell p s)(bp_tailIndex p := Some x), tailIndex := 1 + bp_tailIndex p\<rparr>"
proof -
  have shp: "bp_headIndex p = hb + of_nat r" "bp_tailIndex p = hb + of_nat (r + n)" "hb AND 31 = 0" "r < 32"
    and len: "r + n = 32 * length bids" using sh shape_full [OF sh full] by (auto simp: shape_def)
  let ?bids = "bids @ [b]" and ?s = "update_block b reset_empty s2"
  let ?q = "put_val (next_tail g) (Some b) (q\<lparr>blockIndex := Some (put_key (bp_tailIndex p) g)\<rparr>)"
  let ?p = "?q\<lparr>tailBlock := Some b\<rparr>"
  obtain h' where h': "index_inv hb ?bids ?q m' h' fs" using commit_entry [OF i(1), of "bp_tailIndex p" b] shp(2) len by auto
  then have inv': "index_inv hb ?bids ?p m' h' fs" by (simp add: index_inv_def)
  have same: "same_but_index p ?q" using i(2) by simp
  have cnt: "\<forall>k < length ?bids. elementsCompletelyDequeued (blocks ?s (?bids ! k)) = (if k = 0 then of_nat r else 0)"
  proof (intro allI impI)
    fix k assume "k < length ?bids"
    then consider "k < length bids" | "k = length bids" by fastforce
    then show "elementsCompletelyDequeued (blocks ?s (?bids ! k)) = (if k = 0 then of_nat r else 0)"
    proof cases
      case 1
      then have "bids ! k \<noteq> b" using b(1) by (metis UnCI nth_mem)
      then show ?thesis using 1 st b(3) by (simp add: stored_def update_block_def nth_append)
    next
      case 2
      have "r = 0" if "length bids = 0" using that len by simp
      then show ?thesis using 2 by (auto simp: update_block_def reset_empty_def)
    qed
  qed
  have "\<exists>p' s'. store_element x (?p, ?s) = Some (True, p', s') \<and> shape hb r (Suc n) ?bids p'
    \<and> index_inv hb ?bids p' m' h' fs \<and> stored r (Suc n) ?bids p' s' \<and> (\<forall>used. pool_ok used s' \<longleftrightarrow> pool_ok used ?s)
    \<and> mallocs s' = mallocs ?s \<and> (\<forall>c. c \<notin> set ?bids \<longrightarrow> blocks s' c = blocks ?s c)
    \<and> babs (p', s') = (babs (?p, ?s))\<lparr>cells := (block_cell ?p ?s)(bp_tailIndex ?p := Some x), tailIndex := 1 + bp_tailIndex ?p\<rparr>"
    using shp len same st b(1) cnt assms(7)
    by (intro store_element_ok [OF inv']) (auto simp: same_but_index_def stored_def nth_append)
  then obtain p' s' where r: "store_element x (?p, ?s) = Some (True, p', s')" "shape hb r (Suc n) ?bids p'"
    "index_inv hb ?bids p' m' h' fs" "stored r (Suc n) ?bids p' s'" "\<forall>used. pool_ok used s' \<longleftrightarrow> pool_ok used ?s"
    "mallocs s' = mallocs ?s" "\<forall>c. c \<notin> set ?bids \<longrightarrow> blocks s' c = blocks ?s c"
    "babs (p', s') = (babs (?p, ?s))\<lparr>cells := (block_cell ?p ?s)(bp_tailIndex ?p := Some x), tailIndex := 1 + bp_tailIndex ?p\<rparr>"
    by blast
  have "babs (?q, ?s) = babs (p, s)"
    using b(1,3) by (intro babs_cong [OF sh inv h' same]) (auto simp: update_block_def nth_append)
  moreover have "babs (?p, ?s) = babs (?q, ?s)" "block_cell ?p ?s = block_cell ?q ?s"
    by (auto simp: babs_def block_cell_def fun_eq_iff get_block_for_index_def get_block_index_index_for_index_def)
  ultimately have ab: "babs (?p, ?s) = babs (p, s)" "block_cell ?p ?s = block_cell p s" "bp_tailIndex ?p = bp_tailIndex p"
    using same by (auto simp: babs_def same_but_index_def)
  have "\<forall>c \<in> F. blocks s' c = blocks s c" using r(7) b(1,3) F(1) by (auto simp: update_block_def)
  moreover have "F \<inter> set ?bids = {}" "pool_ok (F \<union> set ?bids) s'" using F(1) b(1,2) r(5) by auto
  moreover have "mallocs s' = mallocs s2" using r(6) by (simp add: update_block_def)
  ultimately show ?thesis using r(1-4) r(8) [unfolded ab] by blast
qed

lemma babs_mallocs [simp]: "babs (p, s\<lparr>mallocs := ms\<rparr>) = babs (p, s)"
  by (simp add: babs_def block_cell_def fun_eq_iff split: option.split)

lemma block_invI:
  "wf_producer (babs (p, s)) \<Longrightarrow> shape hb r n bids p \<Longrightarrow> index_inv hb bids p m h frees \<Longrightarrow> stored r n bids p s \<Longrightarrow>
   F \<inter> set bids = {} \<Longrightarrow> pool_ok (F \<union> set bids) s \<Longrightarrow> block_inv F (p, s)"
  unfolding block_inv_def by blast

text \<open>
  What an enqueue on blocks does: it fails no assertion, and it is the enqueue on cells, except that
  it may fail when memory runs out, and then nothing has changed.
\<close>

definition enqueue_refines ::
    "allocation_mode \<Rightarrow> nat set \<Rightarrow> 'a \<Rightarrow> block_producer \<times> 'a pool \<Rightarrow> (bool \<times> block_producer \<times> 'a pool) option \<Rightarrow> bool" where
  "enqueue_refines mode F x st res \<longleftrightarrow> (\<exists>ok p' s'. res = Some (ok, p', s') \<and> block_inv F (p', s')
     \<and> (\<forall>c \<in> F. blocks s' c = blocks (snd st) c)
     \<and> (if ok then producer_enqueue x (babs st) = (True, babs (p', s')) else babs (p', s') = babs st)
     \<and> (mallocs (snd st) = [] \<longrightarrow> mallocs s' = [] \<and> (mode = CanAlloc \<longrightarrow> fst (producer_enqueue x (babs st)) = ok)))"

lemma enqueue_refinesI:
  assumes "wf_producer (babs (p, s))"
    and "producer_enqueue x (babs (p, s)) = (True, babs (p', s'))" and "shape hb r n bids p'"
    and "index_inv hb bids p' m h frees" and "stored r n bids p' s'" and "F \<inter> set bids = {}" and "pool_ok (F \<union> set bids) s'"
    and "\<forall>c \<in> F. blocks s' c = blocks s c" and "mallocs s = [] \<longrightarrow> mallocs s' = []"
  shows "enqueue_refines mode F x (p, s) (Some (True, p', s'))"
proof -
  have "wf_producer (babs (p', s'))" using producer_enqueue_any [OF assms(1,2)] by blast
  then have "block_inv F (p', s')" using assms(3-7) by (intro block_invI)
  then show ?thesis using assms(2,8,9) unfolding enqueue_refines_def by auto
qed

lemma enqueue_refines_failI:
  "block_inv F (p', s') \<Longrightarrow> babs (p', s') = babs (p, s) \<Longrightarrow> \<forall>c \<in> F. blocks s' c = blocks s c \<Longrightarrow>
   mallocs s = [] \<longrightarrow> mallocs s' = [] \<and> mode = CannotAlloc \<Longrightarrow> enqueue_refines mode F x (p, s) (Some (False, p', s'))"
  unfolding enqueue_refines_def by (intro exI [of _ False] exI [of _ p'] exI [of _ s']) simp

lemma block_enqueue_boundary:
  assumes inv: "shape hb r n bids p" "index_inv hb bids p m h frees" "stored r n bids p s"
    "F \<inter> set bids = {}" "pool_ok (F \<union> set bids) s" and wf: "wf_producer (babs (p, s))"
    and full: "(r + n) mod 32 = 0" and T: "bp_tailIndex p AND (BLOCK_SIZE - 1) = 0"
    and room: "circular_less_than (bp_headIndex p) (bp_tailIndex p + BLOCK_SIZE)"
    and abs: "producer_enqueue x (babs (p, s))
      = (True, (babs (p, s))\<lparr>cells := (block_cell p s)(bp_tailIndex p := Some x), tailIndex := 1 + bp_tailIndex p\<rparr>)"
  shows "enqueue_refines mode F x (p, s) (block_enqueue mode junk x (p, s))"
proof -
  have sh: "bp_headIndex p = hb + of_nat r" "bp_tailIndex p = hb + of_nat (r + n)" "hb AND 31 = 0" "r < 32"
    "r + n \<le> 32 * length bids" "32 * length bids < r + n + 32" "length bids \<le> 2 ^ 58" using inv(1) by (auto simp: shape_def)
  have size: "producer_size (babs (p, s)) = n" using sh by (simp add: producer_size_def babs_def unat_of_nat_u64)
  then have n: "n < 2 ^ 63" using wf by (simp add: wf_producer_def)
  have "bp_tailIndex p + BLOCK_SIZE - bp_headIndex p = of_nat (n + 32)" using sh(1,2) by (simp add: BLOCK_SIZE_def)
  then have "unat (bp_tailIndex p + BLOCK_SIZE - bp_headIndex p) = n + 32" using unat_of_nat_u64 [of "n + 32"] n by simp
  then have "n + 32 < 2 ^ 63" using room by (simp add: circular_less_than_iff)
  then have len: "Suc (length bids) \<le> 2 ^ 58" using sh(4) shape_full [OF inv(1) full] by simp
  have as: "\<not> circular_less_than (bp_tailIndex p) (bp_headIndex p)"
  proof (cases "n = 0")
    case True
    then show ?thesis using sh by (simp add: circular_less_than_iff)
  next
    case False
    have "unat (of_nat n :: u64) = n" using n by (simp add: unat_of_nat_u64)
    then have "unat (- of_nat n :: u64) = 2 ^ 64 - n" using False unat_minus_u64 [of "of_nat n"] by (metis unat_0)
    then show ?thesis using sh n by (simp add: circular_less_than_iff)
  qed
  from inv(2) sh(7,3) show ?thesis
  proof (cases rule: insert_entry [where mode = mode and junk = junk and k = "bp_tailIndex p" and s = s])
    case (nomem ms)
    then have "block_enqueue mode junk x (p, s) = Some (False, p, s\<lparr>mallocs := ms\<rparr>)"
      using T room as by (simp add: block_enqueue_def Let_def)
    moreover have st': "stored r n bids p (s\<lparr>mallocs := ms\<rparr>)" using inv(3) by (simp add: stored_def)
    have wf': "wf_producer (babs (p, s\<lparr>mallocs := ms\<rparr>))" "pool_ok (F \<union> set bids) (s\<lparr>mallocs := ms\<rparr>)"
      using wf inv(5) by (simp_all only: babs_mallocs pool_ok_mallocs)
    have "block_inv F (p, s\<lparr>mallocs := ms\<rparr>)" by (rule block_invI [OF wf'(1) inv(1,2) st' inv(4) wf'(2)])
    then have "enqueue_refines mode F x (p, s) (Some (False, p, s\<lparr>mallocs := ms\<rparr>))"
      using nomem(2) by (intro enqueue_refines_failI) simp_all
    ultimately show ?thesis by simp
  next
    case (room q n' g e fs ms)
    note used = requisition_block_fresh [of "F \<union> set bids" "s\<lparr>mallocs := ms\<rparr>" mode]
    obtain rb s2 where rb: "requisition_block mode (s\<lparr>mallocs := ms\<rparr>) = (rb, s2)" by fastforce
    have bq: "block_enqueue mode junk x (p, s) = (case rb of
        None \<Rightarrow> Some (False, put_val (next_tail g) None (rewind_block_index_tail (q\<lparr>blockIndex := Some (put_key (bp_tailIndex p) g)\<rparr>)), s2)
      | Some b \<Rightarrow> store_element x ((put_val (next_tail g) (Some b) (q\<lparr>blockIndex := Some (put_key (bp_tailIndex p) g)\<rparr>))\<lparr>tailBlock := Some b\<rparr>,
          update_block b reset_empty s2))"
      using T assms(9) as room(1) rb by (simp add: block_enqueue_def Let_def split: option.splits)
    show ?thesis
    proof (cases rb)
      case None
      let ?q = "put_val (next_tail g) None (rewind_block_index_tail (q\<lparr>blockIndex := Some (put_key (bp_tailIndex p) g)\<rparr>))"
      obtain h' e' where h': "index_inv hb bids ?q n' h' (e' # fs)" using abandon_entry [OF room(2)] by blast
      have same: "same_but_index p ?q" using room(3) by simp
      have s2: "pool_ok (F \<union> set bids) s2" "blocks s2 = blocks s" "mode = CannotAlloc \<or> ms \<noteq> []"
        using used(1) [OF _ rb] inv(5) None by auto
      have ab: "babs (?q, s2) = babs (p, s)" using s2(2) by (intro babs_cong [OF inv(1,2) h' same]) auto
      have "block_inv F (?q, s2)"
        using wf inv(4) s2 ab by (intro block_invI [OF _ shape_same [OF inv(1) same] h' stored_same [OF inv(3) same]]) simp_all
      moreover have "mallocs s = [] \<longrightarrow> mallocs s2 = [] \<and> mode = CannotAlloc"
        using used(2) [OF _ rb] inv(5) room(4) s2(3) by auto
      ultimately have "enqueue_refines mode F x (p, s) (Some (False, ?q, s2))"
        using ab s2(2) by (intro enqueue_refines_failI) simp_all
      then show ?thesis using bq None by simp
    next
      case (Some b)
      have b: "b \<notin> F \<union> set bids" "pool_ok (insert b (F \<union> set bids)) s2" "\<forall>c. c \<noteq> b \<longrightarrow> blocks s2 c = blocks s c"
        using used(1) [OF _ rb] inv(5) Some by auto
      obtain p' s' bids' m'' h'' frees'' where r: "block_enqueue mode junk x (p, s) = Some (True, p', s')"
        "shape hb r (Suc n) bids' p'" "index_inv hb bids' p' m'' h'' frees''" "stored r (Suc n) bids' p' s'"
        "F \<inter> set bids' = {}" "pool_ok (F \<union> set bids') s'" "mallocs s' = mallocs s2" "\<forall>c \<in> F. blocks s' c = blocks s c"
        "babs (p', s') = (babs (p, s))\<lparr>cells := (block_cell p s)(bp_tailIndex p := Some x), tailIndex := 1 + bp_tailIndex p\<rparr>"
        using enqueue_new_block [OF inv full len room(2,3) b, of x] bq Some by auto
      have "mallocs s = [] \<longrightarrow> mallocs s' = []" using used(2) [OF _ rb] inv(5) room(4) r(7) by auto
      then show ?thesis
        unfolding r(1) using abs r(9) by (intro enqueue_refinesI [OF wf _ r(2-6,8)]) simp_all
    qed
  qed
qed

lemma block_enqueue_refines:
  assumes "block_inv F (p, s)"
  shows "enqueue_refines mode F x (p, s) (block_enqueue mode junk x (p, s))"
proof -
  obtain hb r n bids m h frees where inv: "shape hb r n bids p" "index_inv hb bids p m h frees" "stored r n bids p s"
    "F \<inter> set bids = {}" "pool_ok (F \<union> set bids) s" and wf: "wf_producer (babs (p, s))"
    using assms unfolding block_inv_def by auto
  have sh: "bp_headIndex p = hb + of_nat r" "bp_tailIndex p = hb + of_nat (r + n)" "hb AND 31 = 0" "r < 32"
    "r + n \<le> 32 * length bids" "32 * length bids < r + n + 32" "length bids \<le> 2 ^ 58" using inv(1) by (auto simp: shape_def)
  have "slot (bp_tailIndex p) = of_nat ((r + n) mod 32)" unfolding sh(2) by (rule slot_base(1) [OF sh(3)])
  then have T: "bp_tailIndex p AND (BLOCK_SIZE - 1) = 0 \<longleftrightarrow> (r + n) mod 32 = 0"
    using slot_inject [of "r + n" 0] by (simp add: slot_def)
  have abs: "producer_enqueue x (babs (p, s)) = (if bp_tailIndex p AND (BLOCK_SIZE - 1) = 0
        \<and> \<not> circular_less_than (bp_headIndex p) (bp_tailIndex p + BLOCK_SIZE) then (False, babs (p, s))
      else (True, (babs (p, s))\<lparr>cells := (block_cell p s)(bp_tailIndex p := Some x), tailIndex := 1 + bp_tailIndex p\<rparr>))"
    by (simp add: producer_enqueue_def babs_def Let_def)
  show ?thesis
  proof (cases "(r + n) mod 32 = 0")
    case True
    show ?thesis
    proof (cases "circular_less_than (bp_headIndex p) (bp_tailIndex p + BLOCK_SIZE)")
      case c: True
      have "bp_tailIndex p AND (BLOCK_SIZE - 1) = 0" using T True by blast
      moreover have "producer_enqueue x (babs (p, s)) = (True, (babs (p, s))\<lparr>cells := (block_cell p s)(bp_tailIndex p := Some x), tailIndex := 1 + bp_tailIndex p\<rparr>)"
        unfolding abs using c by simp
      ultimately show ?thesis using c by (intro block_enqueue_boundary [OF inv wf True])
    next
      case False
      have size: "unat (bp_tailIndex p - bp_headIndex p) = n" using sh by (simp add: unat_of_nat_u64)
      have "\<not> circular_less_than (bp_tailIndex p) (bp_headIndex p)"
      proof -
        have "producer_size (babs (p, s)) < 2 ^ 63" using wf by (simp add: wf_producer_def)
        then have "unat (bp_tailIndex p - bp_headIndex p) < 2 ^ 63" by (simp add: producer_size_def babs_def)
        then show ?thesis
          using unat_minus_u64 [of "bp_tailIndex p - bp_headIndex p"]
          by (cases "bp_tailIndex p = bp_headIndex p") (auto simp: circular_less_than_iff)
      qed
      then have "block_enqueue mode junk x (p, s) = Some (False, p, s)" using T True False by (simp add: block_enqueue_def)
      moreover have "fst (producer_enqueue x (babs (p, s))) = False" unfolding abs using T True False by simp
      ultimately show ?thesis using assms unfolding enqueue_refines_def by auto
    qed
  next
    case False
    then have lt: "r + n < 32 * length bids" using sh(5) by (metis le_neq_implies_less mod_mult_self1_is_0)
    then have "(r + n) div 32 = length bids - 1" "bids \<noteq> []" using sh(6) by auto
    then have "tailBlock p = Some (bids ! ((r + n) div 32))" using inv(3) False by (simp add: stored_def last_conv_nth)
    then obtain p' s' where r: "store_element x (p, s) = Some (True, p', s')" "shape hb r (Suc n) bids p'"
      "index_inv hb bids p' m h frees" "stored r (Suc n) bids p' s'" "\<forall>used. pool_ok used s' \<longleftrightarrow> pool_ok used s"
      "mallocs s' = mallocs s" "\<forall>b. b \<notin> set bids \<longrightarrow> blocks s' b = blocks s b"
      "babs (p', s') = (babs (p, s))\<lparr>cells := (block_cell p s)(bp_tailIndex p := Some x), tailIndex := 1 + bp_tailIndex p\<rparr>"
      using store_element_ok [OF inv(2) sh(3,4) lt _ sh(7,1,2), of s x] inv(3) sh(6) by (auto simp: stored_def)
    have "block_enqueue mode junk x (p, s) = Some (True, p', s')" using r(1) T False by (simp add: block_enqueue_def)
    moreover have "producer_enqueue x (babs (p, s)) = (True, babs (p', s'))" unfolding abs r(8) using T False by simp
    moreover have "pool_ok (F \<union> set bids) s'" "\<forall>c \<in> F. blocks s' c = blocks s c" using r(5,7) inv(4,5) by auto
    ultimately show ?thesis using r(6) enqueue_refinesI [OF wf _ r(2-4) inv(4)] by simp
  qed
qed

lemma release_entry:
  assumes inv: "index_inv hb (b # bs) p m h frees" and "unat i = (Suc (unat (tail h)) + length frees) mod 2 ^ m"
  shows "\<exists>h' e'. index_inv (hb + 32) bs (put_val i None p) m h' (frees @ [e'])"
proof -
  have ok: "header_ok m h" and v: "view h = frees @ map (live_entry hb (b # bs)) [0..<length (b # bs)]" and p: "blockIndex p = Some h"
    using inv unfolding index_inv_def by blast+
  have k: "length frees < 2 ^ m" using index_inv_frees [OF inv] by simp
  have e: "index h ! unat i = live_entry hb (b # bs) 0" using index_inv_entry [OF inv, of 0] assms(2) by simp
  let ?e = "(live_entry hb (b # bs) 0)\<lparr>val := None\<rparr>"
  let ?h = "h\<lparr>index := (index h)[(Suc (unat (tail h)) + length frees) mod 2 ^ m := ?e]\<rparr>"
  have "map (live_entry hb (b # bs)) [0..<length (b # bs)]
      = live_entry hb (b # bs) 0 # map (live_entry hb (b # bs)) (map Suc [0..<length bs])"
    by (simp add: upt_conv_Cons map_Suc_upt del: upt_Suc)
  also have "map (live_entry hb (b # bs)) (map Suc [0..<length bs]) = map (live_entry (hb + 32) bs) [0..<length bs]"
    by (simp add: live_entry_def algebra_simps)
  finally have "view ?h = frees @ ?e # map (live_entry (hb + 32) bs) [0..<length bs]"
    unfolding view_update [OF ok k] v by (simp add: list_update_append)
  moreover have "header_ok m ?h" using ok by (simp add: header_ok_def)
  moreover have "put_val i None p = p\<lparr>blockIndex := Some ?h\<rparr>" using p e assms(2) by (simp add: put_val_def)
  ultimately show ?thesis
    using inv unfolding index_inv_def by (intro exI [of _ ?h] exI [of _ ?e]) (simp add: free_entry_def)
qed

lemma base_step: "hb AND 31 = 0 \<Longrightarrow> (hb + 32) AND 31 = (0 :: u64)"
  using slot_base(1) [of hb 32] by (simp add: slot_def BLOCK_SIZE_def)

lemma distinct_nth_neq_hd: "distinct (x # xs) \<Longrightarrow> 0 < k \<Longrightarrow> k < length (x # xs) \<Longrightarrow> (x # xs) ! k \<noteq> x"
  by (cases k) auto

text \<open>The counter of the oldest block tells how far the head has come in it.\<close>

lemma dequeue_block:
  assumes inv: "shape hb r n bids p" "index_inv hb bids p m h frees" "stored r n bids p s"
    "F \<inter> set bids = {}" "pool_ok (F \<union> set bids) s" and "0 < n"
    and p2: "p2 = p\<lparr>bp_dequeueOptimisticCount := c, bp_headIndex := bp_headIndex p + 1\<rparr>"
  shows "\<exists>i p' s'. get_block_for_index (bp_headIndex p) p2 = Some (i, bids ! 0)
    \<and> mark_dequeued i (bids ! 0)
        (p2, update_block (bids ! 0) (\<lambda>bl. bl\<lparr>elements := (elements bl)(slot (bp_headIndex p) := None)\<rparr>) s) = Some (p', s')
    \<and> elements (blocks s (bids ! 0)) (slot (bp_headIndex p)) = block_cell p s (bp_headIndex p)
    \<and> (\<exists>hb' r' bids' h' frees'. shape hb' r' (n - 1) bids' p' \<and> index_inv hb' bids' p' m h' frees'
         \<and> stored r' (n - 1) bids' p' s' \<and> set bids' \<subseteq> set bids \<and> pool_ok (F \<union> set bids') s')
    \<and> mallocs s' = mallocs s \<and> (\<forall>b. b \<noteq> bids ! 0 \<longrightarrow> blocks s' b = blocks s b) \<and> same_but_index p2 p'
    \<and> block_cell p' s' = (block_cell p s)(bp_headIndex p := None)"
proof -
  have sh: "bp_headIndex p = hb + of_nat r" "bp_tailIndex p = hb + of_nat (r + n)" "hb AND 31 = 0" "r < 32"
    "r + n \<le> 32 * length bids" "32 * length bids < r + n + 32" "length bids \<le> 2 ^ 58" using inv(1) by (auto simp: shape_def)
  obtain b bs where bids: "bids = b # bs" using sh(5) assms(6) by (cases bids) auto
  have inv2: "index_inv hb bids p2 m h frees" using inv(2) by (simp add: index_inv_def p2)
  have slot: "slot (bp_headIndex p) = of_nat r" unfolding sh(1) using slot_base(1) [OF sh(3), of r] sh(4) by simp
  obtain i where i: "get_block_for_index (bp_headIndex p) p2 = Some (i, b)" "unat i = (Suc (unat (tail h)) + length frees) mod 2 ^ m"
    using lookup_block [OF inv2, of r] sh(1,3,4) bids by auto
  let ?s1 = "update_block b (\<lambda>bl. bl\<lparr>elements := (elements bl)(slot (bp_headIndex p) := None)\<rparr>) s"
  let ?bl = "(blocks ?s1 b)\<lparr>elementsCompletelyDequeued := of_nat r + 1\<rparr>"
  let ?s2 = "?s1\<lparr>blocks := (blocks ?s1)(b := ?bl)\<rparr>"
  have cnt: "elementsCompletelyDequeued (blocks s b) = of_nat r" using inv(3) bids by (auto simp: stored_def)
  have r: "unat (of_nat r :: u64) = r" using sh(4) by (simp add: unat_of_nat_u64)
  have last: "(of_nat r :: u64) = BLOCK_SIZE - 1 \<longleftrightarrow> r = 31"
    using r by (auto simp: BLOCK_SIZE_def dest: arg_cong [where f = unat])
  have lt: "(of_nat r :: u64) < BLOCK_SIZE" using r sh(4) by (simp add: word_less_nat_alt BLOCK_SIZE_def)
  have se: "set_empty (blocks ?s1 b) = Some (r = 31, ?bl)"
    using cnt lt last by (simp add: set_empty_def Let_def update_block_def)
  define p' where "p' = (if r = 31 then put_val i None p2 else p2)"
  define s' where "s' = (if r = 31 then add_block_to_free_list b ?s2 else ?s2)"
  let ?hb = "if r = 31 then hb + 32 else hb" and ?r = "if r = 31 then 0 else Suc r" and ?bids = "if r = 31 then tl bids else bids"
  have bl: "blocks s' = (blocks ?s1)(b := ?bl)" by (simp add: s'_def add_block_to_free_list_def)
  have same: "same_but_index p2 p'" by (simp add: p'_def)
  obtain h' frees' where inv': "index_inv ?hb ?bids p' m h' frees'"
  proof (cases "r = 31")
    case True
    then show thesis using that release_entry [OF inv2 [unfolded bids] i(2)] by (auto simp: p'_def bids)
  next
    case False
    then show thesis using that inv2 by (simp add: p'_def)
  qed
  have shp: "shape ?hb ?r (n - 1) ?bids p'"
    using sh assms(6) same base_step [OF sh(3)] bids by (auto simp: shape_def same_but_index_def p2)
  have cell: "block_cell p s = cells_of hb r n bids (blocks s)" using sh by (intro block_cell_eq [OF inv(2)]) auto
  have dist: "distinct bids" using inv(3) by (simp add: stored_def)
  have el: "elements (blocks s' c) = (if c = bids ! 0 then (elements (blocks s c))(of_nat r := None) else elements (blocks s c))" for c
    using slot bids by (simp add: bl update_block_def)
  have "block_cell p' s' = cells_of ?hb ?r (n - 1) ?bids (blocks s')"
    using shp unfolding shape_def by (intro block_cell_eq [OF inv']) auto
  also have "\<dots> = (cells_of hb r n bids (blocks s))(hb + of_nat r := None)"
    by (rule cells_of_drop [OF dist assms(6) sh(5,4) _ el]) (use sh(5,7) in simp)
  finally have c1: "block_cell p' s' = (block_cell p s)(bp_headIndex p := None)" unfolding cell sh(1) .
  have c2: "elements (blocks s b) (slot (bp_headIndex p)) = block_cell p s (bp_headIndex p)"
    unfolding cell sh(1) using assms(6) slot sh(1,4) bids by (simp add: cells_of_def)
  have c3: "stored ?r (n - 1) ?bids p' s'"
  proof -
    have "tailBlock p' = tailBlock p" using same by (simp add: same_but_index_def p2)
    moreover have "last ?bids = last bids" if "?bids \<noteq> []" using that bids by auto
    moreover have "elementsCompletelyDequeued (blocks s' (?bids ! k)) = (if k = 0 then of_nat ?r else 0)" if "k < length ?bids" for k
    proof (cases "r = 31")
      case True
      then have "bs ! k \<noteq> b" using that dist bids by auto
      moreover have "Suc k < length bids" using that True bids by simp
      then have "elementsCompletelyDequeued (blocks s (bids ! Suc k)) = 0" using inv(3) unfolding stored_def by force
      ultimately show ?thesis using True bids by (simp add: bl update_block_def)
    next
      case False
      have "bids ! k \<noteq> b" if "0 < k" "k < length bids" using that dist bids by (metis distinct_nth_neq_hd)
      then show ?thesis using False that inv(3) bids by (auto simp: bl update_block_def stored_def)
    qed
    ultimately show ?thesis using inv(3) dist bids by (auto simp: stored_def)
  qed
  have c4: "pool_ok (F \<union> set ?bids) s'"
  proof (cases "r = 31")
    case True
    have "pool_ok (F \<union> set bids) ?s2" using inv(5) by (simp add: pool_ok_def allocated_def update_block_def)
    then have "pool_ok (F \<union> set bids - {b}) s'" using pool_ok_free [of "F \<union> set bids" ?s2 b] True bids by (simp add: s'_def)
    moreover have "F \<union> set bids - {b} = F \<union> set bs" using inv(4) dist bids by auto
    ultimately show ?thesis using True bids by simp
  next
    case False
    then show ?thesis using inv(5) by (simp add: s'_def pool_ok_def allocated_def update_block_def)
  qed
  have c5: "mallocs s' = mallocs s" by (simp add: s'_def add_block_to_free_list_def update_block_def)
  have c6: "\<forall>c. c \<noteq> b \<longrightarrow> blocks s' c = blocks s c" by (simp add: bl update_block_def)
  have c7: "set ?bids \<subseteq> set bids" using bids by auto
  have c8: "mark_dequeued i b (p2, ?s1) = Some (p', s')"
    unfolding mark_dequeued_def using se by (simp add: p'_def s'_def Let_def)
  have b0: "bids ! 0 = b" using bids by simp
  have c9: "\<exists>hb' r' bids' h' frees'. shape hb' r' (n - 1) bids' p' \<and> index_inv hb' bids' p' m h' frees'
      \<and> stored r' (n - 1) bids' p' s' \<and> set bids' \<subseteq> set bids \<and> pool_ok (F \<union> set bids') s'"
    using shp inv' c3 c4 c7 by blast
  show ?thesis
    unfolding b0
    by (rule exI [of _ i], rule exI [of _ p'], rule exI [of _ s']) (intro conjI i(1) c1 c2 c5 c6 c8 c9 same)
qed

lemma block_dequeue_refines:
  assumes "block_inv F (p, s)"
  shows "\<exists>p' s'. block_dequeue (p, s) = Some (fst (producer_dequeue (babs (p, s))), p', s') \<and> block_inv F (p', s')
    \<and> babs (p', s') = snd (producer_dequeue (babs (p, s))) \<and> (\<forall>c \<in> F. blocks s' c = blocks s c) \<and> mallocs s' = mallocs s"
proof -
  obtain hb r n bids m h frees where inv: "shape hb r n bids p" "index_inv hb bids p m h frees" "stored r n bids p s"
    "F \<inter> set bids = {}" "pool_ok (F \<union> set bids) s" and wf: "wf_producer (babs (p, s))"
    using assms unfolding block_inv_def by auto
  have sh: "bp_headIndex p = hb + of_nat r" "bp_tailIndex p = hb + of_nat (r + n)" "r + n \<le> 32 * length bids" "length bids \<le> 2 ^ 58"
    using inv(1) by (auto simp: shape_def)
  have size: "producer_size (babs (p, s)) = n" using sh by (simp add: producer_size_def babs_def unat_of_nat_u64)
  have eq: "bp_dequeueOptimisticCount p - bp_dequeueOvercommit p = bp_headIndex p"
    using wf by (simp add: wf_producer_def babs_def)
  have lt: "circular_less_than (bp_headIndex p) (bp_tailIndex p) \<longleftrightarrow> 0 < n"
    using size wf by (simp add: circular_less_than_iff wf_producer_def producer_size_def babs_def)
  show ?thesis
  proof (cases "0 < n")
    case False
    then have "block_dequeue (p, s) = Some (None, p, s)" "producer_dequeue (babs (p, s)) = (None, babs (p, s))"
      using lt eq by (simp_all add: block_dequeue_def producer_dequeue_def babs_def)
    then show ?thesis using assms by auto
  next
    case True
    let ?p2 = "p\<lparr>bp_dequeueOptimisticCount := bp_dequeueOptimisticCount p + 1, bp_headIndex := bp_headIndex p + 1\<rparr>"
    obtain i p' s' where d: "get_block_for_index (bp_headIndex p) ?p2 = Some (i, bids ! 0)"
      "mark_dequeued i (bids ! 0)
         (?p2, update_block (bids ! 0) (\<lambda>bl. bl\<lparr>elements := (elements bl)(slot (bp_headIndex p) := None)\<rparr>) s) = Some (p', s')"
      "elements (blocks s (bids ! 0)) (slot (bp_headIndex p)) = block_cell p s (bp_headIndex p)"
      "mallocs s' = mallocs s" "\<forall>b. b \<noteq> bids ! 0 \<longrightarrow> blocks s' b = blocks s b" "same_but_index ?p2 p'"
      "block_cell p' s' = (block_cell p s)(bp_headIndex p := None)"
      and d': "\<exists>hb' r' bids' h' frees'. shape hb' r' (n - 1) bids' p' \<and> index_inv hb' bids' p' m h' frees'
         \<and> stored r' (n - 1) bids' p' s' \<and> set bids' \<subseteq> set bids \<and> pool_ok (F \<union> set bids') s'"
      using dequeue_block [OF inv True refl, of "bp_dequeueOptimisticCount p + 1"] by blast
    have bd: "block_dequeue (p, s) = Some (block_cell p s (bp_headIndex p), p', s')"
      using d(1-3) lt True eq by (simp add: block_dequeue_def Let_def)
    have pd: "producer_dequeue (babs (p, s)) = (block_cell p s (bp_headIndex p), babs (p', s'))"
      using lt True eq d(6,7) by (simp add: producer_dequeue_def babs_def same_but_index_def Let_def)
    obtain x xs where "producer_items (babs (p, s)) = x # xs"
      using length_producer_items [OF wf] size True by (cases "producer_items (babs (p, s))") auto
    then have "wf_producer (babs (p', s'))" using producer_dequeue_items [OF wf] pd by auto
    moreover obtain hb' r' bids' h' frees' where s: "shape hb' r' (n - 1) bids' p'" "index_inv hb' bids' p' m h' frees'"
         "stored r' (n - 1) bids' p' s'" "set bids' \<subseteq> set bids" "pool_ok (F \<union> set bids') s'" using d' by blast
    moreover have "F \<inter> set bids' = {}" using inv(4) s(4) by blast
    ultimately have "block_inv F (p', s')" by (intro block_invI)
    moreover have "\<forall>c \<in> F. blocks s' c = blocks s c"
    proof -
      have "bids ! 0 \<in> set bids" using sh(3) True by (cases bids) auto
      then have "c \<noteq> bids ! 0" if "c \<in> F" for c using inv(4) that by auto
      then show ?thesis using d(5) by simp
    qed
    ultimately show ?thesis using bd pd d(4) by simp
  qed
qed

section \<open>The blocks of a producer\<close>

text \<open>The blocks of a producer, read from its index.\<close>

definition live_set :: "block_producer \<Rightarrow> nat set" where
  "live_set p = (case blockIndex p of None \<Rightarrow> {}
     | Some h \<Rightarrow> {b. \<exists>e \<in> set (index h). key e \<noteq> INVALID_BLOCK_BASE \<and> val e = Some b})"

lemma live_set_eq:
  assumes "index_inv hb bids p m h frees" and "hb AND 31 = 0"
  shows "live_set p = set bids"
proof -
  have p: "blockIndex p = Some h" and v: "view h = frees @ map (live_entry hb bids) [0..<length bids]"
    and fr: "\<forall>e \<in> set frees. free_entry e" using assms(1) unfolding index_inv_def by blast+
  have "set (index h) = set (view h)" by (simp add: view_def)
  then have ix: "set (index h) = set frees \<union> live_entry hb bids ` {0..<length bids}" unfolding v by simp
  have kv: "key (live_entry hb bids k) \<noteq> INVALID_BLOCK_BASE" for k
    using key_valid [OF assms(2), of k] by (simp add: live_entry_def)
  show ?thesis
  proof (intro set_eqI iffI)
    fix b assume "b \<in> live_set p"
    then obtain e where e: "e \<in> set (index h)" "key e \<noteq> INVALID_BLOCK_BASE" "val e = Some b"
      by (auto simp: live_set_def p)
    then have "e \<notin> set frees" using fr by (auto simp: free_entry_def)
    then obtain k where "k < length bids" "e = live_entry hb bids k" using e(1) ix by auto
    then show "b \<in> set bids" using e(3) by (auto simp: live_entry_def)
  next
    fix b assume "b \<in> set bids"
    then obtain k where k: "k < length bids" "b = bids ! k" by (metis in_set_conv_nth)
    then have "live_entry hb bids k \<in> set (index h)" "val (live_entry hb bids k) = Some b"
      using ix by (simp_all add: live_entry_def)
    then show "b \<in> live_set p" using kv [of k] by (auto simp: live_set_def p)
  qed
qed

lemma block_inv_live:
  assumes "block_inv F (p, s)"
  shows "F \<inter> live_set p = {}" and "pool_ok (F \<union> live_set p) s"
  using assms live_set_eq unfolding block_inv_def shape_def by fastforce+

end
