(* ===== verification/Block_Bulk.thy ===== *)
theory Block_Bulk
  imports Block_Queue
begin

text \<open>
  The bulk operations and the destructor of an implicit producer of \<open>common/concurrentqueue.h\<close>,
  on blocks.
\<close>

section \<open>Dequeuing in bulk\<close>

definition set_many_empty :: "u64 \<Rightarrow> 'a block \<Rightarrow> (bool \<times> 'a block) option" where
  "set_many_empty cnt b =
     (let prevVal = elementsCompletelyDequeued b
      in if prevVal + cnt \<le> BLOCK_SIZE
         then Some (prevVal + cnt = BLOCK_SIZE, b\<lparr>elementsCompletelyDequeued := prevVal + cnt\<rparr>) else None)"

definition clear_slot :: "u64 \<Rightarrow> nat \<Rightarrow> 'a pool \<Rightarrow> 'a pool" where
  "clear_slot idx b s = update_block b (\<lambda>bl. bl\<lparr>elements := (elements bl)(slot idx := None)\<rparr>) s"

text \<open>The inner loop; a cell in which no element lives cannot be read.\<close>

fun move_out :: "nat \<Rightarrow> u64 \<Rightarrow> nat \<Rightarrow> 'a pool \<Rightarrow> ('a list \<times> 'a pool) option" where
  "move_out 0 idx b s = Some ([], s)"
| "move_out (Suc n) idx b s =
     (case elements (blocks s b) (slot idx) of
        None \<Rightarrow> None
      | Some x \<Rightarrow> Option.bind (move_out n (idx + 1) b (clear_slot idx b s)) (\<lambda>(xs, s1). Some (x # xs, s1)))"

definition release_many :: "u64 \<Rightarrow> nat \<Rightarrow> u64 \<Rightarrow> block_producer \<times> 'a pool \<Rightarrow> (block_producer \<times> 'a pool) option" where
  "release_many i b cnt st =
     (case st of (p, s) \<Rightarrow>
        Option.bind (set_many_empty cnt (blocks s b)) (\<lambda>(last, bl).
          let s1 = s\<lparr>blocks := (blocks s)(b := bl)\<rparr>
          in if last then Some (put_val i None p, add_block_to_free_list b s1) else Some (p, s1)))"

definition block_end :: "u64 \<Rightarrow> u64 \<Rightarrow> u64" where
  "block_end stop idx =
     (let endIndex = (idx AND NOT (BLOCK_SIZE - 1)) + BLOCK_SIZE
      in if circular_less_than stop endIndex then stop else endIndex)"

partial_function (option) dequeue_blocks ::
    "u64 \<Rightarrow> u64 \<Rightarrow> u64 \<Rightarrow> block_producer \<times> 'a pool \<Rightarrow> ('a list \<times> block_producer \<times> 'a pool) option" where
  "dequeue_blocks stop idx i st =
     Option.bind (blockIndex (fst st)) (\<lambda>h. Option.bind (val (index h ! unat i)) (\<lambda>b.
       let endIndex = block_end stop idx
       in Option.bind (move_out (unat (endIndex - idx)) idx b (snd st)) (\<lambda>(xs, s1).
            Option.bind (release_many i b (endIndex - idx) (fst st, s1)) (\<lambda>st1.
              if endIndex = stop then Some (xs, st1)
              else Option.bind (dequeue_blocks stop endIndex ((i + 1) AND (capacity h - 1)) st1)
                     (\<lambda>(ys, st2). Some (xs @ ys, st2))))))"

declare dequeue_blocks.simps [code]

definition block_dequeue_bulk :: "u64 \<Rightarrow> block_producer \<times> 'a pool \<Rightarrow> ('a list \<times> block_producer \<times> 'a pool) option" where
  "block_dequeue_bulk mx st =
     (case st of (p, s) \<Rightarrow>
        let tail = bp_tailIndex p; overcommit = bp_dequeueOvercommit p;
            desiredCount = tail - (bp_dequeueOptimisticCount p - overcommit)
        in if circular_less_than 0 desiredCount then
             let desiredCount = (if desiredCount < mx then desiredCount else mx);
                 myDequeueCount = bp_dequeueOptimisticCount p;
                 p1 = p\<lparr>bp_dequeueOptimisticCount := myDequeueCount + desiredCount\<rparr>;
                 actualCount = tail - (myDequeueCount - overcommit)
             in if circular_less_than 0 actualCount then
                  let actualCount = (if desiredCount < actualCount then desiredCount else actualCount);
                      p2 = (if actualCount < desiredCount
                            then p1\<lparr>bp_dequeueOvercommit := bp_dequeueOvercommit p1 + (desiredCount - actualCount)\<rparr> else p1);
                      firstIndex = bp_headIndex p2;
                      p3 = p2\<lparr>bp_headIndex := firstIndex + actualCount\<rparr>
                  in Option.bind (get_block_index_index_for_index firstIndex p3)
                       (\<lambda>i. dequeue_blocks (firstIndex + actualCount) firstIndex i (p3, s))
                else Some ([], p1\<lparr>bp_dequeueOvercommit := bp_dequeueOvercommit p1 + desiredCount\<rparr>, s)
           else Some ([], p, s))"

section \<open>One element at a time\<close>

definition take_one :: "u64 \<Rightarrow> block_producer \<times> 'a pool \<Rightarrow> ('a option \<times> block_producer \<times> 'a pool) option" where
  "take_one idx st =
     (case st of (p, s) \<Rightarrow> Option.bind (get_block_for_index idx p) (\<lambda>(i, b).
        map_option (Pair (elements (blocks s b) (slot idx))) (mark_dequeued i b (p, clear_slot idx b s))))"

fun take_many :: "nat \<Rightarrow> u64 \<Rightarrow> block_producer \<times> 'a pool \<Rightarrow> ('a option list \<times> block_producer \<times> 'a pool) option" where
  "take_many 0 idx st = Some ([], st)"
| "take_many (Suc k) idx st =
     Option.bind (take_one idx st) (\<lambda>(e, st1). Option.bind (take_many k (idx + 1) st1) (\<lambda>(es, st2). Some (e # es, st2)))"

lemma take_many_add:
  "take_many (j + k) idx st =
     Option.bind (take_many j idx st) (\<lambda>(es, st1). Option.bind (take_many k (idx + of_nat j) st1) (\<lambda>(fs, st2). Some (es @ fs, st2)))"
  by (induction j arbitrary: idx st) (auto simp: split_beta algebra_simps intro!: bind_option_cong)

lemma get_block_head [simp]:
  "get_block_for_index w (p\<lparr>bp_headIndex := x\<rparr>) = get_block_for_index w p"
  "get_block_index_index_for_index w (p\<lparr>bp_headIndex := x\<rparr>) = get_block_index_index_for_index w p"
  by (simp_all add: get_block_for_index_def get_block_index_index_for_index_def)

lemma put_val_head [simp]: "put_val i v (p\<lparr>bp_headIndex := x\<rparr>) = (put_val i v p)\<lparr>bp_headIndex := x\<rparr>"
  by (simp add: put_val_def)

lemma mark_dequeued_head:
  "mark_dequeued i b (p\<lparr>bp_headIndex := x\<rparr>, s) = map_option (\<lambda>(p', s'). (p'\<lparr>bp_headIndex := x\<rparr>, s')) (mark_dequeued i b (p, s))"
  by (cases "set_empty (blocks s b)") (auto simp: mark_dequeued_def Let_def)

text \<open>The state of a producer with \<open>n\<close> elements, wherever its counters stand.\<close>

definition core :: "nat set \<Rightarrow> nat \<Rightarrow> block_producer \<Rightarrow> 'a pool \<Rightarrow> bool" where
  "core F n p s \<longleftrightarrow> (\<exists>hb r bids m h frees. shape hb r n bids p \<and> index_inv hb bids p m h frees \<and> stored r n bids p s
     \<and> F \<inter> set bids = {} \<and> pool_ok (F \<union> set bids) s)
   \<and> (\<forall>k < n. block_cell p s (bp_headIndex p + of_nat k) \<noteq> None)"

lemma core_bound: "core F n p s \<Longrightarrow> n \<le> 2 ^ 63"
  by (fastforce simp: core_def shape_def)

text \<open>\<open>head_at\<close>: the head index is advanced before the elements are taken, so the loop runs behind it.\<close>

abbreviation head_at :: "u64 \<Rightarrow> block_producer \<Rightarrow> block_producer" where
  "head_at idx p \<equiv> p\<lparr>bp_headIndex := idx\<rparr>"

lemma take_one_core:
  assumes "core F n (head_at idx p) s" and "0 < n"
  shows "\<exists>p' s'. take_one idx (p, s) = Some (block_cell (head_at idx p) s idx, p', s')
    \<and> core F (n - 1) (head_at (idx + 1) p') s' \<and> mallocs s' = mallocs s
    \<and> (\<forall>c \<in> F. blocks s' c = blocks s c) \<and> same_but_index p p'
    \<and> block_cell (head_at (idx + 1) p') s' = (block_cell (head_at idx p) s)(idx := None)"
proof -
  let ?p = "head_at idx p"
  obtain hb r bids m h frees where inv: "shape hb r n bids ?p" "index_inv hb bids ?p m h frees" "stored r n bids ?p s"
    "F \<inter> set bids = {}" "pool_ok (F \<union> set bids) s" and live: "\<forall>k < n. block_cell ?p s (idx + of_nat k) \<noteq> None"
    using assms(1) unfolding core_def by auto
  let ?p2 = "head_at (idx + 1) p"
  have hd: "bp_headIndex ?p = idx"
    and "?p2 = ?p\<lparr>bp_dequeueOptimisticCount := bp_dequeueOptimisticCount p, bp_headIndex := bp_headIndex ?p + 1\<rparr>" by simp_all
  note D = dequeue_block [OF inv assms(2) this(2), unfolded hd, folded clear_slot_def]
  obtain i q s' where d: "get_block_for_index idx ?p2 = Some (i, bids ! 0)"
    "mark_dequeued i (bids ! 0) (?p2, clear_slot idx (bids ! 0) s) = Some (q, s')"
    "elements (blocks s (bids ! 0)) (slot idx) = block_cell ?p s idx"
    "mallocs s' = mallocs s" "\<forall>b. b \<noteq> bids ! 0 \<longrightarrow> blocks s' b = blocks s b"
    "block_cell q s' = (block_cell ?p s)(idx := None)"
    and d': "\<exists>hb' r' bids' h' frees'. shape hb' r' (n - 1) bids' q \<and> index_inv hb' bids' q m h' frees'
       \<and> stored r' (n - 1) bids' q s' \<and> set bids' \<subseteq> set bids \<and> pool_ok (F \<union> set bids') s'"
    using D by blast
  obtain p' where m: "mark_dequeued i (bids ! 0) (p, clear_slot idx (bids ! 0) s) = Some (p', s')" and q: "q = head_at (idx + 1) p'"
    using d(2) unfolding mark_dequeued_head by auto
  have same: "same_but_index p p'"
    using m by (auto simp: mark_dequeued_def Let_def bind_eq_Some_conv split: if_splits)
  have "\<exists>hb' r' bids' m' h' frees'. shape hb' r' (n - 1) bids' q \<and> index_inv hb' bids' q m' h' frees'
       \<and> stored r' (n - 1) bids' q s' \<and> F \<inter> set bids' = {} \<and> pool_ok (F \<union> set bids') s'" using d' inv(4) by blast
  moreover have "block_cell q s' (idx + 1 + of_nat k) \<noteq> None" if "k < n - 1" for k
  proof -
    have "Suc k < 2 ^ 64" using that core_bound [OF assms(1)] by simp
    then have "(of_nat (Suc k) :: u64) \<noteq> 0" using of_nat_u64_eq [of "Suc k" 0] by simp
    then have "idx + 1 + of_nat k \<noteq> idx" by (simp add: add.assoc)
    moreover have "block_cell ?p s (idx + of_nat (Suc k)) \<noteq> None" using live [rule_format, of "Suc k"] that by simp
    ultimately show ?thesis unfolding d(6) by (simp add: add.assoc)
  qed
  moreover have "bp_headIndex q = idx + 1" by (simp add: q)
  ultimately have "core F (n - 1) q s'" unfolding core_def by simp
  moreover have "take_one idx (p, s) = Some (block_cell ?p s idx, p', s')" using d(1,3) m by (simp add: take_one_def)
  moreover have "\<forall>c \<in> F. blocks s' c = blocks s c"
  proof -
    have "bids ! 0 \<in> set bids" using inv(1) assms(2) by (cases bids) (auto simp: shape_def)
    then show ?thesis using d(5) inv(4) by (metis disjoint_iff)
  qed
  ultimately show ?thesis using d(4,6) same unfolding q by blast
qed

lemma same_but_index_trans: "same_but_index p q \<Longrightarrow> same_but_index q r \<Longrightarrow> same_but_index p r"
  by (simp add: same_but_index_def)

lemma take_many_core:
  "core F n (head_at idx p) s \<Longrightarrow> k \<le> n \<Longrightarrow>
   \<exists>p' s'. take_many k idx (p, s) = Some (map (\<lambda>j. block_cell (head_at idx p) s (idx + of_nat j)) [0..<k], p', s')
    \<and> core F (n - k) (head_at (idx + of_nat k) p') s' \<and> mallocs s' = mallocs s
    \<and> (\<forall>c \<in> F. blocks s' c = blocks s c) \<and> same_but_index p p'
    \<and> block_cell (head_at (idx + of_nat k) p') s' = clear_cells (block_cell (head_at idx p) s) idx k"
proof (induction k arbitrary: idx p s n)
  case (Suc k)
  let ?c = "block_cell (head_at idx p) s"
  obtain p1 s1 where o: "take_one idx (p, s) = Some (?c idx, p1, s1)" "core F (n - 1) (head_at (idx + 1) p1) s1"
    "mallocs s1 = mallocs s" "\<forall>c \<in> F. blocks s1 c = blocks s c" "same_but_index p p1"
    "block_cell (head_at (idx + 1) p1) s1 = ?c(idx := None)"
    using take_one_core [OF Suc.prems(1)] Suc.prems(2) by auto
  have kn: "k \<le> n - 1" using Suc.prems(2) by simp
  obtain p2 s2 where m: "take_many k (idx + 1) (p1, s1) = Some (map (\<lambda>j. (?c(idx := None)) (idx + 1 + of_nat j)) [0..<k], p2, s2)"
    "core F (n - 1 - k) (head_at (idx + 1 + of_nat k) p2) s2" "mallocs s2 = mallocs s1"
    "\<forall>c \<in> F. blocks s2 c = blocks s1 c" "same_but_index p1 p2"
    "block_cell (head_at (idx + 1 + of_nat k) p2) s2 = clear_cells (?c(idx := None)) (idx + 1) k"
    using Suc.IH [OF o(2) kn, unfolded o(6)] by blast
  have "map (\<lambda>j. (?c(idx := None)) (idx + 1 + of_nat j)) [0..<k] = map (\<lambda>j. ?c (idx + of_nat j)) (map Suc [0..<k])"
  proof -
    have "(of_nat (Suc j) :: u64) \<noteq> 0" if "j < k" for j
      using of_nat_u64_eq [of "Suc j" 0] that Suc.prems(2) core_bound [OF Suc.prems(1)] by simp
    then show ?thesis by (auto simp: add.assoc)
  qed
  then have "?c idx # map (\<lambda>j. (?c(idx := None)) (idx + 1 + of_nat j)) [0..<k] = map (\<lambda>j. ?c (idx + of_nat j)) [0..<Suc k]"
    by (simp add: upt_conv_Cons map_Suc_upt del: upt_Suc)
  then have "take_many (Suc k) idx (p, s) = Some (map (\<lambda>j. ?c (idx + of_nat j)) [0..<Suc k], p2, s2)"
    using o(1) m(1) by simp
  moreover have "idx + 1 + of_nat k = idx + of_nat (Suc k)" "n - 1 - k = n - Suc k" by (simp_all add: algebra_simps)
  note m(2,6) [unfolded this]
  ultimately show ?case
    using o(3,4) m(3,4) same_but_index_trans [OF o(5) m(5)]
    by (intro exI [of _ p2] exI [of _ s2]) (simp del: of_nat_Suc upt_Suc)
qed auto

section \<open>A block at a time\<close>

fun clear_slots :: "(u64 \<Rightarrow> 'a option) \<Rightarrow> nat \<Rightarrow> nat \<Rightarrow> u64 \<Rightarrow> 'a option" where
  "clear_slots f r 0 = f"
| "clear_slots f r (Suc j) = clear_slots (f(of_nat r := None)) (Suc r) j"

lemma blocks_update_block [simp]: "blocks (update_block b f s) c = (if c = b then f (blocks s b) else blocks s c)"
  by (simp add: update_block_def)

lemma update_block_twice [simp]: "update_block b f (update_block b g s) = update_block b (\<lambda>bl. f (g bl)) s"
  by (simp add: update_block_def)

lemma update_block_id: "f (blocks s b) = blocks s b \<Longrightarrow> update_block b f s = s"
  by (simp add: update_block_def)

lemma small_eq: "a < 64 \<Longrightarrow> b < 64 \<Longrightarrow> (of_nat a :: u64) = of_nat b \<longleftrightarrow> a = b"
  by (rule of_nat_u64_eq) simp_all

lemma slot_in_block: "hb AND 31 = 0 \<Longrightarrow> r < 32 \<Longrightarrow> slot (hb + of_nat r) = of_nat r"
  using slot_base(1) [of hb r] by simp

lemma later_slots:
  assumes "r + Suc j \<le> 32" and "k < j"
  shows "(f(of_nat r := None)) (of_nat (Suc r + k)) = f (of_nat (r + Suc k) :: u64)"
  using assms small_eq [of "Suc r + k" r] by simp

lemma map_first_slot:
  assumes "r + Suc j \<le> 32"
  shows "g (f (of_nat r :: u64)) # map (\<lambda>k. g ((f(of_nat r := None)) (of_nat (Suc r + k)))) [0..<j]
    = map (\<lambda>k. g (f (of_nat (r + k)))) [0..<Suc j]"
proof -
  have "map (\<lambda>k. g ((f(of_nat r := None)) (of_nat (Suc r + k)))) [0..<j] = map (\<lambda>k. g (f (of_nat (r + k)))) (map Suc [0..<j])"
    by (simp add: later_slots [OF assms] del: fun_upd_apply add_Suc of_nat_Suc of_nat_add)
  then show ?thesis by (simp add: upt_conv_Cons map_Suc_upt del: upt_Suc fun_upd_apply of_nat_Suc of_nat_add)
qed

lemma next_index: "hb + of_nat r + 1 = (hb + of_nat (Suc r) :: u64)"
  by simp

lemma move_out_eq:
  assumes "hb AND 31 = 0"
  shows "r + j \<le> 32 \<Longrightarrow> (\<forall>k < j. elements (blocks s b) (of_nat (r + k)) \<noteq> None) \<Longrightarrow>
    move_out j (hb + of_nat r) b s = Some (map (\<lambda>k. the (elements (blocks s b) (of_nat (r + k)))) [0..<j],
      update_block b (\<lambda>bl. bl\<lparr>elements := clear_slots (elements bl) r j\<rparr>) s)"
proof (induction j arbitrary: r s)
  case 0
  show ?case by (simp add: update_block_id)
next
  case (Suc j)
  let ?e = "elements (blocks s b)"
  have sl: "slot (hb + of_nat r) = of_nat r" using slot_in_block [OF assms, of r] Suc.prems(1) by simp
  let ?s = "clear_slot (hb + of_nat r) b s"
  have e: "elements (blocks ?s b) = ?e(of_nat r := None)" by (simp add: clear_slot_def sl)
  obtain x where x: "?e (of_nat r) = Some x" using Suc.prems(2) [rule_format, of 0] by auto
  have live: "\<forall>k < j. (?e(of_nat r := None)) (of_nat (Suc r + k)) \<noteq> None"
    using Suc.prems(2) later_slots [OF Suc.prems(1), of _ ?e] by (metis Suc_less_eq)
  have "move_out j (hb + of_nat (Suc r)) b ?s = Some (map (\<lambda>k. the ((?e(of_nat r := None)) (of_nat (Suc r + k)))) [0..<j],
      update_block b (\<lambda>bl. bl\<lparr>elements := clear_slots (elements bl) (Suc r) j\<rparr>) ?s)"
    by (rule Suc.IH [of "Suc r" ?s, unfolded e, OF _ live]) (use Suc.prems(1) in simp)
  moreover have "update_block b (\<lambda>bl. bl\<lparr>elements := clear_slots (elements bl) (Suc r) j\<rparr>) ?s
      = update_block b (\<lambda>bl. bl\<lparr>elements := clear_slots (elements bl) r (Suc j)\<rparr>) s"
    by (simp add: clear_slot_def sl)
  ultimately show ?case
    using x map_first_slot [OF Suc.prems(1), of the ?e] unfolding move_out.simps sl next_index by simp
qed

definition after_block :: "u64 \<Rightarrow> nat \<Rightarrow> nat \<Rightarrow> nat \<Rightarrow> block_producer \<times> 'a pool \<Rightarrow> block_producer \<times> 'a pool" where
  "after_block i b r j st = (case st of (p, s) \<Rightarrow>
     let s' = update_block b (\<lambda>bl. bl\<lparr>elements := clear_slots (elements bl) r j, elementsCompletelyDequeued := of_nat (r + j)\<rparr>) s
     in if r + j = 32 then (put_val i None p, add_block_to_free_list b s') else (p, s'))"

lemma counter_full: "r + j \<le> 32 \<Longrightarrow> (of_nat (r + j) :: u64) = BLOCK_SIZE \<longleftrightarrow> r + j = 32"
  using small_eq [of "r + j" 32] by (simp add: BLOCK_SIZE_def)

lemma take_many_block:
  assumes hb: "hb AND 31 = 0" and look: "\<And>q. q < 32 \<Longrightarrow> get_block_for_index (hb + of_nat q) p = Some (i, b)"
  shows "r < 32 \<Longrightarrow> r + j \<le> 32 \<Longrightarrow> elementsCompletelyDequeued (blocks s b) = of_nat r \<Longrightarrow>
    take_many j (hb + of_nat r) (p, s) =
      Some (map (\<lambda>k. elements (blocks s b) (of_nat (r + k))) [0..<j], after_block i b r j (p, s))"
proof (induction j arbitrary: r s)
  case 0
  then show ?case by (simp add: after_block_def update_block_id)
next
  case (Suc j)
  let ?e = "elements (blocks s b)"
  have sl: "slot (hb + of_nat r) = of_nat r" using slot_in_block [OF hb Suc.prems(1)] .
  have lt: "(of_nat r :: u64) < BLOCK_SIZE"
    using Suc.prems(1) by (simp add: word_less_nat_alt BLOCK_SIZE_def unat_of_nat_u64)
  have last: "(of_nat r :: u64) = BLOCK_SIZE - 1 \<longleftrightarrow> r = 31"
    using small_eq [of r 31] Suc.prems(1) by (simp add: BLOCK_SIZE_def)
  let ?s = "update_block b (\<lambda>bl. bl\<lparr>elements := (elements bl)(of_nat r := None), elementsCompletelyDequeued := of_nat (Suc r)\<rparr>) s"
  have one: "take_one (hb + of_nat r) (p, s)
      = Some (?e (of_nat r), if r = 31 then (put_val i None p, add_block_to_free_list b ?s) else (p, ?s))"
    using look [OF Suc.prems(1)] Suc.prems(3) lt last
    by (simp add: take_one_def mark_dequeued_def set_empty_def Let_def clear_slot_def sl update_block_def add.commute)
  show ?case
  proof (cases "r = 31")
    case True
    then show ?thesis using one Suc.prems(2) by (simp add: after_block_def)
  next
    case False
    have e: "elements (blocks ?s b) = ?e(of_nat r := None)" by simp
    have "take_many j (hb + of_nat (Suc r)) (p, ?s)
        = Some (map (\<lambda>k. (?e(of_nat r := None)) (of_nat (Suc r + k))) [0..<j], after_block i b (Suc r) j (p, ?s))"
      using Suc.IH [of "Suc r" ?s, unfolded e] Suc.prems False by simp
    moreover have "after_block i b (Suc r) j (p, ?s) = after_block i b r (Suc j) (p, s)"
      by (simp add: after_block_def)
    ultimately show ?thesis
      using one False map_first_slot [OF Suc.prems(2), of "\<lambda>x. x" ?e] unfolding take_many.simps next_index by simp
  qed
qed

lemma release_many_block:
  assumes "r < 32" and "r + j \<le> 32" and "elementsCompletelyDequeued (blocks s b) = of_nat r"
  shows "release_many i b (of_nat j) (p, update_block b (\<lambda>bl. bl\<lparr>elements := clear_slots (elements bl) r j\<rparr>) s)
    = Some (after_block i b r j (p, s))"
proof -
  have "(of_nat r :: u64) + of_nat j = of_nat (r + j)" by simp
  moreover have "(of_nat (r + j) :: u64) \<le> BLOCK_SIZE"
    using assms(2) by (simp add: word_le_nat_alt BLOCK_SIZE_def unat_of_nat_u64 del: of_nat_add)
  ultimately show ?thesis
    using assms(3) counter_full [OF assms(2)]
    by (simp add: release_many_def set_many_empty_def after_block_def Let_def update_block_def)
qed

section \<open>The loop over the blocks takes one element after the other\<close>

lemma block_end_eq:
  assumes "hb AND 31 = 0" and "r < 32" and "r + k \<le> 2 ^ 63"
  shows "block_end (hb + of_nat (r + k)) (hb + of_nat r) = hb + of_nat (r + min k (32 - r))"
proof -
  have base: "(hb + of_nat r) AND NOT (BLOCK_SIZE - 1) = hb" using slot_base(2) [OF assms(1), of r] assms(2) by simp
  show ?thesis
  proof (cases "r + k < 32")
    case True
    have "hb + 32 - (hb + of_nat (r + k)) = (of_nat (32 - (r + k)) :: u64)" using True by (simp add: of_nat_diff)
    moreover have "unat (of_nat (32 - (r + k)) :: u64) = 32 - (r + k)" by (rule unat_of_nat_u64) simp
    ultimately have "circular_less_than (hb + of_nat (r + k)) (hb + 32)"
      unfolding circular_less_than_iff using True by simp
    then show ?thesis using True base by (simp add: block_end_def Let_def BLOCK_SIZE_def)
  next
    case False
    let ?d = "of_nat (r + k - 32) :: u64"
    have d: "(hb + 32) - (hb + of_nat (r + k)) = - ?d" using False by (simp add: of_nat_diff)
    have u: "unat ?d = r + k - 32" using assms(3) by (intro unat_of_nat_u64) simp
    have "unat (- ?d) = (if ?d = 0 then 0 else 2 ^ 64 - (r + k - 32))" using unat_minus_u64 [of ?d] u by auto
    then have "\<not> circular_less_than (hb + of_nat (r + k)) (hb + 32)"
      unfolding circular_less_than_iff d using assms(3) by auto
    moreover have "r + min k (32 - r) = 32" using False assms(2) by simp
    ultimately show ?thesis using base by (simp add: block_end_def Let_def BLOCK_SIZE_def)
  qed
qed

lemma lookup_first:
  assumes "index_inv hb bids p m h frees" and "bids \<noteq> []" and "hb AND 31 = 0"
  obtains i where "\<And>q. q < 32 \<Longrightarrow> get_block_for_index (hb + of_nat q) p = Some (i, bids ! 0)"
    and "\<And>q. q < 32 \<Longrightarrow> get_block_index_index_for_index (hb + of_nat q) p = Some i"
    and "val (index h ! unat i) = Some (bids ! 0)" and "unat i = (Suc (unat (tail h)) + length frees) mod 2 ^ m"
proof -
  have "\<exists>i. get_block_for_index (hb + of_nat q) p = Some (i, bids ! 0) \<and> unat i = (Suc (unat (tail h)) + length frees) mod 2 ^ m"
    if "q < 32" for q
  proof -
    have "q < 32 * length bids" using that assms(2) by (cases bids) auto
    from lookup_block [OF assms(1) this assms(3)] show ?thesis using that by simp
  qed
  note look = this
  obtain i where i: "unat i = (Suc (unat (tail h)) + length frees) mod 2 ^ m"
    "get_block_for_index (hb + of_nat 0) p = Some (i, bids ! 0)" using look [of 0] by auto
  have all: "get_block_for_index (hb + of_nat q) p = Some (i, bids ! 0)" if "q < 32" for q
    using look [OF that] i(1) unat_u64_inj by metis
  have "blockIndex p = Some h" using assms(1) by (simp add: index_inv_def)
  then show thesis using that [of i] all i by (auto simp: get_block_for_index_def bind_eq_Some_conv)
qed

lemma next_entry:
  assumes inv: "index_inv hb (b # bs) p m h frees" and hb: "hb AND 31 = 0" and "bs \<noteq> []"
    and i: "unat i = (Suc (unat (tail h)) + length frees) mod 2 ^ m"
  shows "get_block_index_index_for_index (hb + 32) (put_val i None p) = Some ((i + 1) AND (capacity h - 1))"
proof -
  obtain h' e' where inv': "index_inv (hb + 32) bs (put_val i None p) m h' (frees @ [e'])"
    using release_entry [OF inv i] by blast
  have ok: "header_ok m h" and "blockIndex p = Some h" "blockIndex (put_val i None p) = Some h'"
    using inv inv' unfolding index_inv_def by blast+
  then have t: "tail h' = tail h" by (auto simp: put_val_def)
  obtain i' where l: "\<And>q. q < 32 \<Longrightarrow> get_block_index_index_for_index (hb + 32 + of_nat q) (put_val i None p) = Some i'"
    and i': "unat i' = (Suc (unat (tail h)) + length (frees @ [e'])) mod 2 ^ m"
    using lookup_first [OF inv' assms(3) base_step [OF hb]] unfolding t by blast
  have l0: "get_block_index_index_for_index (hb + 32) (put_val i None p) = Some i'" using l [of 0] by simp
  have m: "m < 64" "capacity h = 2 ^ m" using ok by (auto simp: header_ok_def)
  have "unat i < 2 ^ m" using i by simp
  then have "unat (i + 1) = unat i + 1"
    using header_ok_le [OF ok] unat_add_small [of i 1] by simp
  then have "unat ((i + 1) AND (capacity h - 1)) = (unat i + 1) mod 2 ^ m"
    using unat_and_mask_u64 [OF m(1), of "i + 1"] m(2) by simp
  also have "\<dots> = unat i'" unfolding i i' by (simp add: mod_Suc_eq)
  finally have "(i + 1) AND (capacity h - 1) = i'" by (rule unat_u64_inj)
  then show ?thesis using l0 by simp
qed

lemma core_cells:
  assumes "shape hb r n bids p" and "index_inv hb bids p m h frees" and "bids \<noteq> []"
    and "\<forall>k < n. block_cell p s (bp_headIndex p + of_nat k) \<noteq> None" and "j \<le> n" and "r + j \<le> 32"
  shows "\<forall>k < j. elements (blocks s (bids ! 0)) (of_nat (r + k)) \<noteq> None"
proof (intro allI impI)
  fix k assume k: "k < j"
  have sh: "bp_headIndex p = hb + of_nat r" "hb AND 31 = 0" "r + n \<le> 32 * length bids" "length bids \<le> 2 ^ 58"
    "bp_tailIndex p = hb + of_nat (r + n)" using assms(1) by (auto simp: shape_def)
  have "block_cell p s = cells_of hb r n bids (blocks s)" using sh by (intro block_cell_eq [OF assms(2)]) simp_all
  moreover have "unat (of_nat k :: u64) = k" using k assms(5) sh(3,4) by (intro unat_of_nat_u64) simp
  ultimately have "block_cell p s (bp_headIndex p + of_nat k) = elements (blocks s (bids ! 0)) (of_nat (r + k))"
    using k assms(5,6) sh(1) by (simp add: cells_of_def Let_def)
  then show "elements (blocks s (bids ! 0)) (of_nat (r + k)) \<noteq> None" using assms(4,5) k by (metis order.strict_trans2)
qed

lemma dequeue_blocks_eq:
  "core F n (head_at idx p) s \<Longrightarrow> k \<le> n \<Longrightarrow> 0 < n \<Longrightarrow> get_block_index_index_for_index idx p = Some i \<Longrightarrow>
   \<exists>xs st. dequeue_blocks (idx + of_nat k) idx i (p, s) = Some (xs, st) \<and> take_many k idx (p, s) = Some (map Some xs, st)"
proof (induction k arbitrary: idx p s n i rule: less_induct)
  case (less k)
  let ?p = "head_at idx p"
  obtain hb r bids m h frees where inv: "shape hb r n bids ?p" "index_inv hb bids ?p m h frees" "stored r n bids ?p s"
    and live: "\<forall>k < n. block_cell ?p s (bp_headIndex ?p + of_nat k) \<noteq> None"
    using less.prems(1) unfolding core_def by blast
  have sh: "idx = hb + of_nat r" "hb AND 31 = 0" "r < 32" "r + n \<le> 32 * length bids" "length bids \<le> 2 ^ 58"
    using inv(1) by (auto simp: shape_def)
  then obtain b bs where bids: "bids = b # bs" using less.prems(3) by (cases bids) auto
  have invp: "index_inv hb bids p m h frees" using inv(2) by (simp add: index_inv_def)
  obtain i' where look: "\<And>q. q < 32 \<Longrightarrow> get_block_for_index (hb + of_nat q) p = Some (i', b)"
    "\<And>q. q < 32 \<Longrightarrow> get_block_index_index_for_index (hb + of_nat q) p = Some i'"
    "val (index h ! unat i') = Some b" "unat i' = (Suc (unat (tail h)) + length frees) mod 2 ^ m"
    using lookup_first [OF invp _ sh(2)] bids by auto
  have i: "i' = i" using look(2) [OF sh(3)] less.prems(4) sh(1) by simp
  let ?j = "min k (32 - r)"
  have j: "r + ?j \<le> 32" "?j \<le> n" "?j \<le> k" using sh(3) less.prems(2) by auto
  have stop: "block_end (idx + of_nat k) idx = idx + of_nat ?j"
    using block_end_eq [OF sh(2,3), of k] sh(1,4,5) less.prems(2) by (simp add: add.assoc)
  have diff: "idx + of_nat ?j - idx = of_nat ?j" "unat (of_nat ?j :: u64) = ?j"
    using j(1) by (simp, intro unat_of_nat_u64) simp
  have cnt: "elementsCompletelyDequeued (blocks s b) = of_nat r" using inv(3) bids by (auto simp: stored_def)
  define xs where "xs = map (\<lambda>k. the (elements (blocks s b) (of_nat (r + k)))) [0..<?j]"
  have el: "\<forall>k < ?j. elements (blocks s b) (of_nat (r + k)) \<noteq> None"
    using core_cells [OF inv(1,2) _ live j(2,1)] bids by simp
  let ?st = "after_block i b r ?j (p, s)"
  have mv: "move_out ?j idx b s = Some (xs, update_block b (\<lambda>bl. bl\<lparr>elements := clear_slots (elements bl) r ?j\<rparr>) s)"
    unfolding sh(1) xs_def by (rule move_out_eq [OF sh(2) j(1) el])
  have tm: "take_many ?j idx (p, s) = Some (map Some xs, ?st)"
  proof -
    have "map Some xs = map (\<lambda>k. elements (blocks s b) (of_nat (r + k))) [0..<?j]" using el by (auto simp: xs_def)
    then show ?thesis unfolding sh(1) using take_many_block [OF sh(2) look(1) sh(3) j(1) cnt] i by simp
  qed
  have p: "blockIndex p = Some h" using invp by (simp add: index_inv_def)
  have unfold: "dequeue_blocks (idx + of_nat k) idx i (p, s) =
    (if idx + of_nat ?j = idx + of_nat k then Some (xs, ?st)
     else Option.bind (dequeue_blocks (idx + of_nat k) (idx + of_nat ?j) ((i + 1) AND (capacity h - 1)) ?st) (\<lambda>(ys, st2). Some (xs @ ys, st2)))"
    using p look(3) i mv release_many_block [OF sh(3) j(1) cnt]
    by (subst dequeue_blocks.simps) (simp add: Let_def stop diff)
  show ?case
  proof (cases "?j = k")
    case True
    then show ?thesis using unfold tm by auto
  next
    case False
    then have full: "r + ?j = 32" "?j < k" "0 < ?j" using sh(3) by auto
    obtain p1 s1 where st: "?st = (p1, s1)" by fastforce
    have p1: "p1 = put_val i None p" using st full(1) by (simp add: after_block_def Let_def)
    have idx: "idx + of_nat ?j = hb + 32" using full(1) sh(1) by (metis add.assoc of_nat_add of_nat_numeral)
    obtain p2 s2 where c: "take_many ?j idx (p, s) = Some (map (\<lambda>j. block_cell ?p s (idx + of_nat j)) [0..<?j], p2, s2)"
      "core F (n - ?j) (head_at (idx + of_nat ?j) p2) s2" using take_many_core [OF less.prems(1) j(2)] by blast
    then have c: "core F (n - ?j) (head_at (idx + of_nat ?j) p1) s1" using tm st by simp
    have "length bids \<noteq> 1" using sh(4) full less.prems(2) by auto
    then have "bs \<noteq> []" using bids by auto
    then have nx: "get_block_index_index_for_index (idx + of_nat ?j) p1 = Some ((i + 1) AND (capacity h - 1))"
      unfolding idx p1 using next_entry [OF invp [unfolded bids] sh(2)] look(4) i by simp
    have kj: "k - ?j < k" "k - ?j \<le> n - ?j" "0 < n - ?j" using full less.prems(2) by auto
    obtain ys st2 where r: "dequeue_blocks (idx + of_nat ?j + of_nat (k - ?j)) (idx + of_nat ?j) ((i + 1) AND (capacity h - 1)) (p1, s1) = Some (ys, st2)"
      "take_many (k - ?j) (idx + of_nat ?j) (p1, s1) = Some (map Some ys, st2)"
      using less.IH [OF kj(1) c kj(2,3) nx] by blast
    have k: "idx + of_nat ?j + of_nat (k - ?j) = idx + of_nat k" using full(2) by (simp add: of_nat_diff)
    have "(of_nat ?j :: u64) \<noteq> of_nat k"
      using of_nat_u64_eq [of ?j k] full(2) less.prems(2) sh(4,5) by simp
    then have "dequeue_blocks (idx + of_nat k) idx i (p, s) = Some (xs @ ys, st2)"
      using unfold r(1) st k by simp
    moreover have "take_many (?j + (k - ?j)) idx (p, s) = Some (map Some (xs @ ys), st2)"
      unfolding take_many_add using tm st r(2) by simp
    ultimately show ?thesis using full(2) by auto
  qed
qed

section \<open>Bulk dequeues refine those on cells\<close>

lemma block_inv_core:
  "block_inv F (p, s) \<longleftrightarrow> wf_producer (babs (p, s)) \<and> core F (producer_size (babs (p, s))) p s"
proof -
  have size: "producer_size (babs (p, s)) = n" if "shape hb r n bids p" for hb r n bids
    using that by (auto simp: producer_size_def babs_def shape_def unat_of_nat_u64)
  show ?thesis
  proof
    assume inv: "block_inv F (p, s)"
    then obtain hb r n bids m h frees where i: "shape hb r n bids p \<and> index_inv hb bids p m h frees \<and> stored r n bids p s
        \<and> F \<inter> set bids = {} \<and> pool_ok (F \<union> set bids) s" and wf: "wf_producer (babs (p, s))"
      unfolding block_inv_def by auto
    moreover have "\<forall>k < n. block_cell p s (bp_headIndex p + of_nat k) \<noteq> None"
      using wf size [of hb r n bids] i by (simp add: wf_producer_def babs_def)
    ultimately show "wf_producer (babs (p, s)) \<and> core F (producer_size (babs (p, s))) p s"
      using size [of hb r n bids] unfolding core_def by blast
  next
    assume "wf_producer (babs (p, s)) \<and> core F (producer_size (babs (p, s))) p s"
    then show "block_inv F (p, s)" unfolding core_def by (metis block_invI)
  qed
qed

lemma core_counters [simp]: "core F n (p\<lparr>bp_dequeueOptimisticCount := c\<rparr>) s \<longleftrightarrow> core F n p s"
  by (simp add: core_def shape_def index_inv_def stored_def block_cell_def get_block_for_index_def get_block_index_index_for_index_def)

lemma block_cell_counters [simp]: "block_cell (p\<lparr>bp_dequeueOptimisticCount := c\<rparr>) s = block_cell p s"
  by (simp add: fun_eq_iff block_cell_def get_block_for_index_def get_block_index_index_for_index_def)

lemma core_lookup:
  assumes "core F n p s" and "0 < n"
  shows "\<exists>i. get_block_index_index_for_index (bp_headIndex p) p = Some i"
proof -
  obtain hb r bids m h frees where inv: "shape hb r n bids p" "index_inv hb bids p m h frees"
    using assms(1) unfolding core_def by blast
  then have "bids \<noteq> []" "hb AND 31 = 0" "r < 32" "bp_headIndex p = hb + of_nat r" using assms(2) by (auto simp: shape_def)
  with lookup_first [OF inv(2) this(1,2)] show ?thesis by metis
qed

lemma some_cells: "map Some xs = map f ks \<Longrightarrow> xs = List.map_filter f ks"
proof -
  assume a: "map Some xs = map f ks"
  have "List.map_filter f ks = List.map_filter id (map f ks)" by (simp add: List.map_filter_def comp_def filter_map)
  also have "\<dots> = xs" unfolding a [symmetric] by (simp add: List.map_filter_def comp_def)
  finally show "xs = List.map_filter f ks" by simp
qed

lemma block_dequeue_bulk_refines:
  assumes "block_inv F (p, s)"
  shows "\<exists>p' s'. block_dequeue_bulk mx (p, s) = Some (fst (producer_dequeue_bulk (unat mx) (babs (p, s))), p', s') \<and> block_inv F (p', s')
    \<and> babs (p', s') = snd (producer_dequeue_bulk (unat mx) (babs (p, s))) \<and> (\<forall>c \<in> F. blocks s' c = blocks s c) \<and> mallocs s' = mallocs s"
proof -
  let ?a = "babs (p, s)" and ?h = "bp_headIndex p"
  define n where "n = producer_size ?a"
  have wf: "wf_producer ?a" and core: "core F n p s" using assms by (simp_all add: block_inv_core n_def)
  have eq: "bp_dequeueOptimisticCount p - bp_dequeueOvercommit p = ?h" using wf by (simp add: wf_producer_def babs_def)
  have size: "unat (bp_tailIndex p - ?h) = n" and n: "n < 2 ^ 63"
    using wf by (simp_all add: n_def producer_size_def babs_def wf_producer_def)
  have circ: "circular_less_than 0 (bp_tailIndex p - ?h) \<longleftrightarrow> 0 < n" using size n by (simp add: circular_less_than_iff)
  show ?thesis
  proof (cases "0 < n")
    case False
    then have "block_dequeue_bulk mx (p, s) = Some ([], p, s)" "producer_dequeue_bulk (unat mx) ?a = ([], ?a)"
      using circ eq by (simp_all add: block_dequeue_bulk_def producer_dequeue_bulk_def babs_def)
    then show ?thesis using assms by auto
  next
    case True
    define k where "k = min n (unat mx)"
    let ?p = "p\<lparr>bp_dequeueOptimisticCount := bp_dequeueOptimisticCount p + of_nat k, bp_headIndex := ?h + of_nat k\<rparr>"
    have k: "k \<le> n" "(if bp_tailIndex p - ?h < mx then bp_tailIndex p - ?h else mx) = of_nat k"
      using size by (auto simp: k_def word_less_nat_alt min_def)
    have "unat (of_nat k :: u64) = k" using k(1) n by (intro unat_of_nat_u64) simp
    then have le: "(if of_nat k < bp_tailIndex p - ?h then of_nat k else bp_tailIndex p - ?h) = (of_nat k :: u64)"
      using size k(1) by (auto simp: word_less_nat_alt word_unat_eq_iff)
    have p: "head_at ?h ?p = p\<lparr>bp_dequeueOptimisticCount := bp_dequeueOptimisticCount p + of_nat k\<rparr>" by simp
    have core': "core F n (head_at ?h ?p) s" and bc: "block_cell (head_at ?h ?p) s = block_cell p s"
      unfolding p using core by (simp_all only: core_counters block_cell_counters)
    obtain i where i: "get_block_index_index_for_index ?h p = Some i" using core_lookup [OF core True] by blast
    then have i': "get_block_index_index_for_index ?h ?p = Some i" by (simp add: get_block_index_index_for_index_def)
    obtain xs p' s' where d: "dequeue_blocks (?h + of_nat k) ?h i (?p, s) = Some (xs, p', s')"
      "take_many k ?h (?p, s) = Some (map Some xs, p', s')"
      using dequeue_blocks_eq [OF core' k(1) True i'] by auto
    have t: "map Some xs = map (\<lambda>j. block_cell p s (?h + of_nat j)) [0..<k]" "core F (n - k) (head_at (?h + of_nat k) p') s'"
      "mallocs s' = mallocs s" "\<forall>c \<in> F. blocks s' c = blocks s c" "same_but_index ?p p'"
      "block_cell (head_at (?h + of_nat k) p') s' = clear_cells (block_cell p s) ?h k"
      using take_many_core [OF core' k(1)] d(2) unfolding bc by auto
    have hd: "head_at (?h + of_nat k) p' = p'" using t(5) by (simp add: same_but_index_def)
    have bd: "block_dequeue_bulk mx (p, s) = Some (xs, p', s')"
      unfolding block_dequeue_bulk_def Let_def prod.case eq k(2) le using circ True d(1) i' by simp
    have ab: "babs (p', s') = ?a\<lparr>dequeueOptimisticCount := bp_dequeueOptimisticCount p + of_nat k, headIndex := ?h + of_nat k,
        cells := clear_cells (block_cell p s) ?h k\<rparr>"
      using t(5,6) unfolding hd by (simp add: babs_def same_but_index_def)
    have pd: "producer_dequeue_bulk (unat mx) ?a = (xs, babs (p', s'))"
      using circ True eq size k_def some_cells [OF t(1)] unfolding ab
      by (simp add: producer_dequeue_bulk_def babs_def Let_def take_cells_def)
    have wf': "wf_producer (babs (p', s'))" using producer_dequeue_bulk_items [OF wf, of "unat mx"] pd by auto
    have "producer_size (babs (p', s')) = n - k"
    proof -
      obtain q where "producer_dequeue_bulk (unat mx) ?a = (take (unat mx) (producer_items ?a), q)"
        "producer_items q = drop (unat mx) (producer_items ?a)" using producer_dequeue_bulk_items [OF wf, of "unat mx"] by blast
      then have "length (producer_items (babs (p', s'))) = n - k"
        using pd length_producer_items [OF wf] by (simp add: n_def k_def min_def)
      then show ?thesis using length_producer_items [OF wf'] by simp
    qed
    then have "block_inv F (p', s')" using wf' t(2) hd by (simp add: block_inv_core)
    then show ?thesis using bd pd t(3,4) by auto
  qed
qed

end
