(* ===== verification/Block_Destroy.thy ===== *)
theory Block_Destroy
  imports Block_Bulk
begin

section \<open>The destructor\<close>

text \<open>
  The loop that destroys the elements left, \<open>n\<close> of them from \<open>idx\<close> on; \<open>blk\<close> is the source's
  \<open>block\<close>.  Each block is given to the free list when the next one is reached.  Destroying an
  element that does not live, or in no block, is \<open>None\<close>.
\<close>

fun destroy_elements :: "nat \<Rightarrow> u64 \<Rightarrow> nat option \<Rightarrow> block_producer \<Rightarrow> 'a pool \<Rightarrow> 'a pool option" where
  "destroy_elements 0 idx blk p s = Some s"
| "destroy_elements (Suc n) idx blk p s =
     Option.bind
       (if idx AND (BLOCK_SIZE - 1) = 0 \<or> blk = None
        then map_option (\<lambda>(i, b). (b, case blk of None \<Rightarrow> s | Some old \<Rightarrow> add_block_to_free_list old s)) (get_block_for_index idx p)
        else map_option (\<lambda>b. (b, s)) blk)
       (\<lambda>(b, s1).
          if elements (blocks s1 b) (slot idx) = None then None
          else destroy_elements n (idx + 1) (Some b) p (clear_slot idx b s1))"

text \<open>The memory of the index is released with the producer, which is gone afterwards.\<close>

definition destroy_producer :: "block_producer \<times> 'a pool \<Rightarrow> 'a pool option" where
  "destroy_producer st =
     (case st of (p, s) \<Rightarrow>
        let tail = bp_tailIndex p; idx = bp_headIndex p
        in if \<not> (idx = tail \<or> circular_less_than idx tail) then None
           else Option.bind (destroy_elements (unat (tail - idx)) idx None p s) (\<lambda>s1.
             case tailBlock p of
               None \<Rightarrow> Some s1
             | Some b \<Rightarrow>
                 Some (if idx \<noteq> tail \<or> tail AND (BLOCK_SIZE - 1) \<noteq> 0 then add_block_to_free_list b s1 else s1)))"

text \<open>\<open>cur\<close> is the number of the block that the loop has in hand.\<close>

definition cur :: "nat \<Rightarrow> nat option \<Rightarrow> nat" where
  "cur j blk = (if blk = None then j div 32 else (j - 1) div 32)"

lemma destroy_elements_frees:
  assumes inv: "index_inv hb bids p m h frees" and hb: "hb AND 31 = 0" and dist: "distinct bids"
  shows "0 < n \<Longrightarrow> j + n \<le> 32 * length bids \<Longrightarrow> blk = None \<or> 0 < j \<and> blk = Some (bids ! ((j - 1) div 32)) \<Longrightarrow>
    \<forall>k < n. elements (blocks s (bids ! ((j + k) div 32))) (of_nat ((j + k) mod 32)) \<noteq> None \<Longrightarrow>
    \<exists>s'. destroy_elements n (hb + of_nat j) blk p s = Some s' \<and> (\<forall>b. b \<notin> set bids \<longrightarrow> blocks s' b = blocks s b)
      \<and> freeList s' = rev (map ((!) bids) [cur j blk..<(j + n - 1) div 32]) @ freeList s
      \<and> initialBlockPoolSize s' = initialBlockPoolSize s \<and> initialBlockPoolIndex s' = initialBlockPoolIndex s
      \<and> next_block s' = next_block s \<and> mallocs s' = mallocs s"
proof (induction n arbitrary: j blk s)
  case (Suc n)
  let ?b = "bids ! (j div 32)"
  have jl: "j < 32 * length bids" using Suc.prems(2) by simp
  have b: "j div 32 < length bids" using jl by (simp add: less_mult_imp_div_less mult.commute)
  obtain i where look: "get_block_for_index (hb + of_nat j) p = Some (i, ?b)" using lookup_block [OF inv jl hb] by blast
  have sl: "slot (hb + of_nat j) = of_nat (j mod 32)" by (rule slot_base(1) [OF hb])
  then have zero: "(hb + of_nat j) AND (BLOCK_SIZE - 1) = 0 \<longleftrightarrow> j mod 32 = 0"
    using slot_inject [of j 0] by (simp add: slot_def)
  define s1 where "s1 = (if j mod 32 = 0 then case blk of None \<Rightarrow> s | Some old \<Rightarrow> add_block_to_free_list old s else s)"
  have s1: "blocks s1 = blocks s" "initialBlockPoolSize s1 = initialBlockPoolSize s" "initialBlockPoolIndex s1 = initialBlockPoolIndex s"
    "next_block s1 = next_block s" "mallocs s1 = mallocs s"
    by (simp_all add: s1_def add_block_to_free_list_def split: option.split)
  have cur: "cur (Suc j) (Some ?b) = j div 32" by (simp add: cur_def)
  have fl: "freeList s1 = rev (map ((!) bids) [cur j blk..<j div 32]) @ freeList s"
  proof (cases "j mod 32 = 0 \<and> blk \<noteq> None")
    case True
    then have j: "0 < j" "blk = Some (bids ! ((j - 1) div 32))" using Suc.prems(3) by auto
    obtain q where q: "j = 32 * Suc q" using True j(1) by (metis dvd_def mod_0_imp_dvd mult_0_right neq0_conv not0_implies_Suc)
    then have "(j - 1) div 32 = q" "j div 32 = Suc q" by simp_all
    then show ?thesis using True j by (simp add: s1_def cur_def add_block_to_free_list_def)
  next
    case False
    have "cur j blk = j div 32"
    proof (cases blk)
      case (Some x)
      then have "j mod 32 \<noteq> 0" using False by simp
      then have "(j - 1) div 32 = j div 32" by (cases j) (auto simp: div_Suc)
      then show ?thesis by (simp add: cur_def Some)
    qed (simp add: cur_def)
    then show ?thesis using False by (auto simp: s1_def split: option.split)
  qed
  have e: "elements (blocks s1 ?b) (of_nat (j mod 32)) \<noteq> None" using Suc.prems(4) [rule_format, of 0] s1(1) by simp
  let ?s2 = "clear_slot (hb + of_nat j) ?b s1"
  have blkb: "blk = Some ?b" if "j mod 32 \<noteq> 0" "blk \<noteq> None"
  proof -
    have "(j - 1) div 32 = j div 32" using that(1) by (cases j) (auto simp: div_Suc)
    then show ?thesis using that(2) Suc.prems(3) by auto
  qed
  have step: "destroy_elements (Suc n) (hb + of_nat j) blk p s = destroy_elements n (hb + of_nat (Suc j)) (Some ?b) p ?s2"
  proof -
    have "(if (hb + of_nat j) AND (BLOCK_SIZE - 1) = 0 \<or> blk = None
        then map_option (\<lambda>(i, b). (b, case blk of None \<Rightarrow> s | Some old \<Rightarrow> add_block_to_free_list old s)) (get_block_for_index (hb + of_nat j) p)
        else map_option (\<lambda>b. (b, s)) blk) = Some (?b, s1)"
      using look zero blkb by (auto simp: s1_def split: option.split)
    then show ?thesis using e by (simp only: destroy_elements.simps next_index sl) auto
  qed
  have bl: "blocks ?s2 b = (if b = ?b then (blocks s ?b)\<lparr>elements := (elements (blocks s ?b))(of_nat (j mod 32) := None)\<rparr> else blocks s b)" for b
    using sl s1(1) by (simp add: clear_slot_def)
  show ?case
  proof (cases "n = 0")
    case True
    have "?b \<in> set bids" using b by simp
    then have "\<forall>b. b \<notin> set bids \<longrightarrow> blocks ?s2 b = blocks s b" using bl by auto
    then show ?thesis
      using True step fl s1 by (intro exI [of _ ?s2]) (simp add: clear_slot_def update_block_def)
  next
    case False
    have live: "\<forall>k < n. elements (blocks ?s2 (bids ! ((Suc j + k) div 32))) (of_nat ((Suc j + k) mod 32)) \<noteq> None"
    proof (intro allI impI)
      fix k assume k: "k < n"
      let ?q = "Suc j + k"
      have old: "elements (blocks s (bids ! (?q div 32))) (of_nat (?q mod 32)) \<noteq> None"
        using Suc.prems(4) [rule_format, of "Suc k"] k by simp
      show "elements (blocks ?s2 (bids ! (?q div 32))) (of_nat (?q mod 32)) \<noteq> None"
      proof (cases "?q div 32 = j div 32")
        case True
        have "?q = 32 * (?q div 32) + ?q mod 32" "j = 32 * (j div 32) + j mod 32" by (simp_all only: mult_div_mod_eq)
        then have "?q mod 32 \<noteq> j mod 32" unfolding True by linarith
        then have "(of_nat (?q mod 32) :: u64) \<noteq> of_nat (j mod 32)" using slot_inject by blast
        then show ?thesis using old True bl by simp
      next
        case False
        have "?q div 32 < length bids" using k Suc.prems(2) by (simp add: less_mult_imp_div_less mult.commute)
        then have "bids ! (?q div 32) \<noteq> ?b" using False b dist nth_eq_iff_index_eq by metis
        then show ?thesis using old bl by simp
      qed
    qed
    obtain s' where IH: "destroy_elements n (hb + of_nat (Suc j)) (Some ?b) p ?s2 = Some s'"
      "\<forall>b. b \<notin> set bids \<longrightarrow> blocks s' b = blocks ?s2 b"
      "freeList s' = rev (map ((!) bids) [j div 32..<(Suc j + n - 1) div 32]) @ freeList ?s2"
      "initialBlockPoolSize s' = initialBlockPoolSize ?s2" "initialBlockPoolIndex s' = initialBlockPoolIndex ?s2"
      "next_block s' = next_block ?s2" "mallocs s' = mallocs ?s2"
      using Suc.IH [of "Suc j" "Some ?b" ?s2, OF _ _ _ live] False Suc.prems(2) unfolding cur by auto
    have "cur j blk \<le> j div 32" by (simp add: cur_def div_le_mono)
    moreover have "j div 32 \<le> (Suc j + n - 1) div 32" by (rule div_le_mono) simp
    ultimately have "[cur j blk..<(Suc j + n - 1) div 32] = [cur j blk..<j div 32] @ [j div 32..<(Suc j + n - 1) div 32]"
      by (metis le_add_diff_inverse upt_add_eq_append)
    moreover have "freeList ?s2 = freeList s1" by (simp add: clear_slot_def update_block_def)
    ultimately have "freeList s' = rev (map ((!) bids) [cur j blk..<(j + Suc n - 1) div 32]) @ freeList s"
      using IH(3) fl by simp
    moreover have "\<forall>b. b \<notin> set bids \<longrightarrow> blocks s' b = blocks s b" using IH(2) bl b by (metis nth_mem)
    ultimately show ?thesis using step IH(1,4-7) s1 by (simp add: clear_slot_def update_block_def)
  qed
qed simp

lemma blocks_before_last:
  assumes "r + n \<le> 32 * length bids" and "32 * length bids < r + n + 32" and "0 < n"
  shows "(r + n - 1) div 32 = length bids - 1"
  using assms by linarith

lemma pool_ok_freed:
  assumes "pool_ok (F \<union> set bs) s" and "F \<inter> set bs = {}" and "distinct bs" and "freeList s' = rev bs @ freeList s"
    and "initialBlockPoolSize s' = initialBlockPoolSize s" and "initialBlockPoolIndex s' = initialBlockPoolIndex s"
    and "next_block s' = next_block s"
  shows "pool_ok F s'"
proof -
  have "allocated s' = allocated s" using assms(5-7) by (simp add: allocated_def)
  then show ?thesis using assms unfolding pool_ok_def by auto
qed

lemma destroy_producer_frees:
  assumes "block_inv F (p, s)"
  shows "\<exists>s'. destroy_producer (p, s) = Some s' \<and> pool_ok F s' \<and> set (freeList s') = live_set p \<union> set (freeList s)
    \<and> (\<forall>c \<in> F. blocks s' c = blocks s c) \<and> mallocs s' = mallocs s
    \<and> initialBlockPoolSize s' = initialBlockPoolSize s \<and> next_block s' = next_block s"
proof -
  obtain hb r n bids m h frees where inv: "shape hb r n bids p" "index_inv hb bids p m h frees" "stored r n bids p s"
    "F \<inter> set bids = {}" "pool_ok (F \<union> set bids) s" and wf: "wf_producer (babs (p, s))"
    using assms unfolding block_inv_def by auto
  have sh: "bp_headIndex p = hb + of_nat r" "bp_tailIndex p = hb + of_nat (r + n)" "hb AND 31 = 0" "r < 32"
    "r + n \<le> 32 * length bids" "32 * length bids < r + n + 32" "length bids \<le> 2 ^ 58" using inv(1) by (auto simp: shape_def)
  have dist: "distinct bids" and tb: "bids \<noteq> [] \<Longrightarrow> tailBlock p = Some (last bids)" using inv(3) by (auto simp: stored_def)
  have live: "live_set p = set bids" by (rule live_set_eq [OF inv(2) sh(3)])
  have size: "unat (bp_tailIndex p - bp_headIndex p) = n" using sh by (simp add: unat_of_nat_u64)
  have n: "n < 2 ^ 63" using wf size by (simp add: wf_producer_def producer_size_def babs_def)
  have slot: "bp_tailIndex p AND (BLOCK_SIZE - 1) = 0 \<longleftrightarrow> (r + n) mod 32 = 0"
    unfolding sh(2) using slot_base(1) [OF sh(3), of "r + n"] slot_inject [of "r + n" 0] by (simp add: slot_def)
  have "\<exists>s'. destroy_producer (p, s) = Some s' \<and> (\<forall>b. b \<notin> set bids \<longrightarrow> blocks s' b = blocks s b)
      \<and> freeList s' = rev bids @ freeList s
      \<and> initialBlockPoolSize s' = initialBlockPoolSize s \<and> initialBlockPoolIndex s' = initialBlockPoolIndex s
      \<and> next_block s' = next_block s \<and> mallocs s' = mallocs s"
  proof (cases "n = 0")
    case True
    then have eq: "bp_headIndex p = bp_tailIndex p" using sh(1,2) by simp
    show ?thesis
    proof (cases bids)
      case Nil
      then have "(r + n) mod 32 = 0" using sh(5) by simp
      then have "destroy_producer (p, s) = Some s"
        using eq slot by (auto simp: destroy_producer_def Let_def split: option.split)
      then show ?thesis using Nil by simp
    next
      case (Cons b bs)
      then have "bids = [b]" "(r + n) mod 32 \<noteq> 0" using sh(4,6) True by (cases bs; auto)+
      then have "destroy_producer (p, s) = Some (add_block_to_free_list b s)"
        using eq slot tb by (simp add: destroy_producer_def Let_def)
      then show ?thesis using \<open>bids = [b]\<close> by (simp add: add_block_to_free_list_def)
    qed
  next
    case False
    then have ne: "bids \<noteq> []" using sh(5) by auto
    have "\<forall>k < n. elements (blocks s (bids ! ((r + k) div 32))) (of_nat ((r + k) mod 32)) \<noteq> None"
    proof (intro allI impI)
      fix k assume k: "k < n"
      have "block_cell p s = cells_of hb r n bids (blocks s)" using sh by (intro block_cell_eq [OF inv(2)]) simp_all
      moreover have "block_cell p s (bp_headIndex p + of_nat k) \<noteq> None"
        using wf k size by (simp add: wf_producer_def babs_def producer_size_def)
      moreover have "unat (of_nat k :: u64) = k" using k n by (intro unat_of_nat_u64) simp
      ultimately show "elements (blocks s (bids ! ((r + k) div 32))) (of_nat ((r + k) mod 32)) \<noteq> None"
        using k sh(1) by (simp add: cells_of_def Let_def)
    qed
    then obtain s1 where d: "destroy_elements n (hb + of_nat r) None p s = Some s1" "\<forall>b. b \<notin> set bids \<longrightarrow> blocks s1 b = blocks s b"
      "freeList s1 = rev (map ((!) bids) [cur r None..<(r + n - 1) div 32]) @ freeList s"
      "initialBlockPoolSize s1 = initialBlockPoolSize s" "initialBlockPoolIndex s1 = initialBlockPoolIndex s"
      "next_block s1 = next_block s" "mallocs s1 = mallocs s"
      using destroy_elements_frees [OF inv(2) sh(3) dist, of n r None s] False sh(5) by auto
    have "map ((!) bids) [0..<length bids - 1] = butlast bids"
      by (intro nth_equalityI) (simp_all add: nth_butlast)
    then have fl: "freeList s1 = rev (butlast bids) @ freeList s"
      using d(3) blocks_before_last [OF sh(5,6)] False sh(4) by (simp add: cur_def)
    have rv: "rev bids = last bids # rev (butlast bids)" using ne by (metis append_butlast_last_id rev.simps(2) rev_append append_Cons append_Nil rev_rev_ident)
    have "circular_less_than (bp_headIndex p) (bp_tailIndex p)" "bp_headIndex p \<noteq> bp_tailIndex p"
      using size n False by (auto simp: circular_less_than_iff)
    then have "destroy_producer (p, s) = Some (add_block_to_free_list (last bids) s1)"
      using d(1) size tb [OF ne] sh(1) by (simp add: destroy_producer_def Let_def)
    moreover have "freeList (add_block_to_free_list (last bids) s1) = rev bids @ freeList s"
      unfolding rv using fl by (simp add: add_block_to_free_list_def)
    ultimately show ?thesis using d(2,4-7) by (auto simp: add_block_to_free_list_def)
  qed
  then obtain s' where s': "destroy_producer (p, s) = Some s'" "\<forall>b. b \<notin> set bids \<longrightarrow> blocks s' b = blocks s b"
    "freeList s' = rev bids @ freeList s" "initialBlockPoolSize s' = initialBlockPoolSize s"
    "initialBlockPoolIndex s' = initialBlockPoolIndex s" "next_block s' = next_block s" "mallocs s' = mallocs s" by blast
  then have "pool_ok F s'" using pool_ok_freed [OF inv(5,4) dist s'(3-6)] by blast
  moreover have "\<forall>c \<in> F. blocks s' c = blocks s c" using s'(2) inv(4) by blast
  ultimately show ?thesis using s' live by (intro exI [of _ s']) simp
qed

section \<open>Which blocks were allocated one by one\<close>

definition flags_ok :: "'a pool \<Rightarrow> bool" where
  "flags_ok s \<longleftrightarrow> unat (initialBlockPoolSize s) \<le> next_block s
     \<and> (\<forall>b. dynamicallyAllocated (blocks s b) \<longleftrightarrow> unat (initialBlockPoolSize s) \<le> b)"

named_theorems flags

lemma flags_ok_same [flags]:
  "flags_ok (s\<lparr>mallocs := ms\<rparr>) \<longleftrightarrow> flags_ok s"
  "flags_ok (add_block_to_free_list b s) \<longleftrightarrow> flags_ok s"
  "flags_ok (s\<lparr>freeList := bs\<rparr>) \<longleftrightarrow> flags_ok s"
  "flags_ok (s\<lparr>initialBlockPoolIndex := i\<rparr>) \<longleftrightarrow> flags_ok s"
  by (simp_all add: flags_ok_def add_block_to_free_list_def)

lemma flags_ok_cong:
  assumes "\<And>c. dynamicallyAllocated (blocks s' c) = dynamicallyAllocated (blocks s c)"
    and "initialBlockPoolSize s' = initialBlockPoolSize s" and "next_block s' = next_block s"
  shows "flags_ok s' \<longleftrightarrow> flags_ok s"
  using assms by (simp add: flags_ok_def)

lemma flags_ok_update [flags]:
  "(\<And>bl. dynamicallyAllocated (f bl) = dynamicallyAllocated bl) \<Longrightarrow> flags_ok (update_block b f s) \<longleftrightarrow> flags_ok s"
  by (rule flags_ok_cong) (auto simp: update_block_def)

lemma flags_ok_block [flags]:
  "dynamicallyAllocated bl = dynamicallyAllocated (blocks s b) \<Longrightarrow> flags_ok (s\<lparr>blocks := (blocks s)(b := bl)\<rparr>) \<longleftrightarrow> flags_ok s"
  by (rule flags_ok_cong) auto

lemma flags_ok_clear_slot [flags]: "flags_ok (clear_slot idx b s) \<longleftrightarrow> flags_ok s"
  by (simp add: clear_slot_def flags)

lemma flags_ok_new_pool: "flags_ok (new_pool q ms)"
  by (auto simp: flags_ok_def new_pool_def populate_initial_block_list_def malloc_def new_block_def split: list.split)

lemma malloc_flags: "malloc s = (ok, s') \<Longrightarrow> flags_ok s' \<longleftrightarrow> flags_ok s"
  by (auto simp: malloc_def flags split: list.splits)

lemma requisition_block_flags:
  assumes "flags_ok s" and "requisition_block mode s = (r, s')"
  shows "flags_ok s'"
proof -
  have new: "flags_ok (s1\<lparr>blocks := (blocks s1)(next_block s1 := new_block), next_block := Suc (next_block s1)\<rparr>)"
    if "flags_ok s1" for s1 :: "'a pool" using that by (auto simp: flags_ok_def new_block_def)
  obtain r1 s1 where t: "try_get_block_from_initial_pool s = (r1, s1)" by fastforce
  have s1: "flags_ok s1" using t assms(1) by (auto simp: try_get_block_from_initial_pool_def Let_def flags split: if_splits)
  obtain r2 s2 where u: "try_get_block_from_free_list s1 = (r2, s2)" by fastforce
  have s2: "flags_ok s2" using u s1 by (auto simp: try_get_block_from_free_list_def flags split: list.splits)
  obtain ok s3 where m: "malloc s2 = (ok, s3)" by fastforce
  then have "flags_ok s3" using s2 malloc_flags by blast
  then show ?thesis
    using assms(2) t u m s1 s2 new [of s3] unfolding requisition_block_def create_block_def
    by (auto split: option.splits if_splits)
qed

lemma new_block_index_flags: "new_block_index junk (p, s) = (ok, p', s') \<Longrightarrow> flags_ok s' \<longleftrightarrow> flags_ok s"
  by (cases "malloc s") (auto simp: new_block_index_def Let_def dest: malloc_flags split: if_splits)

lemma insert_entry_flags: "insert_block_index_entry mode junk k (p, s) = Some (r, p', s') \<Longrightarrow> flags_ok s' \<longleftrightarrow> flags_ok s"
  by (cases "new_block_index junk (p, s)")
    (auto simp: insert_block_index_entry_def Let_def dest: new_block_index_flags split: option.splits if_splits bool.splits)

lemma store_element_flags: "store_element x (p, s) = Some (ok, p', s') \<Longrightarrow> flags_ok s' \<longleftrightarrow> flags_ok s"
  by (auto simp: store_element_def flags split: option.splits)

lemma block_enqueue_flags:
  assumes "flags_ok s" and "block_enqueue mode junk x (p, s) = Some (ok, p', s')"
  shows "flags_ok s'"
proof -
  have reset: "flags_ok (update_block b reset_empty s1) \<longleftrightarrow> flags_ok s1" for b and s1 :: "'a pool"
    by (rule flags_ok_update) (simp add: reset_empty_def)
  show ?thesis
  proof (cases "insert_block_index_entry mode junk (bp_tailIndex p) (p, s)")
    case None
    then show ?thesis using assms store_element_flags [of x p s]
      by (auto simp: block_enqueue_def Let_def split: if_splits)
  next
    case (Some a)
    obtain r p1 s1 where a: "a = (r, p1, s1)" by (cases a) auto
    then have s1: "flags_ok s1" using Some insert_entry_flags assms(1) by blast
    obtain o2 s2 where q: "requisition_block mode s1 = (o2, s2)" by fastforce
    then have "flags_ok s2" using s1 requisition_block_flags by blast
    then show ?thesis using assms Some a s1 q store_element_flags [of x] reset
      by (auto simp: block_enqueue_def Let_def split: if_splits option.splits)
  qed
qed

lemma mark_dequeued_flags: "mark_dequeued i b (p, s) = Some (p', s') \<Longrightarrow> flags_ok s' \<longleftrightarrow> flags_ok s"
  by (auto simp: mark_dequeued_def set_empty_def Let_def bind_eq_Some_conv flags split: if_splits)

lemma take_one_flags: "take_one idx (p, s) = Some (e, p', s') \<Longrightarrow> flags_ok s' \<longleftrightarrow> flags_ok s"
  by (auto simp: take_one_def bind_eq_Some_conv flags dest!: mark_dequeued_flags)

lemma block_dequeue_flags: "block_dequeue (p, s) = Some (e, p', s') \<Longrightarrow> flags_ok s' \<longleftrightarrow> flags_ok s"
  by (auto simp: block_dequeue_def Let_def bind_eq_Some_conv flags dest!: mark_dequeued_flags split: if_splits)

lemma move_out_flags: "move_out n idx b s = Some (xs, s') \<Longrightarrow> flags_ok s' \<longleftrightarrow> flags_ok s"
proof (induction n arbitrary: idx s xs)
  case (Suc n)
  then obtain ys where "move_out n (idx + 1) b (clear_slot idx b s) = Some (ys, s')"
    by (auto simp: bind_eq_Some_conv split: option.splits)
  then show ?case using Suc.IH by (metis flags_ok_clear_slot)
qed simp

lemma release_many_flags: "release_many i b n (p, s) = Some (p', s') \<Longrightarrow> flags_ok s' \<longleftrightarrow> flags_ok s"
  by (auto simp: release_many_def set_many_empty_def Let_def bind_eq_Some_conv flags split: if_splits)

lemma dequeue_blocks_flags:
  assumes "dequeue_blocks stop idx i st = Some r"
  shows "flags_ok (snd (snd r)) \<longleftrightarrow> flags_ok (snd st)"
proof (rule dequeue_blocks.raw_induct [where P = "\<lambda>_ _ _ st r. flags_ok (snd (snd r)) \<longleftrightarrow> flags_ok (snd st)", OF _ assms])
  fix f :: "u64 \<Rightarrow> u64 \<Rightarrow> u64 \<Rightarrow> block_producer \<times> 'a pool \<Rightarrow> ('a list \<times> block_producer \<times> 'a pool) option"
  fix stop idx i st r
  let ?e = "block_end stop idx"
  assume IH: "\<And>stop idx i st r. f stop idx i st = Some r \<Longrightarrow> flags_ok (snd (snd r)) \<longleftrightarrow> flags_ok (snd st)"
    and body: "Option.bind (blockIndex (fst st)) (\<lambda>h. Option.bind (val (index h ! unat i)) (\<lambda>b.
       let endIndex = ?e
       in Option.bind (move_out (unat (endIndex - idx)) idx b (snd st)) (\<lambda>(xs, s1).
            Option.bind (release_many i b (endIndex - idx) (fst st, s1)) (\<lambda>st1.
              if endIndex = stop then Some (xs, st1)
              else Option.bind (f stop endIndex ((i + 1) AND (capacity h - 1)) st1)
                     (\<lambda>(ys, st2). Some (xs @ ys, st2)))))) = Some r"
  from body obtain h :: block_index_header and b ys s1 p1 s2 where m: "move_out (unat (?e - idx)) idx b (snd st) = Some (ys, s1)"
    "release_many i b (?e - idx) (fst st, s1) = Some (p1, s2)"
    and r: "(if ?e = stop then Some (ys, p1, s2)
       else Option.bind (f stop ?e ((i + 1) AND (capacity h - 1)) (p1, s2)) (\<lambda>(zs, st2). Some (ys @ zs, st2))) = Some r"
    by (auto simp: Let_def bind_eq_Some_conv)
  have "flags_ok (snd (snd r)) \<longleftrightarrow> flags_ok s2" using r by (auto simp: bind_eq_Some_conv dest: IH split: if_splits)
  then show "flags_ok (snd (snd r)) \<longleftrightarrow> flags_ok (snd st)"
    using move_out_flags [OF m(1)] release_many_flags [OF m(2)] by simp
qed

lemma block_dequeue_bulk_flags: "block_dequeue_bulk mx (p, s) = Some (xs, p', s') \<Longrightarrow> flags_ok s' \<longleftrightarrow> flags_ok s"
  by (auto simp: block_dequeue_bulk_def Let_def bind_eq_Some_conv dest!: dequeue_blocks_flags split: if_splits)

lemma destroy_elements_flags: "destroy_elements n idx blk p s = Some s' \<Longrightarrow> flags_ok s' \<longleftrightarrow> flags_ok s"
proof (induction n arbitrary: idx blk s)
  case (Suc n)
  then obtain b s1 where d: "destroy_elements n (idx + 1) (Some b) p (clear_slot idx b s1) = Some s'"
    and s1: "s1 = s \<or> (\<exists>old. s1 = add_block_to_free_list old s)"
    by (auto simp: bind_eq_Some_conv split: if_splits option.splits)
  have "flags_ok s1 \<longleftrightarrow> flags_ok s" using s1 by (auto simp: flags)
  then show ?case using Suc.IH [OF d] by (simp add: flags)
qed simp

lemma destroy_producer_flags:
  assumes "destroy_producer (p, s) = Some s'"
  shows "flags_ok s' \<longleftrightarrow> flags_ok s"
proof -
  let ?d = "destroy_elements (unat (bp_tailIndex p - bp_headIndex p)) (bp_headIndex p) None p s"
  obtain s1 where d: "?d = Some s1" and "s' = s1 \<or> (\<exists>b. s' = add_block_to_free_list b s1)"
    using assms by (cases ?d; cases "tailBlock p") (auto simp: destroy_producer_def Let_def split: if_splits)
  then show ?thesis using destroy_elements_flags [OF d] by (auto simp: flags)
qed

end
