(* ===== verification/Block_Sharing.thy ===== *)
theory Block_Sharing
  imports Block_Destroy
begin

text \<open>
  Sequences of operations on the blocks of \<open>common/concurrentqueue.h\<close>: one producer whose
  allocations may fail, and any number of producers that share a pool of blocks.
\<close>

section \<open>Sequences of operations\<close>

datatype 'a block_op = BEnqueue allocation_mode "nat option" 'a | BDequeue | BDequeueBulk u64
datatype 'a block_result = BEnqueued bool | BDequeued "'a option" | BDequeuedBulk "'a list"

fun block_step :: "'a block_op \<Rightarrow> block_producer \<times> 'a pool \<Rightarrow> ('a block_result \<times> block_producer \<times> 'a pool) option" where
  "block_step (BEnqueue mode junk x) st = map_option (\<lambda>(ok, st'). (BEnqueued ok, st')) (block_enqueue mode junk x st)"
| "block_step BDequeue st = map_option (\<lambda>(r, st'). (BDequeued r, st')) (block_dequeue st)"
| "block_step (BDequeueBulk mx) st = map_option (\<lambda>(xs, st'). (BDequeuedBulk xs, st')) (block_dequeue_bulk mx st)"

fun cell_step :: "'a block_op \<Rightarrow> 'a producer \<Rightarrow> 'a block_result \<times> 'a producer" where
  "cell_step (BEnqueue mode junk x) p = (case producer_enqueue x p of (ok, p') \<Rightarrow> (BEnqueued ok, p'))"
| "cell_step BDequeue p = (case producer_dequeue p of (r, p') \<Rightarrow> (BDequeued r, p'))"
| "cell_step (BDequeueBulk mx) p = (case producer_dequeue_bulk (unat mx) p of (xs, p') \<Rightarrow> (BDequeuedBulk xs, p'))"

definition can_alloc :: "'a block_op \<Rightarrow> bool" where
  "can_alloc op = (case op of BEnqueue mode junk x \<Rightarrow> mode = CanAlloc | _ \<Rightarrow> True)"

lemma block_step_frame:
  assumes "block_inv F (p, s)" and "mallocs s = []" and "can_alloc op"
  shows "\<exists>r p' s'. block_step op (p, s) = Some (r, p', s') \<and> block_inv F (p', s') \<and> mallocs s' = []
    \<and> cell_step op (babs (p, s)) = (r, babs (p', s')) \<and> (\<forall>c \<in> F. blocks s' c = blocks s c)"
proof (cases op)
  case (BEnqueue mode junk x)
  then have "mode = CanAlloc" using assms(3) by (simp add: can_alloc_def)
  then obtain ok p' s' where e: "block_enqueue mode junk x (p, s) = Some (ok, p', s')" "block_inv F (p', s')"
    "if ok then producer_enqueue x (babs (p, s)) = (True, babs (p', s')) else babs (p', s') = babs (p, s)"
    "mallocs s' = []" "fst (producer_enqueue x (babs (p, s))) = ok" "\<forall>c \<in> F. blocks s' c = blocks s c"
    using block_enqueue_refines [OF assms(1), of mode x junk] assms(2) unfolding enqueue_refines_def by auto
  have "producer_enqueue x (babs (p, s)) = (ok, babs (p', s'))"
    using e(3,5) by (cases ok) (auto simp: producer_enqueue_def Let_def split: if_splits)
  then show ?thesis using BEnqueue e by simp
next
  case BDequeue
  then show ?thesis using block_dequeue_refines [OF assms(1)] assms(2) by (auto simp: split_beta)
next
  case (BDequeueBulk mx)
  then show ?thesis using block_dequeue_bulk_refines [OF assms(1), of mx] assms(2) by (auto simp: split_beta)
qed

lemma block_step_flags: "block_step op (p, s) = Some (r, p', s') \<Longrightarrow> flags_ok s \<Longrightarrow> flags_ok s'"
  by (cases op) (auto dest: block_enqueue_flags block_dequeue_flags block_dequeue_bulk_flags)

lemma pool_ok_new: "pool_ok {} (new_pool q ms)"
  by (auto simp: pool_ok_def allocated_def new_pool_def populate_initial_block_list_def malloc_def Let_def split: list.splits)

lemma new_block_producer_ok:
  fixes s :: "'a pool"
  assumes "pool_ok F s" and "malloc s = (True, s1)" and "mallocs s = [] \<longrightarrow> mallocs s1 = []"
  shows "block_inv F (new_block_producer junk t s)" and "babs (new_block_producer junk t s) = new_producer t"
    and "mallocs s = [] \<Longrightarrow> mallocs (snd (new_block_producer junk t s)) = []"
proof -
  let ?h = "\<lparr>capacity = 32, tail = 31, index = replicate 32 (fresh_entry junk)\<rparr>"
  let ?p = "\<lparr>bp_owner = t, bp_tailIndex = 0, bp_headIndex = 0, bp_dequeueOptimisticCount = 0, bp_dequeueOvercommit = 0,
    tailBlock = None, nextBlockIndexCapacity = 64, blockIndex = Some ?h\<rparr>"
  have s1: "\<exists>ms. s1 = s\<lparr>mallocs := ms\<rparr>" using assms(2) by (cases rule: malloc_cases [of s]) auto
  have "(- 1 :: u64) AND 31 = 31" by simp
  then have new: "new_block_producer junk t s = (?p, s1)"
    using assms(2) by (simp add: new_block_producer_def new_block_index_def IMPLICIT_INITIAL_INDEX_SIZE_def fresh_entry_def)
  have "babs (?p, s1) = new_producer t" by (simp add: babs_def new_producer_def block_cell_def fun_eq_iff)
  then show b: "babs (new_block_producer junk t s) = new_producer t" unfolding new .
  have "view ?h = replicate 32 (fresh_entry junk)"
    using rotate_id [of 32 "replicate 32 (fresh_entry junk)"] by (simp only: view_def block_index_header.simps) simp
  then have "index_inv 0 [] ?p 5 ?h (replicate 32 (fresh_entry junk))"
    by (simp add: index_inv_def header_ok_def free_entry_def fresh_entry_def)
  moreover have "shape 0 0 0 [] ?p" "stored 0 0 [] ?p s1" by (simp_all add: shape_def stored_def)
  moreover have "pool_ok F s1" using s1 assms(1) by auto
  moreover have "wf_producer (babs (?p, s1))" using b new wf_new_producer [of t] by simp
  ultimately have "block_inv F (?p, s1)" using block_invI [of ?p s1 0 0 0 "[]" 5 ?h "replicate 32 (fresh_entry junk)" F] by simp
  then show "block_inv F (new_block_producer junk t s)" unfolding new .
  show "mallocs s = [] \<Longrightarrow> mallocs (snd (new_block_producer junk t s)) = []" using new assms(3) by simp
qed

text \<open>What the enqueues of a run were given and accepted, and what its dequeues returned.\<close>

fun accepted :: "'a block_op list \<Rightarrow> 'a block_result list \<Rightarrow> 'a list" where
  "accepted (BEnqueue mode junk x # ops) (BEnqueued ok # rs) = (if ok then [x] else []) @ accepted ops rs"
| "accepted (BDequeue # ops) (BDequeued r # rs) = accepted ops rs"
| "accepted (BDequeueBulk mx # ops) (BDequeuedBulk xs # rs) = accepted ops rs"
| "accepted _ _ = []"

fun returned :: "'a block_result list \<Rightarrow> 'a list" where
  "returned [] = []"
| "returned (BEnqueued ok # rs) = returned rs"
| "returned (BDequeued r # rs) = (case r of None \<Rightarrow> [] | Some x \<Rightarrow> [x]) @ returned rs"
| "returned (BDequeuedBulk xs # rs) = xs @ returned rs"

lemma block_inv_wf: "block_inv F st \<Longrightarrow> wf_producer (babs st)"
  by (cases st) (simp add: block_inv_def)

lemma dequeue_any:
  assumes "wf_producer p" and "producer_dequeue p = (r, p')"
  shows "producer_items p = (case r of None \<Rightarrow> [] | Some x \<Rightarrow> [x]) @ producer_items p'"
proof (cases "producer_items p")
  case Nil
  then show ?thesis using producer_dequeue_empty [OF assms(1)] assms(2) by simp
next
  case (Cons x xs)
  then show ?thesis using producer_dequeue_items [OF assms(1)] assms(2) by auto
qed

lemma block_run_fifo:
  "block_inv F st \<Longrightarrow> \<exists>rs st'. run_partial block_step ops st = Some (rs, st') \<and> block_inv F st'
     \<and> producer_items (babs st) @ accepted ops rs = returned rs @ producer_items (babs st')"
proof (induction ops arbitrary: st)
  case (Cons op ops)
  obtain p s where ps: "st = (p, s)" by fastforce
  have "\<exists>r st1. block_step op st = Some (r, st1) \<and> block_inv F st1
      \<and> (\<forall>rs. producer_items (babs st) @ accepted (op # ops) (r # rs) = returned [r] @ producer_items (babs st1) @ accepted ops rs)"
  proof (cases op)
    case (BEnqueue mode junk x)
    obtain ok p' s' where e: "block_enqueue mode junk x (p, s) = Some (ok, p', s')" "block_inv F (p', s')"
      "if ok then producer_enqueue x (babs (p, s)) = (True, babs (p', s')) else babs (p', s') = babs (p, s)"
      using block_enqueue_refines [of F p s mode x junk] Cons.prems ps unfolding enqueue_refines_def by blast
    then have "producer_items (babs (p', s')) = producer_items (babs (p, s)) @ (if ok then [x] else [])"
      using producer_enqueue_any [OF block_inv_wf [OF Cons.prems]] ps by (cases ok) auto
    then show ?thesis using e BEnqueue ps by simp
  next
    case BDequeue
    obtain p' s' where d: "block_dequeue (p, s) = Some (fst (producer_dequeue (babs (p, s))), p', s')" "block_inv F (p', s')"
      "babs (p', s') = snd (producer_dequeue (babs (p, s)))"
      using block_dequeue_refines [of F p s] Cons.prems ps by blast
    then show ?thesis
      using BDequeue ps dequeue_any [OF block_inv_wf [OF Cons.prems], of "fst (producer_dequeue (babs st))" "snd (producer_dequeue (babs st))"]
      by simp
  next
    case (BDequeueBulk mx)
    obtain p' s' where d: "block_dequeue_bulk mx (p, s) = Some (fst (producer_dequeue_bulk (unat mx) (babs (p, s))), p', s')"
      "block_inv F (p', s')" "babs (p', s') = snd (producer_dequeue_bulk (unat mx) (babs (p, s)))"
      using block_dequeue_bulk_refines [of F p s mx] Cons.prems ps by blast
    then show ?thesis
      using BDequeueBulk ps producer_dequeue_bulk_items [OF block_inv_wf [OF Cons.prems], of "unat mx"] by auto
  qed
  then obtain r st1 where r: "block_step op st = Some (r, st1)" "block_inv F st1"
    "\<And>rs. producer_items (babs st) @ accepted (op # ops) (r # rs) = returned [r] @ producer_items (babs st1) @ accepted ops rs" by blast
  obtain rs st' where rs: "run_partial block_step ops st1 = Some (rs, st')" "block_inv F st'"
    "producer_items (babs st1) @ accepted ops rs = returned rs @ producer_items (babs st')" using Cons.IH [OF r(2)] by blast
  have "returned (r # rs) = returned [r] @ returned rs" by (cases r) simp_all
  then show ?case using r rs by (intro exI [of _ "r # rs"] exI [of _ st']) simp
qed simp

section \<open>Producers that share a pool\<close>

text \<open>Another producer's step changes nothing for a producer but who holds the other blocks.\<close>

lemma block_inv_frame:
  assumes "block_inv F (p, s)" and "\<And>b. b \<in> live_set p \<Longrightarrow> blocks s' b = blocks s b"
    and "F' \<inter> live_set p = {}" and "pool_ok (F' \<union> live_set p) s'"
  shows "block_inv F' (p, s')" and "babs (p, s') = babs (p, s)"
proof -
  obtain hb r n bids m h frees where inv: "shape hb r n bids p" "index_inv hb bids p m h frees" "stored r n bids p s"
    and wf: "wf_producer (babs (p, s))" using assms(1) unfolding block_inv_def by auto
  have l: "live_set p = set bids" using live_set_eq [OF inv(2)] inv(1) by (simp add: shape_def)
  show ab: "babs (p, s') = babs (p, s)" using assms(2) l by (intro babs_cong [OF inv(1,2) inv(2)]) simp_all
  have "stored r n bids p s'" using assms(2) l by (intro stored_same [OF inv(3)]) simp_all
  then show "block_inv F' (p, s')" using inv(1,2) wf ab assms(3,4) l by (intro block_invI) simp_all
qed

definition others :: "block_producer list \<Rightarrow> nat \<Rightarrow> nat set" where
  "others ps k = (\<Union>j \<in> {..<length ps} - {k}. live_set (ps ! j))"

definition shared_inv :: "nat \<Rightarrow> block_producer list \<times> 'a pool \<Rightarrow> bool" where
  "shared_inv N st \<longleftrightarrow> (case st of (ps, s) \<Rightarrow>
     length ps = N \<and> mallocs s = [] \<and> flags_ok s \<and> pool_ok (\<Union>j < N. live_set (ps ! j)) s
     \<and> (\<forall>k < N. block_inv (others ps k) (ps ! k, s)))"

lemma others_live: "k < length ps \<Longrightarrow> others ps k \<union> live_set (ps ! k) = (\<Union>j < length ps. live_set (ps ! j))"
  by (auto simp: others_def)

lemma others_update: "others (ps[k := p]) k = others ps k"
  by (auto simp: others_def)

lemma others_update_subset: "others (ps[k := p]) j \<subseteq> others ps j \<union> live_set p"
proof
  fix b assume "b \<in> others (ps[k := p]) j"
  then obtain i where i: "i < length ps" "i \<noteq> j" "b \<in> live_set (ps[k := p] ! i)" by (auto simp: others_def)
  then show "b \<in> others ps j \<union> live_set p" by (cases "i = k") (auto simp: others_def)
qed

lemma shared_inv_update:
  assumes "shared_inv N (ps, s)" and k: "k < N" and "block_inv (others ps k) (p', s')"
    and "\<forall>c \<in> others ps k. blocks s' c = blocks s c" and "mallocs s' = []" and "flags_ok s'"
  shows "shared_inv N (ps[k := p'], s')"
    and "map (\<lambda>p. babs (p, s')) (ps[k := p']) = (map (\<lambda>p. babs (p, s)) ps)[k := babs (p', s')]"
proof -
  let ?ps = "ps[k := p']"
  have N: "length ps = N" and inv: "\<And>j. j < N \<Longrightarrow> block_inv (others ps j) (ps ! j, s)"
    using assms(1) unfolding shared_inv_def by auto
  note l = block_inv_live [OF assms(3)]
  have all: "(\<Union>j < N. live_set (?ps ! j)) = others ps k \<union> live_set p'"
    using others_live [of k ?ps] others_update [of ps k p'] k N by simp
  have frame: "block_inv (others ?ps j) (ps ! j, s') \<and> babs (ps ! j, s') = babs (ps ! j, s)" if j: "j < N" "j \<noteq> k" for j
  proof -
    have sub: "live_set (ps ! j) \<subseteq> others ps k" using j N by (auto simp: others_def)
    have "others ?ps j \<inter> live_set (?ps ! j) = {}"
    proof -
      have "live_set p' \<inter> live_set (ps ! j) = {}" using l(1) sub by blast
      moreover have "others ps j \<inter> live_set (ps ! j) = {}" using block_inv_live(1) [OF inv [OF j(1)]] .
      moreover have "others ?ps j \<subseteq> others ps j \<union> live_set p'" by (rule others_update_subset)
      ultimately show ?thesis using j by auto
    qed
    moreover have "pool_ok (others ?ps j \<union> live_set (?ps ! j)) s'" using others_live [of j ?ps] l(2) all j N by simp
    moreover have "\<And>b. b \<in> live_set (ps ! j) \<Longrightarrow> blocks s' b = blocks s b" using sub assms(4) by blast
    ultimately show ?thesis using block_inv_frame [OF inv [OF j(1)], of s' "others ?ps j"] j by simp
  qed
  have "block_inv (others ?ps j) (?ps ! j, s')" if "j < N" for j
    using that frame [of j] assms(3) others_update [of ps k p'] N by (cases "j = k") simp_all
  then show "shared_inv N (?ps, s')" using N all l(2) assms(5,6) unfolding shared_inv_def by simp
  show "map (\<lambda>p. babs (p, s')) ?ps = (map (\<lambda>p. babs (p, s)) ps)[k := babs (p', s')]"
  proof (rule nth_equalityI)
    fix j assume "j < length (map (\<lambda>p. babs (p, s')) ?ps)"
    then show "map (\<lambda>p. babs (p, s')) ?ps ! j = (map (\<lambda>p. babs (p, s)) ps)[k := babs (p', s')] ! j"
      using frame [of j] N by (cases "j = k") simp_all
  qed simp
qed

fun shared_step :: "nat \<times> 'a block_op \<Rightarrow> block_producer list \<times> 'a pool \<Rightarrow> ('a block_result \<times> block_producer list \<times> 'a pool) option" where
  "shared_step (k, op) (ps, s) = map_option (\<lambda>(r, p', s'). (r, ps[k := p'], s')) (block_step op (ps ! k, s))"

fun cells_step :: "nat \<times> 'a block_op \<Rightarrow> 'a producer list \<Rightarrow> 'a block_result \<times> 'a producer list" where
  "cells_step (k, op) ps = (case cell_step op (ps ! k) of (r, p') \<Rightarrow> (r, ps[k := p']))"

interpretation shared_sim: simulation shared_step cells_step "\<lambda>(ps, s). map (\<lambda>p. babs (p, s)) ps"
  "\<lambda>(k, op). k < N \<and> can_alloc op" "\<lambda>n. shared_inv N" for N
proof
  fix n :: nat and c :: "block_producer list \<times> 'a pool" and op :: "nat \<times> 'a block_op"
  assume c: "shared_inv N c" and v: "case op of (k, op) \<Rightarrow> k < N \<and> can_alloc op"
  obtain ps s k bop where e: "c = (ps, s)" "op = (k, bop)" by fastforce
  let ?F = "others ps k"
  have k: "k < N" "can_alloc bop" "length ps = N" and inv: "block_inv ?F (ps ! k, s) \<and> mallocs (snd (ps ! k, s)) = []"
    using c v e unfolding shared_inv_def by auto
  obtain r p' s' where s: "block_step bop (ps ! k, s) = Some (r, p', s')" "block_inv ?F (p', s')" "mallocs s' = []"
    "cell_step bop (babs (ps ! k, s)) = (r, babs (p', s'))" "\<forall>c \<in> ?F. blocks s' c = blocks s c"
    using block_step_frame [OF conjunct1 [OF inv] _ k(2)] inv by auto
  have "flags_ok s" using c unfolding e(1) shared_inv_def by simp
  then have "flags_ok s'" by (rule block_step_flags [OF s(1)])
  note u = shared_inv_update [OF c [unfolded e(1)] k(1) s(2,5,3) this]
  show "\<exists>r c'. shared_step op c = Some (r, c') \<and> shared_inv N c'
      \<and> cells_step op (case c of (ps, s) \<Rightarrow> map (\<lambda>p. babs (p, s)) ps) = (r, case c' of (ps, s) \<Rightarrow> map (\<lambda>p. babs (p, s)) ps)"
    using s u e k by simp
qed

text \<open>Producers created one after the other on the same pool.\<close>

fun new_producers :: "nat option \<Rightarrow> tid list \<Rightarrow> 'a pool \<Rightarrow> block_producer list \<times> 'a pool" where
  "new_producers junk [] s = ([], s)"
| "new_producers junk (t # ts) s =
     (case new_block_producer junk t s of (p, s1) \<Rightarrow> case new_producers junk ts s1 of (ps, s2) \<Rightarrow> (p # ps, s2))"

lemma new_producers_ok:
  fixes s :: "'a pool"
  assumes "pool_ok {} s" and "mallocs s = []" and "flags_ok s"
  shows "shared_inv (length ts) (new_producers junk ts s)"
    and "(case new_producers junk ts s of (ps, s') \<Rightarrow> map (\<lambda>p. babs (p, s')) ps) = (map new_producer ts :: 'a producer list)"
proof -
  have "\<exists>ps. new_producers junk ts s = (ps, s) \<and> length ps = length ts \<and> (\<forall>p \<in> set ps. live_set p = {} \<and> block_inv {} (p, s))
      \<and> map (\<lambda>p. babs (p, s)) ps = map new_producer ts"
  proof (induction ts)
    case (Cons t ts)
    note m = malloc_plenty [OF assms(2)]
    note n = new_block_producer_ok [OF assms(1) m, of junk t]
    obtain p where p: "new_block_producer junk t s = (p, s)"
      using m by (simp add: new_block_producer_def new_block_index_def Let_def)
    then have "live_set p = {}"
      using m by (auto simp: new_block_producer_def new_block_index_def Let_def live_set_def)
    then show ?case using Cons p n by auto
  qed simp
  then obtain ps where ps: "new_producers junk ts s = (ps, s)" "length ps = length ts"
    "\<forall>p \<in> set ps. live_set p = {} \<and> block_inv {} (p, s)" "map (\<lambda>p. babs (p, s)) ps = (map new_producer ts :: 'a producer list)" by blast
  then have "others ps k = {}" "(\<Union>j < length ts. live_set (ps ! j)) = {}" for k by (auto simp: others_def)
  then show "shared_inv (length ts) (new_producers junk ts s)" using ps(1-3) assms unfolding shared_inv_def by simp
  show "(case new_producers junk ts s of (ps, s') \<Rightarrow> map (\<lambda>p. babs (p, s')) ps) = (map new_producer ts :: 'a producer list)"
    using ps by simp
qed

section \<open>Destroying the queue\<close>

text \<open>The destructor takes the producers newest first, then the blocks of the free list that are not part of the initial array.\<close>

fun destroy_producers :: "block_producer list \<Rightarrow> 'a pool \<Rightarrow> 'a pool option" where
  "destroy_producers [] s = Some s"
| "destroy_producers (p # ps) s = Option.bind (destroy_producer (p, s)) (destroy_producers ps)"

definition destroy_queue :: "block_producer list \<times> 'a pool \<Rightarrow> nat list option" where
  "destroy_queue st =
     (case st of (ps, s) \<Rightarrow> map_option (\<lambda>s1. filter (\<lambda>b. dynamicallyAllocated (blocks s1 b)) (freeList s1)) (destroy_producers (rev ps) s))"

lemma others_last: "others (ps @ [p]) (length ps) = (\<Union>j < length ps. live_set (ps ! j))"
proof -
  have "{..<length (ps @ [p])} - {length ps} = {..<length ps}" by auto
  then show ?thesis unfolding others_def by (auto simp: nth_append)
qed

lemma others_snoc: "k < length ps \<Longrightarrow> others ps k \<subseteq> others (ps @ [p]) k"
  by (fastforce simp: others_def nth_append)

lemma destroy_last:
  assumes "shared_inv (Suc N) (ps @ [p], s)"
  shows "\<exists>s'. destroy_producer (p, s) = Some s' \<and> shared_inv N (ps, s') \<and> initialBlockPoolSize s' = initialBlockPoolSize s
    \<and> next_block s' = next_block s"
proof -
  have N: "length ps = N" and fl: "flags_ok s" "mallocs s = []"
    and inv: "\<And>k. k < Suc N \<Longrightarrow> block_inv (others (ps @ [p]) k) ((ps @ [p]) ! k, s)" using assms unfolding shared_inv_def by auto
  let ?F = "\<Union>j < N. live_set (ps ! j)"
  have "(ps @ [p]) ! N = p" using N by (metis nth_append_length)
  then have "block_inv ?F (p, s)" using inv [of N] others_last [of ps p] N by simp
  then obtain s' where d: "destroy_producer (p, s) = Some s'" "pool_ok ?F s'" "\<forall>c \<in> ?F. blocks s' c = blocks s c" "mallocs s' = mallocs s"
    "initialBlockPoolSize s' = initialBlockPoolSize s" "next_block s' = next_block s"
    using destroy_producer_frees by blast
  have "block_inv (others ps k) (ps ! k, s')" if k: "k < N" for k
  proof (rule block_inv_frame(1))
    have i: "block_inv (others (ps @ [p]) k) (ps ! k, s)" using inv [of k] k N by (simp add: nth_append)
    then show "block_inv (others (ps @ [p]) k) (ps ! k, s)" .
    show "\<And>b. b \<in> live_set (ps ! k) \<Longrightarrow> blocks s' b = blocks s b" using d(3) k by blast
    show "others ps k \<inter> live_set (ps ! k) = {}" using block_inv_live(1) [OF i] others_snoc [of k ps p] k N by blast
    show "pool_ok (others ps k \<union> live_set (ps ! k)) s'" using others_live [of k ps] d(2) k N by simp
  qed
  then have "shared_inv N (ps, s')"
    using N d(2,4) fl destroy_producer_flags [OF d(1)] unfolding shared_inv_def by simp
  then show ?thesis using d by blast
qed

lemma destroy_producers_free:
  "shared_inv N (ps, s) \<Longrightarrow> \<exists>s'. destroy_producers (rev ps) s = Some s' \<and> pool_ok {} s' \<and> flags_ok s'
     \<and> initialBlockPoolSize s' = initialBlockPoolSize s \<and> next_block s' = next_block s"
proof (induction ps arbitrary: N s rule: rev_induct)
  case Nil
  then show ?case by (auto simp: shared_inv_def)
next
  case (snoc p ps)
  then obtain n where n: "N = Suc n" by (auto simp: shared_inv_def)
  obtain s' where d: "destroy_producer (p, s) = Some s'" "shared_inv n (ps, s')"
    "initialBlockPoolSize s' = initialBlockPoolSize s" "next_block s' = next_block s"
    using destroy_last snoc.prems unfolding n by blast
  then show ?case using snoc.IH [OF d(2)] by auto
qed

section \<open>Properties\<close>

text \<open>
  C10. Storing elements in blocks implements the cells, for any number of producers that share a
  pool of blocks: in any sequence of enqueues, dequeues and bulk dequeues each returns what it returns on separate
  sequences of cells, though blocks emptied by one producer are reused by others; no assertion
  of the source fails and no null pointer is followed.  (The allocator does not run out of
  memory.)\<close>

theorem blocks_refine_cells:
  fixes ops :: "(nat \<times> 'a block_op) list"
  assumes "\<forall>(k, op) \<in> set ops. k < length ts \<and> can_alloc op"
  shows "\<exists>rs ps s. run_partial shared_step ops (new_producers junk ts (new_pool q [])) = Some (rs, ps, s)
    \<and> run_total cells_step ops (map new_producer ts) = (rs, map (\<lambda>p. babs (p, s)) ps)"
proof -
  have m: "mallocs (new_pool q [] :: 'a pool) = []"
    by (simp add: new_pool_def populate_initial_block_list_def malloc_def)
  note n = new_producers_ok [OF pool_ok_new m flags_ok_new_pool, where ts = ts and junk = junk]
  show ?thesis using shared_sim.run_simulates [OF n(1), of ops] assms unfolding n(2) by fastforce
qed

theorem blocks_refine_cells_witness:
  "\<exists>rs ps s. run_partial shared_step
        (map (\<lambda>i. (i mod 2, BEnqueue CanAlloc None i)) [0..<100] @ map (\<lambda>i. (i mod 2, BDequeueBulk 7)) [0..<100])
        (new_producers None [9, 8] (new_pool 40 [])) = Some (rs, ps, s)
    \<and> run_total cells_step
        (map (\<lambda>i. (i mod 2, BEnqueue CanAlloc None i)) [0..<100] @ map (\<lambda>i. (i mod 2, BDequeueBulk 7)) [0..<100])
        (map new_producer [9, 8]) = (rs, map (\<lambda>p. babs (p, s)) ps)"
  by (rule blocks_refine_cells) (auto simp: can_alloc_def)

text \<open>
  C17. Running out of memory loses nothing: whatever allocations of blocks and indices fail, in
  any sequence of operations of a producer whose constructor got its index, no assertion fails,
  an enqueue that reports a failure has stored nothing, and the elements accepted are those
  returned and, after them, those still stored, in order.\<close>

theorem blocks_out_of_memory:
  fixes ops :: "'a block_op list" and ms :: "bool list"
  assumes "fst (malloc (new_pool q ms :: 'a pool))"
  shows "\<exists>rs st'. run_partial block_step ops (new_block_producer junk t (new_pool q ms)) = Some (rs, st')
    \<and> accepted ops rs = returned rs @ producer_items (babs st')"
proof -
  let ?s = "new_pool q ms :: 'a pool"
  obtain s1 where s1: "malloc ?s = (True, s1)" "mallocs ?s = [] \<longrightarrow> mallocs s1 = []"
    using assms by (cases rule: malloc_cases [of ?s]) auto
  note n = new_block_producer_ok [OF pool_ok_new s1, of junk t]
  show ?thesis using block_run_fifo [OF n(1), of ops] n(2) by (auto simp: items_new_producer)
qed

theorem blocks_out_of_memory_witness:
  "map_option fst (run_partial block_step [BEnqueue CanAlloc None 7, BEnqueue CanAlloc None 8, BDequeue :: nat block_op]
       (new_block_producer None 9 (new_pool 0 [True, False]))) = Some [BEnqueued False, BEnqueued True, BDequeued (Some 8)]
   \<and> (\<exists>rs st'. run_partial block_step [BEnqueue CanAlloc None 7, BEnqueue CanAlloc None 8, BDequeue :: nat block_op]
       (new_block_producer None 9 (new_pool 0 [True, False])) = Some (rs, st')
     \<and> accepted [BEnqueue CanAlloc None 7, BEnqueue CanAlloc None 8, BDequeue] rs = returned rs @ producer_items (babs st'))"
proof
  show "map_option fst (run_partial block_step [BEnqueue CanAlloc None 7, BEnqueue CanAlloc None 8, BDequeue :: nat block_op]
       (new_block_producer None 9 (new_pool 0 [True, False]))) = Some [BEnqueued False, BEnqueued True, BDequeued (Some 8)]"
    by code_simp
  have "fst (malloc (new_pool 0 [True, False] :: nat pool))" by code_simp
  then show "\<exists>rs st'. run_partial block_step [BEnqueue CanAlloc None 7, BEnqueue CanAlloc None 8, BDequeue :: nat block_op]
       (new_block_producer None 9 (new_pool 0 [True, False])) = Some (rs, st')
     \<and> accepted [BEnqueue CanAlloc None 7, BEnqueue CanAlloc None 8, BDequeue] rs = returned rs @ producer_items (babs st')"
    by (rule blocks_out_of_memory)
qed

text \<open>
  C15. Destroying the queue releases every block once: after any sequence of operations the
  destructors of the producers fail no assertion, destroy only elements that live, and give back
  their blocks, so that the blocks the queue then destroys are the blocks it ever got from
  the allocator, each of them once, however many of them were in use.\<close>

theorem queue_destroyed_no_leak:
  fixes ops :: "(nat \<times> 'a block_op) list"
  assumes "\<forall>(k, op) \<in> set ops. k < length ts \<and> can_alloc op"
  shows "\<exists>rs ps s bs. run_partial shared_step ops (new_producers junk ts (new_pool q [])) = Some (rs, ps, s)
    \<and> destroy_queue (ps, s) = Some bs \<and> distinct bs \<and> set bs = {b. unat (initialBlockPoolSize s) \<le> b \<and> b < next_block s}"
proof -
  have m: "mallocs (new_pool q [] :: 'a pool) = []"
    by (simp add: new_pool_def populate_initial_block_list_def malloc_def)
  note n = new_producers_ok [OF pool_ok_new m flags_ok_new_pool, where ts = ts and junk = junk]
  obtain rs ps s where run: "run_partial shared_step ops (new_producers junk ts (new_pool q [])) = Some (rs, ps, s)"
    and "shared_inv (length ts) (ps, s)"
    using shared_sim.run_simulates [OF n(1), of ops] assms by fastforce
  then obtain s' where d: "destroy_producers (rev ps) s = Some s'" "pool_ok {} s'" "flags_ok s'"
    "initialBlockPoolSize s' = initialBlockPoolSize s" "next_block s' = next_block s"
    using destroy_producers_free by blast
  let ?bs = "filter (\<lambda>b. dynamicallyAllocated (blocks s' b)) (freeList s')"
  have fl: "set (freeList s') = allocated s'" "distinct (freeList s')" "unat (initialBlockPoolIndex s') \<le> unat (initialBlockPoolSize s')"
    using d(2) by (auto simp: pool_ok_def word_le_nat_alt)
  have "set ?bs = {b. unat (initialBlockPoolSize s) \<le> b \<and> b < next_block s}"
    using fl(1,3) d(3-5) by (auto simp: flags_ok_def allocated_def)
  then show ?thesis using run d(1) fl(2) by (simp add: destroy_queue_def)
qed

theorem queue_destroyed_no_leak_witness:
  "\<exists>rs ps s bs. run_partial shared_step
        (map (\<lambda>i. (i mod 2, BEnqueue CanAlloc None i)) [0..<100] @ [(1, BDequeueBulk 40)])
        (new_producers None [9, 8] (new_pool 40 [])) = Some (rs, ps, s)
    \<and> destroy_queue (ps, s) = Some bs \<and> distinct bs \<and> set bs = {b. unat (initialBlockPoolSize s) \<le> b \<and> b < next_block s}"
  by (rule queue_destroyed_no_leak) (auto simp: can_alloc_def)

end
