(* ===== verification/Suiw_Library.thy ===== *)
theory Suiw_Library
  imports Perf_Setup
begin

text \<open>
  \<open>libsuiw/softuiwarp.cpp\<close>: the library that makes the stack look like an RDMA device.  It
  describes the device, and it talks to the daemon: one connection for requests, and one for every
  event channel, over which connection-management events are sent and received as their object
  representation.
\<close>

section \<open>Messages\<close>

datatype daemon_msg_t = DAEMON_CREATE_EC | DAEMON_CREATE_CQ | DAEMON_CREATE_QP

fun daemon_msg_val :: "daemon_msg_t \<Rightarrow> u32" where
  "daemon_msg_val DAEMON_CREATE_EC = 0"
| "daemon_msg_val DAEMON_CREATE_CQ = 1"
| "daemon_msg_val DAEMON_CREATE_QP = 2"

definition sizeof_daemon_msg :: nat where "sizeof_daemon_msg = 4"

definition enc_daemon_msg :: "daemon_msg_t \<Rightarrow> bytes" where
  "enc_daemon_msg t = le_bytes 4 (daemon_msg_val t)"

datatype rdma_cm_event_type =
    RDMA_CM_EVENT_ADDR_RESOLVED | RDMA_CM_EVENT_ADDR_ERROR
  | RDMA_CM_EVENT_ROUTE_RESOLVED | RDMA_CM_EVENT_ROUTE_ERROR
  | RDMA_CM_EVENT_CONNECT_REQUEST | RDMA_CM_EVENT_CONNECT_RESPONSE
  | RDMA_CM_EVENT_CONNECT_ERROR | RDMA_CM_EVENT_UNREACHABLE
  | RDMA_CM_EVENT_REJECTED | RDMA_CM_EVENT_ESTABLISHED
  | RDMA_CM_EVENT_DISCONNECTED | RDMA_CM_EVENT_DEVICE_REMOVAL
  | RDMA_CM_EVENT_MULTICAST_JOIN | RDMA_CM_EVENT_MULTICAST_ERROR
  | RDMA_CM_EVENT_ADDR_CHANGE | RDMA_CM_EVENT_TIMEWAIT_EXIT

fun cm_event_val :: "rdma_cm_event_type \<Rightarrow> u32" where
  "cm_event_val RDMA_CM_EVENT_ADDR_RESOLVED = 0"
| "cm_event_val RDMA_CM_EVENT_ADDR_ERROR = 1"
| "cm_event_val RDMA_CM_EVENT_ROUTE_RESOLVED = 2"
| "cm_event_val RDMA_CM_EVENT_ROUTE_ERROR = 3"
| "cm_event_val RDMA_CM_EVENT_CONNECT_REQUEST = 4"
| "cm_event_val RDMA_CM_EVENT_CONNECT_RESPONSE = 5"
| "cm_event_val RDMA_CM_EVENT_CONNECT_ERROR = 6"
| "cm_event_val RDMA_CM_EVENT_UNREACHABLE = 7"
| "cm_event_val RDMA_CM_EVENT_REJECTED = 8"
| "cm_event_val RDMA_CM_EVENT_ESTABLISHED = 9"
| "cm_event_val RDMA_CM_EVENT_DISCONNECTED = 10"
| "cm_event_val RDMA_CM_EVENT_DEVICE_REMOVAL = 11"
| "cm_event_val RDMA_CM_EVENT_MULTICAST_JOIN = 12"
| "cm_event_val RDMA_CM_EVENT_MULTICAST_ERROR = 13"
| "cm_event_val RDMA_CM_EVENT_ADDR_CHANGE = 14"
| "cm_event_val RDMA_CM_EVENT_TIMEWAIT_EXIT = 15"

text \<open>
  The structure as the compiler lays it out on a 64-bit machine: two pointers, two 32-bit fields
  and a union whose larger member, \<open>rdma_ud_param\<close>, has 56 bytes.  Nothing here looks into the union.
\<close>

record rdma_cm_event =
  ev_id :: addr
  ev_listen_id :: addr
  ev_event :: u32
  ev_status :: u32
  ev_param :: bytes

definition sizeof_cm_event :: nat where "sizeof_cm_event = 80"

definition enc_cm_event :: "rdma_cm_event \<Rightarrow> bytes" where
  "enc_cm_event e = le_bytes 8 (ev_id e) @ le_bytes 8 (ev_listen_id e) @ le_bytes 4 (ev_event e)
     @ le_bytes 4 (ev_status e) @ ev_param e"

definition dec_cm_event :: "bytes \<Rightarrow> rdma_cm_event" where
  "dec_cm_event bs = \<lparr>ev_id = of_le (take 8 bs), ev_listen_id = of_le (take 8 (drop 8 bs)),
     ev_event = of_le (take 4 (drop 16 bs)), ev_status = of_le (take 4 (drop 20 bs)), ev_param = take 56 (drop 24 bs)\<rparr>"

lemma length_enc_cm_event [simp]: "length (enc_cm_event e) = 24 + length (ev_param e)"
  by (simp add: enc_cm_event_def)

interpretation cm_event_codec: fixed_codec enc_cm_event dec_cm_event 80 "\<lambda>e. length (ev_param e) = 56"
  by unfold_locales (simp_all add: dec_cm_event_def enc_cm_event_def of_le_le_bytes_full)

section \<open>The device\<close>

record ibv_device =
  dev_transport_type :: int
  dev_name :: string
  dev_dev_name :: string
  dev_dev_path :: string
  dev_ibdev_path :: string

definition IBV_TRANSPORT_IWARP :: int where "IBV_TRANSPORT_IWARP = 1"

definition create_suiw_device :: ibv_device where
  "create_suiw_device = \<lparr>dev_transport_type = IBV_TRANSPORT_IWARP, dev_name = ''enp94s0f0'',
     dev_dev_name = ''softuiwarp0'', dev_dev_path = ''/dev/zero'', dev_ibdev_path = ''/dev/zero''\<rparr>"

text \<open>\<open>None\<close> is a null pointer.\<close>

definition suiw_is_device_softuiwarp :: "ibv_device option \<Rightarrow> bool" where
  "suiw_is_device_softuiwarp device =
     (case device of None \<Rightarrow> False | Some d \<Rightarrow> dev_dev_name d = ''softuiwarp0'')"

record ibv_context =
  ctx_device :: ibv_device

definition suiw_open_device :: "ibv_device option \<Rightarrow> ibv_context option" where
  "suiw_open_device device = (case device of None \<Rightarrow> None | Some d \<Rightarrow> Some \<lparr>ctx_device = d\<rparr>)"

definition suiw_close_device :: "ibv_context option \<Rightarrow> int" where
  "suiw_close_device context = 0"

definition suiw_get_device_guid :: "ibv_device option \<Rightarrow> u64" where
  "suiw_get_device_guid device = of_le (rev (le_bytes 8 (0xdeadbeef :: u64)))"

definition suiw_query_device :: "ibv_context option \<Rightarrow> int" where
  "suiw_query_device context = -1"

section \<open>Connections to the daemon\<close>

text \<open>What \<open>socket\<close>, \<open>getaddrinfo\<close> and \<open>connect\<close> return.\<close>

record attempt =
  at_socket :: int
  at_getaddrinfo :: int
  at_connect :: int

record suiw_lib =
  suiw_ibv_device :: ibv_device
  dfd :: int
  lib_socks :: "int \<Rightarrow> sock"
  lib_open :: "int set"

definition connect_to_daemon :: "attempt \<Rightarrow> suiw_lib \<Rightarrow> int \<times> suiw_lib" where
  "connect_to_daemon a l =
     (let sock = at_socket a; l1 = l\<lparr>lib_open := open_fd sock (lib_open l)\<rparr>
      in if sock = -1 then (-1, l)
         else if at_getaddrinfo a \<noteq> 0 then (-1, l1)
         else if at_connect a = -1 then (-1, l1)
         else (sock, l1))"

definition suiw_init :: "attempt \<Rightarrow> suiw_lib \<Rightarrow> suiw_lib" where
  "suiw_init a l = (let l1 = l\<lparr>suiw_ibv_device := create_suiw_device\<rparr>
     in case connect_to_daemon a l1 of (fd, l2) \<Rightarrow> l2\<lparr>dfd := fd\<rparr>)"

definition suiw_fini :: "suiw_lib \<Rightarrow> suiw_lib" where
  "suiw_fini l = l\<lparr>lib_open := close_fd (dfd l) (lib_open l)\<rparr>"

text \<open>\<open>send\<close> and \<open>recv\<close> on a descriptor; a negative one fails.\<close>

definition lib_send :: "int \<Rightarrow> bytes \<Rightarrow> suiw_lib \<Rightarrow> int \<times> suiw_lib" where
  "lib_send fd bs l =
     (if fd < 0 then (-1, l)
      else case sock_send bs (lib_socks l fd) of (r, s) \<Rightarrow> (r, l\<lparr>lib_socks := (lib_socks l)(fd := s)\<rparr>))"

definition lib_recv :: "int \<Rightarrow> nat \<Rightarrow> suiw_lib \<Rightarrow> int \<times> bytes \<times> suiw_lib" where
  "lib_recv fd n l =
     (if fd < 0 then (-1, [], l)
      else case sock_recv False n (lib_socks l fd) of (r, bs, s) \<Rightarrow>
        (r, bs, l\<lparr>lib_socks := (lib_socks l)(fd := s)\<rparr>))"

text \<open>An event channel is its descriptor, which is -1 when the connection failed.\<close>

definition suiw_create_event_channel :: "attempt \<Rightarrow> suiw_lib \<Rightarrow> int \<times> suiw_lib" where
  "suiw_create_event_channel a l =
     connect_to_daemon a (snd (lib_send (dfd l) (enc_daemon_msg DAEMON_CREATE_EC) l))"

definition suiw_destroy_event_channel :: "int \<Rightarrow> suiw_lib \<Rightarrow> suiw_lib" where
  "suiw_destroy_event_channel ec_fd l = l\<lparr>lib_open := close_fd ec_fd (lib_open l)\<rparr>"

text \<open>The members that \<open>suiw_create_id\<close> sets; the others keep what the allocation held.\<close>

record rdma_cm_id =
  id_verbs :: "ibv_context option"
  id_channel :: int
  id_context :: addr
  id_ps :: u32

definition suiw_create_id :: "rdma_cm_id \<Rightarrow> int \<Rightarrow> addr \<Rightarrow> u32 \<Rightarrow> suiw_lib \<Rightarrow> int \<times> rdma_cm_id" where
  "suiw_create_id raw channel ctx ps l =
     (0, raw\<lparr>id_channel := channel, id_verbs := suiw_open_device (Some (suiw_ibv_device l)), id_context := ctx\<rparr>)"

definition suiw_destroy_id :: "rdma_cm_id \<Rightarrow> int" where
  "suiw_destroy_id i = 0"

definition cm_event :: "rdma_cm_event_type \<Rightarrow> addr \<Rightarrow> rdma_cm_event" where
  "cm_event t idp = \<lparr>ev_id = idp, ev_listen_id = 0, ev_event = cm_event_val t, ev_status = 0, ev_param = replicate 56 0\<rparr>"

text \<open>\<open>idp\<close> is the address of the identifier, which travels in the event.\<close>

definition suiw_resolve_addr :: "addr \<Rightarrow> rdma_cm_id \<Rightarrow> suiw_lib \<Rightarrow> int \<times> suiw_lib" where
  "suiw_resolve_addr idp i l =
     (case lib_send (id_channel i) (enc_cm_event (cm_event RDMA_CM_EVENT_ADDR_RESOLVED idp)) l of
        (ret, l1) \<Rightarrow> (if ret = int sizeof_cm_event then 0 else -1, l1))"

definition suiw_resolve_route :: "addr \<Rightarrow> rdma_cm_id \<Rightarrow> suiw_lib \<Rightarrow> int \<times> suiw_lib" where
  "suiw_resolve_route idp i l =
     (case lib_send (id_channel i) (enc_cm_event (cm_event RDMA_CM_EVENT_ROUTE_RESOLVED idp)) l of
        (ret, l1) \<Rightarrow> (if ret = int sizeof_cm_event then 0 else -1, l1))"

text \<open>\<open>raw\<close> is what the allocated event holds before the call.\<close>

definition suiw_get_cm_event :: "rdma_cm_event \<Rightarrow> int \<Rightarrow> suiw_lib \<Rightarrow> int \<times> rdma_cm_event \<times> suiw_lib" where
  "suiw_get_cm_event raw ec_fd l =
     (case lib_recv ec_fd sizeof_cm_event l of (ret, bs, l1) \<Rightarrow>
        (if ret = int sizeof_cm_event then 0 else -1, dec_cm_event (buf_put (enc_cm_event raw) 0 bs), l1))"

definition suiw_ack_cm_event :: "rdma_cm_event \<Rightarrow> int" where
  "suiw_ack_cm_event e = 0"

end
