(* ===== verification/Daemon.thy ===== *)
theory Daemon
  imports Suiw_Library
begin

text \<open>
  \<open>libsuiw/libsuiwd.cpp\<close>: the daemon.  It polls the connection to the library, an unused packet
  descriptor, the event channels and the completion queues, and handles what is ready in the order
  of the poll array.  One turn of its loop is a function of the daemon's state and of what \<open>poll\<close>
  reported.
\<close>

section \<open>State\<close>

text \<open>
  The descriptor vectors, the poll array with its length, the variable \<open>ret\<close> of the loop, the
  sockets, and what \<open>accept\<close> will return, in order.  An \<open>accept\<close> with nothing to return waits.
\<close>

record daemon =
  ec_fds :: "int list"
  cq_fds :: "int list"
  dm_fds :: "int list"
  dm_ret :: int
  dm_socks :: "int \<Rightarrow> sock"
  dm_accepts :: "int list"

text \<open>What \<open>socket\<close>, \<open>getaddrinfo\<close>, \<open>bind\<close> and \<open>listen\<close> return.\<close>

record server_calls =
  sc_socket :: int
  sc_getaddrinfo :: int
  sc_bind :: int
  sc_listen :: int

definition bind_server :: "server_calls \<Rightarrow> int" where
  "bind_server c =
     (if sc_getaddrinfo c \<noteq> 0 then sc_getaddrinfo c
      else if sc_bind c \<noteq> 0 then sc_bind c
      else sc_listen c)"

definition wait_for_client_connect :: "daemon \<Rightarrow> (int \<times> daemon) option" where
  "wait_for_client_connect d =
     (case dm_accepts d of [] \<Rightarrow> None | fd # fds \<Rightarrow> Some (fd, d\<lparr>dm_accepts := fds\<rparr>))"

section \<open>Handlers\<close>

definition create_event_channel :: "daemon \<Rightarrow> daemon option" where
  "create_event_channel d =
     Option.bind (wait_for_client_connect d) (\<lambda>(fd, d1). Some (d1\<lparr>ec_fds := ec_fds d1 @ [fd]\<rparr>))"

definition create_completion_queue :: "daemon \<Rightarrow> daemon option" where
  "create_completion_queue d =
     Option.bind (wait_for_client_connect d) (\<lambda>(fd, d1). Some (d1\<lparr>cq_fds := cq_fds d1 @ [fd]\<rparr>))"

definition create_queue_pair :: "daemon \<Rightarrow> daemon" where
  "create_queue_pair d = d"

definition set_sock :: "int \<Rightarrow> sock \<Rightarrow> daemon \<Rightarrow> daemon" where
  "set_sock fd s d = d\<lparr>dm_socks := (dm_socks d)(fd := s)\<rparr>"

text \<open>\<open>None\<close> is a call that waits in \<open>accept\<close>.\<close>

definition lib_handle_recv :: "int \<Rightarrow> daemon \<Rightarrow> (int \<times> daemon) option" where
  "lib_handle_recv fd d =
     (case sock_recv_all sizeof_daemon_msg (dm_socks d fd) of (ret, bs, s) \<Rightarrow>
        let d1 = set_sock fd s d; type = of_le bs :: u32
        in if ret = -1 then Some (-1, d1)
           else if ret = 0 then Some (0, d1)
           else if ret < int sizeof_daemon_msg then Some (-1, d1)
           else if type = daemon_msg_val DAEMON_CREATE_EC
           then Option.bind (create_event_channel d1) (\<lambda>d2. Some (ret, d2))
           else if type = daemon_msg_val DAEMON_CREATE_CQ
           then Option.bind (create_completion_queue d1) (\<lambda>d2. Some (ret, d2))
           else if type = daemon_msg_val DAEMON_CREATE_QP then Some (ret, create_queue_pair d1)
           else Some (ret, d1))"

definition ec_handle_recv :: "int \<Rightarrow> daemon \<Rightarrow> int \<times> daemon" where
  "ec_handle_recv fd d =
     (case sock_recv False sizeof_cm_event (dm_socks d fd) of (ret, bs, s) \<Rightarrow>
        if ret = -1 then (-1, set_sock fd s d)
        else if ret = 0 then (0, set_sock fd s d)
        else if ret < int sizeof_cm_event then (-1, set_sock fd s d)
        else case sock_send (enc_cm_event (dec_cm_event bs)) s of (ret2, s2) \<Rightarrow>
          if ret2 = -1 then (-1, set_sock fd s2 d)
          else if ret2 = 0 then (0, set_sock fd s2 d)
          else if ret2 < int sizeof_cm_event then (-1, set_sock fd s2 d)
          else (ret2, set_sock fd s2 d))"

text \<open>\<open>dpdk_handle_recv\<close> and \<open>cq_handle_recv\<close> have no return statement; \<open>junk\<close> is what the caller reads.\<close>

definition dpdk_handle_recv :: "int \<Rightarrow> int \<Rightarrow> int" where
  "dpdk_handle_recv junk fd = junk"

definition cq_handle_recv :: "int \<Rightarrow> int \<Rightarrow> int" where
  "cq_handle_recv junk fd = junk"

section \<open>The loop\<close>

text \<open>The test \<open>i - start < n\<close> on unsigned values, which is false when the difference wraps around.\<close>

definition in_range :: "nat \<Rightarrow> nat \<Rightarrow> nat \<Rightarrow> bool" where
  "in_range i start n \<longleftrightarrow> start \<le> i \<and> i - start < n"

definition ec_fd_start :: nat where "ec_fd_start = 2"

definition cq_fd_start :: "daemon \<Rightarrow> nat" where "cq_fd_start d = ec_fd_start + length (ec_fds d)"

text \<open>The poll array, rebuilt when its length is not right.\<close>

definition poll_fd_at :: "int \<Rightarrow> int \<Rightarrow> daemon \<Rightarrow> nat \<Rightarrow> int" where
  "poll_fd_at lib_fd dpdk_fd d i =
     (if i = 0 then lib_fd
      else if i = 1 then dpdk_fd
      else if in_range i ec_fd_start (length (ec_fds d)) then ec_fds d ! (i - ec_fd_start)
      else if in_range i (cq_fd_start d) (length (cq_fds d)) then cq_fds d ! (i - cq_fd_start d)
      else 0)"

definition build_fds :: "int \<Rightarrow> int \<Rightarrow> daemon \<Rightarrow> daemon" where
  "build_fds lib_fd dpdk_fd d =
     (let new_num_fds = cq_fd_start d + length (cq_fds d)
      in if length (dm_fds d) \<noteq> new_num_fds
         then d\<lparr>dm_fds := map (poll_fd_at lib_fd dpdk_fd d) [0..<new_num_fds]\<rparr>
         else d)"

definition POLLIN :: "16 word" where "POLLIN = 0x001"
definition POLLERR :: "16 word" where "POLLERR = 0x008"
definition POLLHUP :: "16 word" where "POLLHUP = 0x010"
definition POLLNVAL :: "16 word" where "POLLNVAL = 0x020"

text \<open>
  How a turn ends: with the next turn, with \<open>return\<close>, in an \<open>accept\<close> that waits, on the assertion,
  or behind the end of the poll array.
\<close>

datatype outcome = Next daemon | Return int daemon | Waits | Asserted | OutOfBounds

text \<open>
  The vectors may grow while the array is scanned, but the start of the completion queues, \<open>cq0\<close>, was
  computed before.
\<close>

definition dispatch :: "int \<Rightarrow> nat \<Rightarrow> nat \<Rightarrow> int \<Rightarrow> daemon \<Rightarrow> (int \<times> daemon) option" where
  "dispatch junk cq0 i fd d =
     (if i = 0 then lib_handle_recv fd d
      else if i = 1 then Some (dpdk_handle_recv junk fd, d)
      else if in_range i ec_fd_start (length (ec_fds d)) then Some (ec_handle_recv fd d)
      else if in_range i cq0 (length (cq_fds d)) then Some (cq_handle_recv junk fd, d)
      else Some (dm_ret d, d))"

fun scan :: "int \<Rightarrow> nat \<Rightarrow> nat \<Rightarrow> (int \<times> 16 word) list \<Rightarrow> int \<Rightarrow> daemon \<Rightarrow> outcome" where
  "scan junk cq0 i [] pollret d = (if pollret > 0 then OutOfBounds else Next d)"
| "scan junk cq0 i ((fd, revents) # fds) pollret d =
     (if pollret \<le> 0 then Next d
      else if revents = 0 then scan junk cq0 (Suc i) fds pollret d
      else if revents AND POLLHUP \<noteq> 0 then Return (-1) d
      else if revents AND (POLLERR OR POLLNVAL) \<noteq> 0 then Return (-1) d
      else if revents AND POLLIN = 0 then Asserted
      else case dispatch junk cq0 i fd d of
             None \<Rightarrow> Waits
           | Some (ret, d1) \<Rightarrow>
               let d2 = d1\<lparr>dm_ret := ret\<rparr>
               in if i = 0 \<and> ret = 0 then Return 0 d2
                  else if ret = -1 then Return (-1) d2
                  else scan junk cq0 (Suc i) fds (pollret - 1) d2)"

definition workloop_turn :: "int \<Rightarrow> int \<Rightarrow> int \<Rightarrow> int \<Rightarrow> 16 word list \<Rightarrow> daemon \<Rightarrow> outcome" where
  "workloop_turn junk lib_fd dpdk_fd pollret revents d =
     (let d1 = build_fds lib_fd dpdk_fd d
      in if pollret = -1 then Return (-1) d1
         else if pollret = 0 then Next d1
         else scan junk (cq_fd_start d1) 0 (zip (dm_fds d1) revents) pollret d1)"

text \<open>\<open>main\<close> up to the loop: the daemon's first state, or the exit status.\<close>

definition daemon_main :: "server_calls \<Rightarrow> daemon \<Rightarrow> (int + (int \<times> daemon)) option" where
  "daemon_main c d =
     (if sc_socket c = -1 then Some (Inl (-1))
      else if bind_server c \<noteq> 0 then Some (Inl (-1))
      else Option.bind (wait_for_client_connect d) (\<lambda>(lib_fd, d1).
        if lib_fd = -1 then Some (Inl (-1))
        else Some (Inr (lib_fd, d1\<lparr>ec_fds := [], cq_fds := [], dm_fds := [lib_fd, -1], dm_ret := 0\<rparr>))))"

section \<open>The poll array\<close>

lemma build_fds_array:
  assumes "length (dm_fds d) = cq_fd_start d + length (cq_fds d) \<longrightarrow> dm_fds d = lib_fd # dpdk_fd # ec_fds d @ cq_fds d"
  shows "dm_fds (build_fds lib_fd dpdk_fd d) = lib_fd # dpdk_fd # ec_fds d @ cq_fds d"
proof (cases "length (dm_fds d) = cq_fd_start d + length (cq_fds d)")
  case False
  let ?n = "cq_fd_start d + length (cq_fds d)"
  have "map (poll_fd_at lib_fd dpdk_fd d) [0..<?n] = lib_fd # dpdk_fd # ec_fds d @ cq_fds d"
  proof (rule nth_equalityI)
    fix i assume "i < length (map (poll_fd_at lib_fd dpdk_fd d) [0..<?n])"
    then have i: "i < ?n" by simp
    then have "map (poll_fd_at lib_fd dpdk_fd d) [0..<?n] ! i = poll_fd_at lib_fd dpdk_fd d i"
      by (simp add: nth_map_upt del: upt_Suc)
    also have "\<dots> = (lib_fd # dpdk_fd # ec_fds d @ cq_fds d) ! i"
      using i by (cases i; cases "i - 1")
        (auto simp: poll_fd_at_def nth_append cq_fd_start_def ec_fd_start_def in_range_def)
    finally show "map (poll_fd_at lib_fd dpdk_fd d) [0..<?n] ! i = (lib_fd # dpdk_fd # ec_fds d @ cq_fds d) ! i" .
  qed (simp add: cq_fd_start_def ec_fd_start_def)
  with False show ?thesis by (simp add: build_fds_def Let_def)
qed (use assms in \<open>simp add: build_fds_def Let_def\<close>)

section \<open>The scan\<close>

definition idle :: "int list \<Rightarrow> (int \<times> 16 word) list" where
  "idle fds = map (\<lambda>fd. (fd, 0)) fds"

lemma scan_idle: "0 < p \<Longrightarrow> scan junk cq0 i (idle fds @ rest) p d = scan junk cq0 (i + length fds) rest p d"
  by (induction fds arbitrary: i) (simp_all add: idle_def)

lemma scan_done [simp]: "scan junk cq0 i fds 0 d = Next d"
  by (cases fds) auto

lemma poll_masks [simp]: "POLLIN AND POLLHUP = 0" "POLLIN AND (POLLERR OR POLLNVAL) = 0" "POLLIN AND POLLIN = POLLIN" "POLLIN \<noteq> 0"
  by (simp_all add: POLLIN_def POLLHUP_def POLLERR_def POLLNVAL_def)

lemma scan_ready:
  "0 < p \<Longrightarrow> dispatch junk cq0 i fd d = Some (ret, d1) \<Longrightarrow> \<not> (i = 0 \<and> ret = 0) \<Longrightarrow> ret \<noteq> -1 \<Longrightarrow>
   scan junk cq0 i ((fd, POLLIN) # fds) p d = scan junk cq0 (Suc i) fds (p - 1) (d1\<lparr>dm_ret := ret\<rparr>)"
  by (auto simp: Let_def)

lemma zip_one_ready:
  "k < length fds \<Longrightarrow> zip fds ((replicate (length fds) 0)[k := r]) = idle (take k fds) @ (fds ! k, r) # idle (drop (Suc k) fds)"
proof (induction fds arbitrary: k)
  case (Cons fd fds)
  show ?case
  proof (cases k)
    case 0
    have "zip fds (replicate (length fds) 0) = idle fds" by (simp add: zip_replicate2 idle_def)
    then show ?thesis using 0 by (simp add: idle_def)
  next
    case (Suc j)
    then show ?thesis using Cons.IH [of j] Cons.prems by (simp add: idle_def)
  qed
qed simp

section \<open>An event and its echo\<close>

lemma ec_handle_recv_echo:
  assumes "rx (dm_socks d fd) = [RxData (enc_cm_event e)]" and "length (ev_param e) = 56"
    and "tx_plan (dm_socks d fd) = []"
  shows "ec_handle_recv fd d = (80, set_sock fd ((dm_socks d fd)\<lparr>rx := [RxData []], tx := tx (dm_socks d fd) @ enc_cm_event e\<rparr>) d)"
proof -
  have "sock_recv False sizeof_cm_event (dm_socks d fd) = (80, enc_cm_event e, (dm_socks d fd)\<lparr>rx := [RxData []]\<rparr>)"
    using sock_recv_exact [OF assms(1), of 80 False] assms(2) by (simp add: sizeof_cm_event_def)
  then show ?thesis
    using assms(2,3) cm_event_codec.dec_enc [of e] by (simp add: ec_handle_recv_def sizeof_cm_event_def sock_simps)
qed

lemma one_channel_ready:
  assumes "dm_fds d = lib_fd # dpdk_fd # ec_fds d @ cq_fds d" and "k < length (ec_fds d)"
    and "ec_handle_recv (ec_fds d ! k) d = (ret, d1)" and "ret \<noteq> -1"
  shows "workloop_turn junk lib_fd dpdk_fd 1 ((replicate (length (dm_fds d)) 0)[2 + k := POLLIN]) d = Next (d1\<lparr>dm_ret := ret\<rparr>)"
proof -
  let ?fds = "dm_fds d"
  have b: "build_fds lib_fd dpdk_fd d = d"
    using assms(1) by (simp add: build_fds_def Let_def cq_fd_start_def ec_fd_start_def)
  have k: "2 + k < length ?fds" "?fds ! (2 + k) = ec_fds d ! k" using assms(1,2) by (simp_all add: nth_append)
  have "dispatch junk (cq_fd_start d) (2 + k) (ec_fds d ! k) d = Some (ret, d1)"
    using assms(2,3) by (simp add: dispatch_def in_range_def ec_fd_start_def)
  moreover have "length (take (2 + k) ?fds) = 2 + k" using k(1) by simp
  ultimately have "scan junk (cq_fd_start d) 0 (zip ?fds ((replicate (length ?fds) 0)[2 + k := POLLIN])) 1 d = Next (d1\<lparr>dm_ret := ret\<rparr>)"
    unfolding zip_one_ready [OF k(1)] k(2) using scan_idle [of 1 junk "cq_fd_start d" 0 "take (2 + k) ?fds"]
      scan_ready [of 1 junk "cq_fd_start d" "2 + k"] assms(4) by (simp del: scan.simps)
  then show ?thesis by (simp add: workloop_turn_def b Let_def)
qed

text \<open>
  C27. The way of a connection-management event.  Resolving an address sends an event to the daemon;
  when the daemon's poll reports the channel, one turn of its loop sends the event back; and the
  library's \<open>suiw_get_cm_event\<close> then succeeds with the same event, the identifier included.
\<close>

theorem cm_event_echo:
  assumes "0 \<le> id_channel i" and "tx_plan (lib_socks l (id_channel i)) = []" and "tx (lib_socks l (id_channel i)) = []"
    and "dm_fds d = lib_fd # dpdk_fd # ec_fds d @ cq_fds d" and "k < length (ec_fds d)"
    and "tx_plan (dm_socks d (ec_fds d ! k)) = []" and "tx (dm_socks d (ec_fds d ! k)) = []"
  shows "\<exists>l1 d1. suiw_resolve_addr idp i l = (0, l1)
    \<and> workloop_turn junk lib_fd dpdk_fd 1 ((replicate (length (dm_fds d)) 0)[2 + k := POLLIN])
        (set_sock (ec_fds d ! k) ((dm_socks d (ec_fds d ! k))\<lparr>rx := [RxData (tx (lib_socks l1 (id_channel i)))]\<rparr>) d) = Next d1
    \<and> (\<exists>l2. suiw_get_cm_event raw (id_channel i) (l1\<lparr>lib_socks := (lib_socks l1)(id_channel i :=
          (lib_socks l1 (id_channel i))\<lparr>rx := [RxData (tx (dm_socks d1 (ec_fds d ! k)))]\<rparr>)\<rparr>) =
        (0, cm_event RDMA_CM_EVENT_ADDR_RESOLVED idp, l2))"
proof -
  let ?e = "cm_event RDMA_CM_EVENT_ADDR_RESOLVED idp" and ?fd = "id_channel i" and ?ec = "ec_fds d ! k"
  let ?l1 = "l\<lparr>lib_socks := (lib_socks l)(?fd := (lib_socks l ?fd)\<lparr>tx := enc_cm_event ?e\<rparr>)\<rparr>"
  let ?d = "set_sock ?ec ((dm_socks d ?ec)\<lparr>rx := [RxData (enc_cm_event ?e)]\<rparr>) d"
  have e: "length (ev_param ?e) = 56" by (simp add: cm_event_def)
  have send: "suiw_resolve_addr idp i l = (0, ?l1)"
    using assms(1-3) e by (simp add: suiw_resolve_addr_def lib_send_def sock_simps sizeof_cm_event_def)
  let ?d1 = "set_sock ?ec ((dm_socks ?d ?ec)\<lparr>rx := [RxData []], tx := enc_cm_event ?e\<rparr>) ?d"
  have "ec_handle_recv (ec_fds ?d ! k) ?d = (80, ?d1)"
    using ec_handle_recv_echo [of ?d ?ec ?e] e assms(6,7) by (simp add: set_sock_def)
  then have turn: "workloop_turn junk lib_fd dpdk_fd 1 ((replicate (length (dm_fds d)) 0)[2 + k := POLLIN]) ?d = Next (?d1\<lparr>dm_ret := 80\<rparr>)"
    using one_channel_ready [of ?d lib_fd dpdk_fd k 80 ?d1 junk] assms(4,5) by (simp add: set_sock_def)
  have "dec_cm_event (buf_put (enc_cm_event raw) 0 (enc_cm_event ?e)) = ?e"
    using cm_event_codec.dec_prefix [OF e] e by (simp add: buf_put_def dec_cm_event_def enc_cm_event_def of_le_le_bytes_full)
  then have "\<exists>l2. suiw_get_cm_event raw ?fd (?l1\<lparr>lib_socks := (lib_socks ?l1)(?fd :=
      (lib_socks ?l1 ?fd)\<lparr>rx := [RxData (enc_cm_event ?e)]\<rparr>)\<rparr>) = (0, ?e, l2)"
    using assms(1) e sock_recv_exact [of "(lib_socks ?l1 ?fd)\<lparr>rx := [RxData (enc_cm_event ?e)]\<rparr>" "enc_cm_event ?e" "[]" 80 False]
    by (simp add: suiw_get_cm_event_def lib_recv_def sizeof_cm_event_def)
  with send turn show ?thesis by (simp add: set_sock_def)
qed

text \<open>A library and a daemon with one event channel and one completion queue.\<close>

definition fresh_sock :: sock where "fresh_sock = \<lparr>rx = [], tx = [], tx_plan = [], errno = 0\<rparr>"

definition demo_lib :: suiw_lib where
  "demo_lib = \<lparr>suiw_ibv_device = create_suiw_device, dfd = 3, lib_socks = (\<lambda>_. fresh_sock), lib_open = {3, 4}\<rparr>"

definition demo_id :: rdma_cm_id where
  "demo_id = \<lparr>id_verbs = None, id_channel = 4, id_context = 0, id_ps = 0\<rparr>"

definition demo_daemon :: daemon where
  "demo_daemon = \<lparr>ec_fds = [5], cq_fds = [6], dm_fds = [4, -1, 5, 6], dm_ret = 0, dm_socks = (\<lambda>_. fresh_sock), dm_accepts = [7]\<rparr>"

theorem cm_event_echo_witness:
  "\<exists>l1 d1. suiw_resolve_addr 77 demo_id demo_lib = (0, l1)
    \<and> workloop_turn 0 4 (-1) 1 ((replicate (length (dm_fds demo_daemon)) 0)[2 + 0 := POLLIN])
        (set_sock 5 ((dm_socks demo_daemon 5)\<lparr>rx := [RxData (tx (lib_socks l1 4))]\<rparr>) demo_daemon) = Next d1"
proof -
  have "0 \<le> id_channel demo_id" "tx_plan (lib_socks demo_lib (id_channel demo_id)) = []"
    "tx (lib_socks demo_lib (id_channel demo_id)) = []"
    "dm_fds demo_daemon = 4 # -1 # ec_fds demo_daemon @ cq_fds demo_daemon" "0 < length (ec_fds demo_daemon)"
    "tx_plan (dm_socks demo_daemon (ec_fds demo_daemon ! 0)) = []" "tx (dm_socks demo_daemon (ec_fds demo_daemon ! 0)) = []"
    by (simp_all add: demo_id_def demo_lib_def demo_daemon_def fresh_sock_def)
  from cm_event_echo [OF this, of 77 0] show ?thesis
    by (fastforce simp: demo_id_def demo_daemon_def)
qed

section \<open>Bounds\<close>

definition ready_count :: "16 word list \<Rightarrow> int" where
  "ready_count revents = int (length (filter (\<lambda>r. r \<noteq> 0) revents))"

definition poll_event :: "16 word \<Rightarrow> bool" where
  "poll_event r \<longleftrightarrow> r = 0 \<or> r AND (POLLIN OR POLLHUP OR POLLERR OR POLLNVAL) \<noteq> 0"

lemma poll_event_cases:
  "poll_event r \<Longrightarrow> r = 0 \<or> r AND POLLHUP \<noteq> 0 \<or> r AND (POLLERR OR POLLNVAL) \<noteq> 0 \<or> r AND POLLIN \<noteq> 0"
  by (auto simp: poll_event_def bit.conj_disj_distrib or_eq_0_iff)

lemma ready_count_Cons: "ready_count (r # rs) = (if r = 0 then 0 else 1) + ready_count rs"
  by (simp add: ready_count_def)

lemma scan_bounds:
  "p \<le> ready_count (map snd fds) \<Longrightarrow> \<forall>r \<in> set (map snd fds). poll_event r \<Longrightarrow>
   scan junk cq0 i fds p d \<notin> {OutOfBounds, Asserted}"
proof (induction fds arbitrary: i p d)
  case Nil
  then show ?case by (simp add: ready_count_def)
next
  case (Cons fd fds)
  obtain f r where fd: "fd = (f, r)" by (cases fd)
  have IH: "scan junk cq0 (Suc i) fds p' d' \<notin> {OutOfBounds, Asserted}" if "p' \<le> ready_count (map snd fds)" for p' d'
    using Cons.IH [OF that] Cons.prems(2) by simp
  have "r = 0 \<or> r AND POLLHUP \<noteq> 0 \<or> r AND (POLLERR OR POLLNVAL) \<noteq> 0 \<or> r AND POLLIN \<noteq> 0"
    using Cons.prems(2) fd by (intro poll_event_cases) simp
  moreover have "p - (if r = 0 then 0 else 1) \<le> ready_count (map snd fds)"
    using Cons.prems(1) fd by (simp add: ready_count_Cons split: if_splits)
  ultimately show ?case
    using IH [of p] IH [of "p - 1"] unfolding fd by (cases "r = 0") (simp_all add: Let_def split: option.split prod.split)
qed

text \<open>
  C29. The scan stays inside the poll array.  As long as \<open>poll\<close> returns the number of descriptors for
  which it reports something, and reports only data, hang-ups and errors, a turn of the loop never
  reads behind the array and never fails the assertion, whatever the handlers do to the vectors.
\<close>

theorem workloop_in_bounds:
  assumes "length revents = length (dm_fds (build_fds lib_fd dpdk_fd d))" and "pollret = ready_count revents"
    and "\<forall>r \<in> set revents. poll_event r"
  shows "workloop_turn junk lib_fd dpdk_fd pollret revents d \<notin> {OutOfBounds, Asserted}"
proof -
  have "map snd (zip (dm_fds (build_fds lib_fd dpdk_fd d)) revents) = revents" using assms(1) by simp
  then show ?thesis
    using scan_bounds [of pollret "zip (dm_fds (build_fds lib_fd dpdk_fd d)) revents"] assms(2,3)
    by (simp add: workloop_turn_def Let_def)
qed

theorem workloop_in_bounds_witness:
  "workloop_turn 0 4 (-1) 2 [POLLIN, 0, 0, POLLHUP] demo_daemon \<noteq> OutOfBounds"
  using workloop_in_bounds [of "[POLLIN, 0, 0, POLLHUP]" 4 "-1" demo_daemon 2 0]
  by (simp add: demo_daemon_def build_fds_def cq_fd_start_def ec_fd_start_def ready_count_def poll_event_def
      POLLIN_def POLLHUP_def POLLERR_def POLLNVAL_def)

section \<open>Growing vectors\<close>

lemma lib_handle_recv_create_ec:
  assumes "rx (dm_socks d fd) = [RxData (enc_daemon_msg DAEMON_CREATE_EC)]" and "dm_accepts d = new # rest"
  shows "\<exists>s. lib_handle_recv fd d = Some (4, (set_sock fd s d)\<lparr>dm_accepts := rest, ec_fds := ec_fds d @ [new]\<rparr>)"
  using assms
  by (auto simp: lib_handle_recv_def sock_recv_all_def sizeof_daemon_msg_def enc_daemon_msg_def Let_def of_le_le_bytes_full
      create_event_channel_def wait_for_client_connect_def set_sock_def)

text \<open>
  When an event channel is created in the turn in which a completion queue is ready, the queue is
  handled as an event channel.
\<close>

lemma new_channel_shadows_queue:
  assumes "dm_fds d = lib_fd # dpdk_fd # ec_fds d @ cq_fds d" and "cq_fds d = cq # cqs" and "cq \<noteq> lib_fd"
    and "rx (dm_socks d lib_fd) = [RxData (enc_daemon_msg DAEMON_CREATE_EC)]" and "dm_accepts d = new # rest"
    and "rx (dm_socks d cq) = [RxData (enc_cm_event e)]" and "length (ev_param e) = 56" and "tx_plan (dm_socks d cq) = []"
  shows "\<exists>d1. workloop_turn junk lib_fd dpdk_fd 2 ((replicate (length (dm_fds d)) 0)[0 := POLLIN, 2 + length (ec_fds d) := POLLIN]) d = Next d1
    \<and> rx (dm_socks d1 cq) = [RxData []] \<and> tx (dm_socks d1 cq) = tx (dm_socks d cq) @ enc_cm_event e \<and> cq_fds d1 = cq_fds d"
proof -
  let ?k = "length (ec_fds d)" and ?tl = "dpdk_fd # ec_fds d @ cq_fds d"
  let ?cq0 = "cq_fd_start d"
  have b: "build_fds lib_fd dpdk_fd d = d"
    using assms(1) by (simp add: build_fds_def Let_def cq_fd_start_def ec_fd_start_def)
  obtain s where lib: "lib_handle_recv lib_fd d = Some (4, (set_sock lib_fd s d)\<lparr>dm_accepts := rest, ec_fds := ec_fds d @ [new]\<rparr>)"
    using lib_handle_recv_create_ec [OF assms(4,5)] by blast
  let ?d1 = "(set_sock lib_fd s d)\<lparr>dm_accepts := rest, ec_fds := ec_fds d @ [new], dm_ret := 4\<rparr>"
  let ?d2 = "set_sock cq ((dm_socks ?d1 cq)\<lparr>rx := [RxData []], tx := tx (dm_socks d cq) @ enc_cm_event e\<rparr>) ?d1"
  have cq: "ec_handle_recv cq ?d1 = (80, ?d2)"
    using ec_handle_recv_echo [of ?d1 cq e] assms(3,6-8) by (simp add: set_sock_def)
  have "(replicate (length (dm_fds d)) 0)[0 := POLLIN, 2 + ?k := POLLIN] = POLLIN # (replicate (length ?tl) 0)[Suc ?k := POLLIN]"
    using assms(1) by simp
  then have z: "zip (dm_fds d) ((replicate (length (dm_fds d)) 0)[0 := POLLIN, 2 + ?k := POLLIN]) =
      (lib_fd, POLLIN) # idle (take (Suc ?k) ?tl) @ (cq, POLLIN) # idle (drop (Suc (Suc ?k)) ?tl)"
    using zip_one_ready [of "Suc ?k" ?tl POLLIN] assms(1,2) by (simp add: nth_append)
  have "dispatch junk ?cq0 0 lib_fd d = Some (4, ?d1\<lparr>dm_ret := dm_ret d\<rparr>)" using lib by (simp add: dispatch_def set_sock_def)
  moreover have "dispatch junk ?cq0 (2 + ?k) cq ?d1 = Some (80, ?d2)"
    using cq by (simp add: dispatch_def in_range_def ec_fd_start_def set_sock_def)
  moreover have "length (take (Suc ?k) ?tl) = Suc ?k" using assms(2) by simp
  ultimately have "scan junk ?cq0 0 (zip (dm_fds d) ((replicate (length (dm_fds d)) 0)[0 := POLLIN, 2 + ?k := POLLIN])) 2 d =
      Next (?d2\<lparr>dm_ret := 80\<rparr>)"
    unfolding z using scan_ready [of 2 junk ?cq0 0 lib_fd d 4] scan_idle [of 1 junk ?cq0 1 "take (Suc ?k) ?tl"]
      scan_ready [of 1 junk ?cq0 "2 + ?k" cq ?d1 80 ?d2] by (simp del: scan.simps)
  then show ?thesis by (simp add: workloop_turn_def b Let_def set_sock_def)
qed

definition demo_busy :: daemon where
  "demo_busy = set_sock 4 (fresh_sock\<lparr>rx := [RxData (enc_daemon_msg DAEMON_CREATE_EC)]\<rparr>)
     (set_sock 6 (fresh_sock\<lparr>rx := [RxData (enc_cm_event (cm_event RDMA_CM_EVENT_ESTABLISHED 9))]\<rparr>) demo_daemon)"

end
