(* ===== verification/Interposition.thy ===== *)
theory Interposition
  imports Iwarp_Prelude
begin

text \<open>
  What the two front ends \<open>librdmacm/rdma_cma.cpp\<close> and \<open>libibverbs/verbs.cpp\<close> share: when they are
  loaded they look up the functions of the system's library that they stand in front of.  The
  dynamic linker is a parameter.
\<close>

text \<open>What \<open>dlopen\<close> and \<open>dlsym\<close> return; 0 is a null pointer.\<close>

record linker =
  dl_open :: "string \<Rightarrow> addr"
  dl_sym :: "addr \<Rightarrow> string \<Rightarrow> addr"

text \<open>The static pointers of a front end, by the symbol they stand for; null until they are bound.\<close>

type_synonym real_symbols = "string \<Rightarrow> addr"

text \<open>The assignments of an \<open>init\<close> function; \<open>None\<close> is a call of \<open>abort\<close>.\<close>

fun bind_all :: "(string \<Rightarrow> addr option) \<Rightarrow> string list \<Rightarrow> real_symbols \<Rightarrow> real_symbols option" where
  "bind_all bind [] r = Some r"
| "bind_all bind (name # names) r =
     (case bind name of None \<Rightarrow> None | Some p \<Rightarrow> bind_all bind names (r(name := p)))"

text \<open>A call through a static pointer: \<open>call\<close> runs the function at an address, and a null pointer cannot be called.\<close>

definition call_real :: "real_symbols \<Rightarrow> (addr \<Rightarrow> 'a \<Rightarrow> 'b) \<Rightarrow> string \<Rightarrow> 'a \<Rightarrow> 'b option" where
  "call_real r call name x = (if r name = 0 then None else Some (call (r name) x))"

section \<open>The contract of a front end's lookup\<close>

locale interposer =
  fixes bind :: "linker \<Rightarrow> string \<Rightarrow> addr option" and library :: string
  assumes bind_Some: "bind dl name = Some p \<longleftrightarrow>
    dl_open dl library \<noteq> 0 \<and> p \<noteq> 0 \<and> dl_sym dl (dl_open dl library) name = p"
begin

lemma bind_eq:
  "bind dl name = (if dl_open dl library \<noteq> 0 \<and> dl_sym dl (dl_open dl library) name \<noteq> 0
     then Some (dl_sym dl (dl_open dl library) name) else None)"
proof (cases "bind dl name")
  case None
  then show ?thesis using bind_Some [of dl name "dl_sym dl (dl_open dl library) name"] by simp
next
  case (Some p)
  then show ?thesis using bind_Some [of dl name p] by simp
qed

lemma bind_all_open:
  "dl_open dl library \<noteq> 0 \<Longrightarrow> bind_all (bind dl) names r =
     (if \<forall>s \<in> set names. dl_sym dl (dl_open dl library) s \<noteq> 0
      then Some (\<lambda>s. if s \<in> set names then dl_sym dl (dl_open dl library) s else r s) else None)"
proof (induction names arbitrary: r)
  case (Cons name names)
  show ?case
  proof (cases "dl_sym dl (dl_open dl library) name = 0")
    case True
    then show ?thesis using bind_eq [of dl name] by simp
  next
    case False
    then have "bind_all (bind dl) (name # names) r = bind_all (bind dl) names (r(name := dl_sym dl (dl_open dl library) name))"
      using bind_eq [of dl name] Cons.prems by simp
    then show ?thesis using False Cons.IH [OF Cons.prems] by (auto simp: fun_eq_iff)
  qed
qed simp

lemma bind_all_eq:
  assumes "names \<noteq> []"
  shows "bind_all (bind dl) names r =
    (if dl_open dl library \<noteq> 0 \<and> (\<forall>s \<in> set names. dl_sym dl (dl_open dl library) s \<noteq> 0)
     then Some (\<lambda>s. if s \<in> set names then dl_sym dl (dl_open dl library) s else r s) else None)"
proof (cases "dl_open dl library = 0")
  case True
  obtain name names' where "names = name # names'" using assms by (cases names) auto
  then show ?thesis using True bind_eq [of dl name] by simp
qed (simp add: bind_all_open)

lemma call_bound:
  assumes "bind_all (bind dl) names r = Some r'" and "names \<noteq> []"
  shows "name \<in> set names \<Longrightarrow> call_real r' call name x = Some (call (dl_sym dl (dl_open dl library) name) x)"
    and "name \<notin> set names \<Longrightarrow> r' name = r name"
  using assms unfolding bind_all_eq [OF assms(2)] by (auto simp: call_real_def split: if_splits)

end

end
