(* ===== verification/Rdma_Cm.thy ===== *)
theory Rdma_Cm
  imports Daemon Interposition
begin

text \<open>
  \<open>librdmacm/rdma_cma.cpp\<close>: the connection-manager interface that a program links against.  The
  calls that the stack implements go to the device library; the others report a failure and
  touch nothing.  The messages the calls print are left out.  When the library is loaded it
  binds the functions of the system's own library; \<open>dl\<close> stands for the dynamic linker.
\<close>

section \<open>Loading\<close>

definition real_library :: string where
  "real_library = ''/users/sg99/softiwarp-user-for-linux-rdma/build/lib/librdmacm.so''"

text \<open>\<open>None\<close> is a call of \<open>abort\<close>.\<close>

definition bind_symbol :: "linker \<Rightarrow> string \<Rightarrow> addr option" where
  "bind_symbol dl name =
     (let handle = dl_open dl real_library
      in if handle = 0 then None
         else let ptr = dl_sym dl handle name
              in if ptr = 0 then None else Some ptr)"

definition cm_symbols :: "string list" where
  "cm_symbols = [''rdma_create_event_channel'', ''rdma_destroy_event_channel'', ''rdma_create_id'',
     ''rdma_create_ep'', ''rdma_destroy_ep'', ''rdma_destroy_id'', ''rdma_bind_addr'',
     ''rdma_resolve_addr'', ''rdma_resolve_route'', ''rdma_create_qp'', ''rdma_create_qp_ex'',
     ''rdma_destroy_qp'', ''rdma_connect'', ''rdma_listen'', ''rdma_get_request'', ''rdma_accept'',
     ''rdma_reject'', ''rdma_notify'', ''rdma_disconnect'', ''rdma_join_multicast'',
     ''rdma_leave_multicast'', ''rdma_join_multicast_ex'', ''rdma_get_cm_event'',
     ''rdma_ack_cm_event'', ''rdma_get_src_port'', ''rdma_get_dst_port'', ''rdma_get_devices'',
     ''rdma_free_devices'', ''rdma_event_str'', ''rdma_set_option'', ''rdma_migrate_id'',
     ''rdma_getaddrinfo'', ''rdma_freeaddrinfo'']"

definition init :: "linker \<Rightarrow> real_symbols option" where
  "init dl = bind_all (bind_symbol dl) cm_symbols (\<lambda>_. 0)"

definition rdma_event_str :: "real_symbols \<Rightarrow> (addr \<Rightarrow> u32 \<Rightarrow> string) \<Rightarrow> u32 \<Rightarrow> string option" where
  "rdma_event_str r call event = call_real r call ''rdma_event_str'' event"

section \<open>The calls of the stack\<close>

definition rdma_create_event_channel :: "attempt \<Rightarrow> suiw_lib \<Rightarrow> int \<times> suiw_lib" where
  "rdma_create_event_channel a l = suiw_create_event_channel a l"

definition rdma_destroy_event_channel :: "int \<Rightarrow> suiw_lib \<Rightarrow> suiw_lib" where
  "rdma_destroy_event_channel channel l = suiw_destroy_event_channel channel l"

definition rdma_create_id :: "rdma_cm_id \<Rightarrow> int \<Rightarrow> addr \<Rightarrow> u32 \<Rightarrow> suiw_lib \<Rightarrow> int \<times> rdma_cm_id" where
  "rdma_create_id raw channel ctx ps l = suiw_create_id raw channel ctx ps l"

definition rdma_destroy_id :: "rdma_cm_id \<Rightarrow> int" where
  "rdma_destroy_id i = suiw_destroy_id i"

text \<open>The addresses and the time limit are not looked at.\<close>

definition rdma_resolve_addr ::
    "addr \<Rightarrow> rdma_cm_id \<Rightarrow> addr \<Rightarrow> addr \<Rightarrow> int \<Rightarrow> suiw_lib \<Rightarrow> int \<times> suiw_lib" where
  "rdma_resolve_addr idp i src_addr dst_addr timeout_ms l = suiw_resolve_addr idp i l"

definition rdma_resolve_route :: "addr \<Rightarrow> rdma_cm_id \<Rightarrow> int \<Rightarrow> suiw_lib \<Rightarrow> int \<times> suiw_lib" where
  "rdma_resolve_route idp i timeout_ms l = suiw_resolve_route idp i l"

definition rdma_get_cm_event :: "rdma_cm_event \<Rightarrow> int \<Rightarrow> suiw_lib \<Rightarrow> int \<times> rdma_cm_event \<times> suiw_lib" where
  "rdma_get_cm_event raw channel l = suiw_get_cm_event raw channel l"

definition rdma_ack_cm_event :: "rdma_cm_event \<Rightarrow> int" where
  "rdma_ack_cm_event e = suiw_ack_cm_event e"

section \<open>The calls without an implementation\<close>

text \<open>The two port numbers are 16-bit values, so their failure is the port 65535.\<close>

definition rdma_create_ep :: "addr \<Rightarrow> addr \<Rightarrow> addr \<Rightarrow> addr \<Rightarrow> suiw_lib \<Rightarrow> int \<times> suiw_lib" where
  "rdma_create_ep i res pd qp_init_attr l = (-1, l)"

definition rdma_destroy_ep :: "addr \<Rightarrow> suiw_lib \<Rightarrow> suiw_lib" where
  "rdma_destroy_ep i l = l"

definition rdma_bind_addr :: "addr \<Rightarrow> addr \<Rightarrow> suiw_lib \<Rightarrow> int \<times> suiw_lib" where
  "rdma_bind_addr i addr l = (-1, l)"

definition rdma_create_qp :: "addr \<Rightarrow> addr \<Rightarrow> addr \<Rightarrow> suiw_lib \<Rightarrow> int \<times> suiw_lib" where
  "rdma_create_qp i pd qp_init_attr l = (-1, l)"

definition rdma_create_qp_ex :: "addr \<Rightarrow> addr \<Rightarrow> suiw_lib \<Rightarrow> int \<times> suiw_lib" where
  "rdma_create_qp_ex i qp_init_attr l = (-1, l)"

definition rdma_destroy_qp :: "addr \<Rightarrow> suiw_lib \<Rightarrow> suiw_lib" where
  "rdma_destroy_qp i l = l"

definition rdma_connect :: "addr \<Rightarrow> addr \<Rightarrow> suiw_lib \<Rightarrow> int \<times> suiw_lib" where
  "rdma_connect i conn_param l = (-1, l)"

definition rdma_establish :: "addr \<Rightarrow> suiw_lib \<Rightarrow> int \<times> suiw_lib" where
  "rdma_establish i l = (-1, l)"

definition rdma_listen :: "addr \<Rightarrow> addr \<Rightarrow> suiw_lib \<Rightarrow> int \<times> suiw_lib" where
  "rdma_listen i backlog l = (-1, l)"

definition rdma_get_request :: "addr \<Rightarrow> addr \<Rightarrow> suiw_lib \<Rightarrow> int \<times> suiw_lib" where
  "rdma_get_request lid i l = (-1, l)"

definition rdma_accept :: "addr \<Rightarrow> addr \<Rightarrow> suiw_lib \<Rightarrow> int \<times> suiw_lib" where
  "rdma_accept i conn_param l = (-1, l)"

definition rdma_reject :: "addr \<Rightarrow> addr \<Rightarrow> addr \<Rightarrow> suiw_lib \<Rightarrow> int \<times> suiw_lib" where
  "rdma_reject i private_data private_data_len l = (-1, l)"

definition rdma_reject_ece :: "addr \<Rightarrow> addr \<Rightarrow> addr \<Rightarrow> suiw_lib \<Rightarrow> int \<times> suiw_lib" where
  "rdma_reject_ece i private_data private_data_len l = (-1, l)"

definition rdma_notify :: "addr \<Rightarrow> addr \<Rightarrow> suiw_lib \<Rightarrow> int \<times> suiw_lib" where
  "rdma_notify i event l = (-1, l)"

definition rdma_disconnect :: "addr \<Rightarrow> suiw_lib \<Rightarrow> int \<times> suiw_lib" where
  "rdma_disconnect i l = (-1, l)"

definition rdma_join_multicast :: "addr \<Rightarrow> addr \<Rightarrow> addr \<Rightarrow> suiw_lib \<Rightarrow> int \<times> suiw_lib" where
  "rdma_join_multicast i addr ctx l = (-1, l)"

definition rdma_leave_multicast :: "addr \<Rightarrow> addr \<Rightarrow> suiw_lib \<Rightarrow> int \<times> suiw_lib" where
  "rdma_leave_multicast i addr l = (-1, l)"

definition rdma_join_multicast_ex :: "addr \<Rightarrow> addr \<Rightarrow> addr \<Rightarrow> suiw_lib \<Rightarrow> int \<times> suiw_lib" where
  "rdma_join_multicast_ex i mc_join_attr ctx l = (-1, l)"

definition rdma_get_src_port :: "addr \<Rightarrow> suiw_lib \<Rightarrow> u16 \<times> suiw_lib" where
  "rdma_get_src_port i l = (-1, l)"

definition rdma_get_dst_port :: "addr \<Rightarrow> suiw_lib \<Rightarrow> u16 \<times> suiw_lib" where
  "rdma_get_dst_port i l = (-1, l)"

definition rdma_get_devices :: "addr \<Rightarrow> suiw_lib \<Rightarrow> addr \<times> suiw_lib" where
  "rdma_get_devices num_devices l = (0, l)"

definition rdma_free_devices :: "addr \<Rightarrow> suiw_lib \<Rightarrow> suiw_lib" where
  "rdma_free_devices devs l = l"

definition rdma_set_option :: "addr \<Rightarrow> addr \<Rightarrow> addr \<Rightarrow> addr \<Rightarrow> addr \<Rightarrow> suiw_lib \<Rightarrow> int \<times> suiw_lib" where
  "rdma_set_option i level optname optval optlen l = (-1, l)"

definition rdma_migrate_id :: "addr \<Rightarrow> addr \<Rightarrow> suiw_lib \<Rightarrow> int \<times> suiw_lib" where
  "rdma_migrate_id i channel l = (-1, l)"

definition rdma_getaddrinfo :: "addr \<Rightarrow> addr \<Rightarrow> addr \<Rightarrow> addr \<Rightarrow> suiw_lib \<Rightarrow> int \<times> suiw_lib" where
  "rdma_getaddrinfo node service hints res l = (-1, l)"

definition rdma_freeaddrinfo :: "addr \<Rightarrow> suiw_lib \<Rightarrow> suiw_lib" where
  "rdma_freeaddrinfo res l = l"


interpretation cm_loader: interposer bind_symbol real_library
  by unfold_locales (auto simp: bind_symbol_def Let_def)

section \<open>A client and the daemon on one event channel\<close>

text \<open>
  The client calls \<open>rdma_resolve_addr\<close>, \<open>rdma_resolve_route\<close> and \<open>rdma_get_cm_event\<close>, the daemon
  handles its end of the channel, and TCP carries what has been sent, in chunks that end
  where a send ended.  The histories list the events requested and the events obtained.
\<close>

record cm_world =
  w_lib :: suiw_lib
  w_daemon :: daemon
  requested :: "rdma_cm_event list"
  obtained :: "rdma_cm_event list"

datatype cm_action = ResolveAddr addr | ResolveRoute addr | GetEvent | DaemonTurn | CarryUp | CarryDown

definition set_lib_sock :: "int \<Rightarrow> sock \<Rightarrow> suiw_lib \<Rightarrow> suiw_lib" where
  "set_lib_sock fd s l = l\<lparr>lib_socks := (lib_socks l)(fd := s)\<rparr>"

definition carry :: "sock \<Rightarrow> sock \<Rightarrow> sock \<times> sock" where
  "carry a b = (if tx a = [] then (a, b) else (a\<lparr>tx := []\<rparr>, b\<lparr>rx := rx b @ [RxData (tx a)]\<rparr>))"

fun cm_act :: "rdma_cm_id \<Rightarrow> int \<Rightarrow> rdma_cm_event \<Rightarrow> cm_action \<Rightarrow> cm_world \<Rightarrow> cm_world" where
  "cm_act i ec raw (ResolveAddr idp) w =
     (case rdma_resolve_addr idp i 0 0 0 (w_lib w) of (r, l) \<Rightarrow>
        w\<lparr>w_lib := l, requested := requested w @ (if r = 0 then [cm_event RDMA_CM_EVENT_ADDR_RESOLVED idp] else [])\<rparr>)"
| "cm_act i ec raw (ResolveRoute idp) w =
     (case rdma_resolve_route idp i 0 (w_lib w) of (r, l) \<Rightarrow>
        w\<lparr>w_lib := l, requested := requested w @ (if r = 0 then [cm_event RDMA_CM_EVENT_ROUTE_RESOLVED idp] else [])\<rparr>)"
| "cm_act i ec raw GetEvent w =
     (case rdma_get_cm_event raw (id_channel i) (w_lib w) of (r, e, l) \<Rightarrow>
        w\<lparr>w_lib := l, obtained := obtained w @ (if r = 0 then [e] else [])\<rparr>)"
| "cm_act i ec raw DaemonTurn w = w\<lparr>w_daemon := snd (ec_handle_recv ec (w_daemon w))\<rparr>"
| "cm_act i ec raw CarryUp w =
     (case carry (lib_socks (w_lib w) (id_channel i)) (dm_socks (w_daemon w) ec) of (a, b) \<Rightarrow>
        w\<lparr>w_lib := set_lib_sock (id_channel i) a (w_lib w), w_daemon := set_sock ec b (w_daemon w)\<rparr>)"
| "cm_act i ec raw CarryDown w =
     (case carry (dm_socks (w_daemon w) ec) (lib_socks (w_lib w) (id_channel i)) of (b, a) \<Rightarrow>
        w\<lparr>w_lib := set_lib_sock (id_channel i) a (w_lib w), w_daemon := set_sock ec b (w_daemon w)\<rparr>)"

definition cm_run :: "rdma_cm_id \<Rightarrow> int \<Rightarrow> rdma_cm_event \<Rightarrow> cm_action list \<Rightarrow> cm_world \<Rightarrow> cm_world" where
  "cm_run i ec raw as w = fold (cm_act i ec raw) as w"

definition encs :: "rdma_cm_event list \<Rightarrow> bytes" where
  "encs es = concat (map enc_cm_event es)"

definition wf_events :: "rdma_cm_event list \<Rightarrow> bool" where
  "wf_events es \<longleftrightarrow> (\<forall>e \<in> set es. length (ev_param e) = 56)"

text \<open>The events still to be read from a socket, cut into chunks in any way.\<close>

definition stream :: "sock \<Rightarrow> rdma_cm_event list \<Rightarrow> bool" where
  "stream s es \<longleftrightarrow> (\<exists>ess. rx s = map (\<lambda>x. RxData (encs x)) ess \<and> concat ess = es)"

lemma encs_simps [simp]: "encs [] = []" "encs (e # es) = enc_cm_event e @ encs es" "encs (es @ fs) = encs es @ encs fs"
  by (simp_all add: encs_def)

lemma wf_events_simps [simp]:
  "wf_events []" "wf_events (e # es) \<longleftrightarrow> length (ev_param e) = 56 \<and> wf_events es"
  "wf_events (es @ fs) \<longleftrightarrow> wf_events es \<and> wf_events fs"
  by (auto simp: wf_events_def)

lemma encs_Nil: "encs es = [] \<longleftrightarrow> es = []"
  by (cases es) (auto simp: enc_cm_event_def simp flip: length_0_conv)

lemma stream_recv:
  assumes "stream s (e # es)" and "length (ev_param e) = 56"
  shows "\<exists>s'. sock_recv False 80 s = (80, enc_cm_event e, s') \<and> stream s' es \<and> tx s' = tx s \<and> tx_plan s' = tx_plan s"
proof -
  obtain ess where "rx s = map (\<lambda>x. RxData (encs x)) ess" "concat ess = e # es"
    using assms(1) unfolding stream_def by blast
  then show ?thesis
  proof (induction ess arbitrary: s)
    case (Cons x ess)
    show ?case
    proof (cases x)
      case Nil
      then have "rx (s\<lparr>rx := map (\<lambda>x. RxData (encs x)) ess\<rparr>) = map (\<lambda>x. RxData (encs x)) ess" "concat ess = e # es"
        using Cons.prems by auto
      from Cons.IH [OF this] obtain s' where "sock_recv False 80 (s\<lparr>rx := map (\<lambda>x. RxData (encs x)) ess\<rparr>) = (80, enc_cm_event e, s')"
        "stream s' es" "tx s' = tx s" "tx_plan s' = tx_plan s" by auto
      moreover have "s\<lparr>rx := RxData [] # map (\<lambda>x. RxData (encs x)) ess\<rparr> = s"
        using Nil Cons.prems(1) by (cases s) simp
      then have "sock_recv False 80 s = sock_recv False 80 (s\<lparr>rx := map (\<lambda>x. RxData (encs x)) ess\<rparr>)"
        using sock_recv_skip [where s = s and n = 80 and nb = False and es = "map (\<lambda>x. RxData (encs x)) ess"] by simp
      ultimately show ?thesis by metis
    next
      case (Cons e' y)
      then have e: "e' = e" "y @ concat ess = es" using Cons.prems(2) by auto
      let ?s' = "s\<lparr>rx := RxData (encs y) # map (\<lambda>x. RxData (encs x)) ess\<rparr>"
      have "sock_recv False 80 s = (80, enc_cm_event e, ?s')"
        using sock_recv_exact [of s "encs x" "map (\<lambda>x. RxData (encs x)) ess" 80 False] Cons.prems(1) Cons e(1) assms(2) by simp
      moreover have "stream ?s' es" unfolding stream_def using e(2) by (intro exI [of _ "y # ess"]) simp
      ultimately show ?thesis by auto
    qed
  qed simp
qed

lemma stream_empty:
  assumes "stream s []"
  shows "\<exists>s'. sock_recv False 80 s = (0, [], s') \<and> stream s' [] \<and> tx s' = tx s \<and> tx_plan s' = tx_plan s"
proof -
  have "concat ess = [] \<Longrightarrow> recv_events False 80 (map (\<lambda>x. RxData (encs x)) ess) = (0, [], None, [])"
    for ess :: "rdma_cm_event list list"
    by (induction ess) auto
  then have "recv_events False 80 (rx s) = (0, [], None, [])" using assms unfolding stream_def by auto
  then show ?thesis by (auto simp: sock_recv_def stream_def)
qed

lemma stream_carry:
  assumes "carry a b = (a', b')" and "tx a = encs es" and "stream b fs"
  shows "tx a' = []" and "stream b' (fs @ es)" and "rx a' = rx a" and "tx b' = tx b"
    and "tx_plan a' = tx_plan a" and "tx_plan b' = tx_plan b"
proof -
  obtain ess where ess: "rx b = map (\<lambda>x. RxData (encs x)) ess" "concat ess = fs"
    using assms(3) unfolding stream_def by blast
  have "stream b' (fs @ es)"
  proof (cases "es = []")
    case False
    then have "b' = b\<lparr>rx := rx b @ [RxData (encs es)]\<rparr>" using assms(1,2) encs_Nil by (auto simp: carry_def)
    then show ?thesis unfolding stream_def using ess by (intro exI [of _ "ess @ [es]"]) simp
  qed (use assms in \<open>simp add: carry_def\<close>)
  then show "stream b' (fs @ es)" .
qed (use assms in \<open>auto simp: carry_def split: if_splits\<close>)

text \<open>
  The events on their way: ready at the client, echoed by the daemon, arrived at it, and sent.
\<close>

definition in_flight :: "rdma_cm_event list \<Rightarrow> sock \<Rightarrow> sock \<Rightarrow> bool" where
  "in_flight es a b \<longleftrightarrow> tx_plan a = [] \<and> tx_plan b = [] \<and> wf_events es
     \<and> (\<exists>ready echoed arrived sent. es = ready @ echoed @ arrived @ sent
          \<and> stream a ready \<and> tx b = encs echoed \<and> stream b arrived \<and> tx a = encs sent)"

lemma in_flightI:
  "tx_plan a = [] \<Longrightarrow> tx_plan b = [] \<Longrightarrow> wf_events (ready @ echoed @ arrived @ sent) \<Longrightarrow> stream a ready \<Longrightarrow>
   tx b = encs echoed \<Longrightarrow> stream b arrived \<Longrightarrow> tx a = encs sent \<Longrightarrow> in_flight (ready @ echoed @ arrived @ sent) a b"
  unfolding in_flight_def by blast

lemma in_flightE:
  assumes "in_flight es a b"
  obtains ready echoed arrived sent where "es = ready @ echoed @ arrived @ sent" "tx_plan a = []" "tx_plan b = []"
    "wf_events es" "stream a ready" "tx b = encs echoed" "stream b arrived" "tx a = encs sent"
  using assms unfolding in_flight_def by blast

lemma cm_event_wf [simp]: "length (ev_param (cm_event ty p)) = 56"
  by (simp add: cm_event_def)

lemma stream_cong: "rx s = rx s' \<Longrightarrow> stream s es \<longleftrightarrow> stream s' es"
  by (simp add: stream_def)

lemma in_flight_send:
  assumes "in_flight es a b" and "length (ev_param e) = 56"
  shows "sock_send (enc_cm_event e) a = (80, a\<lparr>tx := tx a @ enc_cm_event e\<rparr>)"
    and "in_flight (es @ [e]) (a\<lparr>tx := tx a @ enc_cm_event e\<rparr>) b"
proof -
  obtain ready echoed arrived sent where h: "es = ready @ echoed @ arrived @ sent" "tx_plan a = []" "tx_plan b = []"
    "wf_events es" "stream a ready" "tx b = encs echoed" "stream b arrived" "tx a = encs sent"
    using assms(1) by (rule in_flightE)
  show "sock_send (enc_cm_event e) a = (80, a\<lparr>tx := tx a @ enc_cm_event e\<rparr>)"
    using h(2) assms(2) by (simp add: sock_simps)
  show "in_flight (es @ [e]) (a\<lparr>tx := tx a @ enc_cm_event e\<rparr>) b"
    using in_flightI [of "a\<lparr>tx := tx a @ enc_cm_event e\<rparr>" b ready echoed arrived "sent @ [e]"] h assms(2)
    by (simp add: stream_def)
qed

lemma in_flight_get:
  assumes "in_flight es a b"
  obtains (none) a' where "sock_recv False 80 a = (0, [], a')" "in_flight es a' b"
  | (some) e fs a' where "es = e # fs" "length (ev_param e) = 56" "sock_recv False 80 a = (80, enc_cm_event e, a')"
      "in_flight fs a' b"
proof -
  obtain ready echoed arrived sent where h: "es = ready @ echoed @ arrived @ sent" "tx_plan a = []" "tx_plan b = []"
    "wf_events es" "stream a ready" "tx b = encs echoed" "stream b arrived" "tx a = encs sent"
    using assms(1) by (rule in_flightE)
  show thesis
  proof (cases ready)
    case Nil
    then obtain s where s: "sock_recv False 80 a = (0, [], s)" "stream s []" "tx s = tx a" "tx_plan s = tx_plan a"
      using stream_empty h(5) by blast
    then show thesis using none [of s] in_flightI [of s b "[]" echoed arrived sent] h Nil by simp
  next
    case (Cons e r)
    then have e: "length (ev_param e) = 56" using h(1,4) by simp
    obtain s where s: "sock_recv False 80 a = (80, enc_cm_event e, s)" "stream s r" "tx s = tx a" "tx_plan s = tx_plan a"
      using stream_recv [OF _ e] h(5) Cons by blast
    then show thesis
      using some [of e "r @ echoed @ arrived @ sent" s] in_flightI [of s b r echoed arrived sent] h Cons e by simp
  qed
qed

text \<open>The daemon's handler moves the first event that has arrived to those it has echoed.\<close>

lemma in_flight_echo:
  assumes "in_flight es a (dm_socks d ec)"
  shows "\<exists>s. snd (ec_handle_recv ec d) = set_sock ec s d \<and> in_flight es a s"
proof -
  let ?b = "dm_socks d ec"
  obtain ready echoed arrived sent where h: "es = ready @ echoed @ arrived @ sent" "tx_plan a = []" "tx_plan ?b = []"
    "wf_events es" "stream a ready" "tx ?b = encs echoed" "stream ?b arrived" "tx a = encs sent"
    using assms(1) by (rule in_flightE)
  show ?thesis
  proof (cases arrived)
    case Nil
    then obtain s where s: "sock_recv False 80 ?b = (0, [], s)" "stream s []" "tx s = tx ?b" "tx_plan s = tx_plan ?b"
      using stream_empty h(7) by blast
    then show ?thesis
      using in_flightI [of a s ready echoed "[]" sent] h Nil
      by (intro exI [of _ s]) (simp add: ec_handle_recv_def sizeof_cm_event_def)
  next
    case (Cons e r)
    then have e: "length (ev_param e) = 56" using h(1,4) by simp
    obtain s where s: "sock_recv False 80 ?b = (80, enc_cm_event e, s)" "stream s r" "tx s = tx ?b" "tx_plan s = tx_plan ?b"
      using stream_recv [OF _ e] h(7) Cons by blast
    let ?s = "s\<lparr>tx := tx s @ enc_cm_event e\<rparr>"
    have "snd (ec_handle_recv ec d) = set_sock ec ?s d"
      using s h(3) e cm_event_codec.dec_enc [OF e] by (simp add: ec_handle_recv_def sizeof_cm_event_def sock_simps)
    moreover have "in_flight es a ?s"
      using in_flightI [of a ?s ready "echoed @ [e]" r sent] h s Cons stream_cong [of ?s s] by simp
    ultimately show ?thesis by blast
  qed
qed

lemma in_flight_carry:
  assumes "in_flight es a b"
  shows "carry a b = (a', b') \<Longrightarrow> in_flight es a' b'" and "carry b a = (b', a') \<Longrightarrow> in_flight es a' b'"
proof -
  obtain ready echoed arrived sent where h: "es = ready @ echoed @ arrived @ sent" "tx_plan a = []" "tx_plan b = []"
    "wf_events es" "stream a ready" "tx b = encs echoed" "stream b arrived" "tx a = encs sent"
    using assms(1) by (rule in_flightE)
  show "in_flight es a' b'" if "carry a b = (a', b')"
    using stream_carry [OF that h(8) h(7)] h in_flightI [of a' b' ready echoed "arrived @ sent" "[]"] stream_cong [of a' a]
    by simp
  show "in_flight es a' b'" if "carry b a = (b', a')"
    using stream_carry [OF that h(6) h(5)] h in_flightI [of a' b' "ready @ echoed" "[]" arrived sent] stream_cong [of b' b]
    by simp
qed

definition cm_inv :: "rdma_cm_id \<Rightarrow> int \<Rightarrow> cm_world \<Rightarrow> bool" where
  "cm_inv i ec w \<longleftrightarrow> (\<exists>es. requested w = obtained w @ es
     \<and> in_flight es (lib_socks (w_lib w) (id_channel i)) (dm_socks (w_daemon w) ec))"

lemma dec_whole_event:
  "length (ev_param e) = 56 \<Longrightarrow> dec_cm_event (buf_put (enc_cm_event raw) 0 (enc_cm_event e)) = e"
  using cm_event_codec.dec_prefix [of e]
  by (simp add: buf_put_def dec_cm_event_def enc_cm_event_def of_le_le_bytes_full)

lemma cm_inv_act:
  assumes "cm_inv i ec w" and "0 \<le> id_channel i"
  shows "cm_inv i ec (cm_act i ec raw act w)"
proof -
  let ?fd = "id_channel i" and ?b = "dm_socks (w_daemon w) ec" and ?l = "w_lib w"
  let ?a = "lib_socks ?l ?fd"
  obtain es where es: "requested w = obtained w @ es" "in_flight es ?a ?b" using assms(1) unfolding cm_inv_def by blast
  show ?thesis
  proof (cases act)
    case (ResolveAddr p)
    note f = in_flight_send [OF es(2), of "cm_event RDMA_CM_EVENT_ADDR_RESOLVED p"]
    show ?thesis using ResolveAddr f es(1) assms(2) unfolding cm_inv_def
      by (simp add: rdma_resolve_addr_def suiw_resolve_addr_def lib_send_def sizeof_cm_event_def)
  next
    case (ResolveRoute p)
    note f = in_flight_send [OF es(2), of "cm_event RDMA_CM_EVENT_ROUTE_RESOLVED p"]
    show ?thesis using ResolveRoute f es(1) assms(2) unfolding cm_inv_def
      by (simp add: rdma_resolve_route_def suiw_resolve_route_def lib_send_def sizeof_cm_event_def)
  next
    case GetEvent
    from es(2) show ?thesis
    proof (cases rule: in_flight_get)
      case (none a')
      then show ?thesis using GetEvent es(1) assms(2) unfolding cm_inv_def
        by (simp add: rdma_get_cm_event_def suiw_get_cm_event_def lib_recv_def sizeof_cm_event_def)
    next
      case (some e fs a')
      then show ?thesis using GetEvent es(1) assms(2) dec_whole_event [of e raw] unfolding cm_inv_def
        by (simp add: rdma_get_cm_event_def suiw_get_cm_event_def lib_recv_def sizeof_cm_event_def)
    qed
  next
    case DaemonTurn
    then show ?thesis using in_flight_echo [OF es(2)] es(1) unfolding cm_inv_def by (auto simp: set_sock_def)
  next
    case CarryUp
    obtain a' b' where c: "carry ?a ?b = (a', b')" by fastforce
    then show ?thesis using CarryUp in_flight_carry(1) [OF es(2) c] es(1) unfolding cm_inv_def
      by (simp add: set_sock_def set_lib_sock_def)
  next
    case CarryDown
    obtain a' b' where c: "carry ?b ?a = (b', a')" by fastforce
    then show ?thesis using CarryDown in_flight_carry(2) [OF es(2) c] es(1) unfolding cm_inv_def
      by (simp add: set_sock_def set_lib_sock_def)
  qed
qed

lemma cm_inv_run: "0 \<le> id_channel i \<Longrightarrow> cm_inv i ec w \<Longrightarrow> cm_inv i ec (cm_run i ec raw as w)"
  unfolding cm_run_def by (induction as arbitrary: w) (simp_all add: cm_inv_act del: cm_act.simps)

lemma in_flight_quiet:
  assumes "in_flight es a b" and "rx a = []" "tx a = []" "rx b = []" "tx b = []"
  shows "es = []"
proof -
  have "stream s es' \<Longrightarrow> rx s = [] \<Longrightarrow> es' = []" for s es' by (auto simp: stream_def)
  then show ?thesis using assms encs_Nil by (elim in_flightE) auto
qed

definition demo_world :: cm_world where
  "demo_world = \<lparr>w_lib = demo_lib, w_daemon = demo_daemon, requested = [], obtained = []\<rparr>"

definition demo_session :: cm_world where
  "demo_session = cm_run demo_id 5 (cm_event RDMA_CM_EVENT_ADDR_ERROR 0)
     [ResolveAddr 77, ResolveRoute 77, CarryUp, DaemonTurn, CarryDown, GetEvent] demo_world"

section \<open>Properties\<close>



text \<open>
  Loading the library either binds all its pointers to the symbols of the system's library or
  stops the program; it stops whenever that library is not at its fixed place or lacks one of
  the symbols.  After loading, \<open>rdma_event_str\<close> never calls a null pointer.
\<close>

lemma init_binds_all:
  "init dl = (if dl_open dl real_library \<noteq> 0 \<and> (\<forall>s \<in> set cm_symbols. dl_sym dl (dl_open dl real_library) s \<noteq> 0)
     then Some (\<lambda>s. if s \<in> set cm_symbols then dl_sym dl (dl_open dl real_library) s else 0) else None)
   \<and> (\<forall>r. init dl = Some r \<longrightarrow> rdma_event_str r call event = Some (call (dl_sym dl (dl_open dl real_library) ''rdma_event_str'') event))"
proof -
  have s: "cm_symbols \<noteq> []" "''rdma_event_str'' \<in> set cm_symbols" by (simp_all add: cm_symbols_def)
  then have "rdma_event_str r call event = Some (call (dl_sym dl (dl_open dl real_library) ''rdma_event_str'') event)"
    if "init dl = Some r" for r
    using cm_loader.call_bound(1) [OF that [unfolded init_def] s(1) s(2)] by (simp add: rdma_event_str_def)
  then show ?thesis using cm_loader.bind_all_eq [OF s(1), of dl "\<lambda>_. 0"] by (simp add: init_def)
qed

end
