(* ===== verification/Verbs.thy ===== *)
theory Verbs
  imports Suiw_Library Interposition
begin

text \<open>
  \<open>libibverbs/verbs.cpp\<close>: the library that applications load in place of the system's \<open>libibverbs\<close>.  It
  adds the device of this stack to the list of devices and answers for it, and hands the calls for
  other devices to the system's library, whose functions are arguments here.
\<close>

section \<open>Devices in memory\<close>

text \<open>
  Allocated devices and allocated arrays of pointers to devices, each array with its final null
  pointer.  What \<open>malloc\<close> returns is an argument of the operations that call it.
\<close>

record heap =
  hp_devs :: "addr \<rightharpoonup> ibv_device"
  hp_lists :: "addr \<rightharpoonup> addr list"

definition suiw_get_ibv_device :: "addr \<Rightarrow> ibv_device \<Rightarrow> heap \<Rightarrow> heap" where
  "suiw_get_ibv_device q dev h = h\<lparr>hp_devs := (hp_devs h)(q \<mapsto> dev)\<rparr>"

text \<open>
  The copying loop, from the devices \<open>ps\<close> to the new ones \<open>qs\<close>; \<open>None\<close> is a read through a pointer that
  is not valid.
\<close>

fun copy_devices :: "addr list \<Rightarrow> addr list \<Rightarrow> heap \<Rightarrow> heap option" where
  "copy_devices (p # ps) (q # qs) h =
     Option.bind (hp_devs h p) (\<lambda>d. copy_devices ps qs (h\<lparr>hp_devs := (hp_devs h)(q \<mapsto> d)\<rparr>))"
| "copy_devices ps qs h = Some h"

text \<open>The freeing loop stops at the null pointer; \<open>None\<close> is an invalid free or a missing null pointer.\<close>

fun free_devices :: "addr list \<Rightarrow> heap \<Rightarrow> heap option" where
  "free_devices [] h = None"
| "free_devices (p # ps) h =
     (if p = 0 then Some h
      else if hp_devs h p = None then None
      else free_devices ps (h\<lparr>hp_devs := (hp_devs h)(p := None)\<rparr>))"

definition ibv_free_device_list :: "addr \<Rightarrow> heap \<Rightarrow> heap option" where
  "ibv_free_device_list lst h =
     Option.bind (hp_lists h lst) (\<lambda>ps. Option.bind (free_devices ps h) (\<lambda>h1.
       Some (h1\<lparr>hp_lists := (hp_lists h1)(lst := None)\<rparr>)))"

text \<open>
  \<open>device_list\<close> and \<open>num\<close> are what the system's \<open>ibv_get_device_list\<close> returned; \<open>result\<close>, \<open>qs\<close> and \<open>q\<close> are
  the allocated addresses, \<open>qs\<close> one for each device.  The result is the new list and the number of
  its devices.
\<close>

definition ibv_get_device_list ::
    "addr \<Rightarrow> addr list \<Rightarrow> addr \<Rightarrow> ibv_device \<Rightarrow> addr \<Rightarrow> nat \<Rightarrow> heap \<Rightarrow> (addr \<times> nat \<times> heap) option" where
  "ibv_get_device_list result qs q suiw device_list num h =
     Option.bind (hp_lists h device_list) (\<lambda>ps.
       if length ps < num then None
       else Option.bind (copy_devices (take num ps) qs h) (\<lambda>h1.
         let h2 = suiw_get_ibv_device q suiw h1;
             h3 = h2\<lparr>hp_lists := (hp_lists h2)(result \<mapsto> qs @ [q, 0])\<rparr>
         in Option.bind (ibv_free_device_list device_list h3) (\<lambda>h4. Some (result, num + 1, h4))))"

section \<open>Dispatch\<close>

text \<open>The functions of the system's library that the front end calls.\<close>

record real_verbs =
  real_get_device_name :: "ibv_device option \<Rightarrow> string"
  real_get_device_guid :: "ibv_device option \<Rightarrow> u64"
  real_open_device :: "ibv_device option \<Rightarrow> ibv_context option"
  real_close_device :: "ibv_context \<Rightarrow> int"
  real_query_device :: "ibv_context \<Rightarrow> int"

definition ibv_get_device_name :: "real_verbs \<Rightarrow> ibv_device option \<Rightarrow> string" where
  "ibv_get_device_name r device =
     (if suiw_is_device_softuiwarp device then dev_dev_name (the device) else real_get_device_name r device)"

definition ibv_get_device_guid :: "real_verbs \<Rightarrow> ibv_device option \<Rightarrow> u64" where
  "ibv_get_device_guid r device =
     (if suiw_is_device_softuiwarp device then suiw_get_device_guid device else real_get_device_guid r device)"

definition ibv_open_device :: "real_verbs \<Rightarrow> ibv_device option \<Rightarrow> ibv_context option" where
  "ibv_open_device r device =
     (if suiw_is_device_softuiwarp device then suiw_open_device device else real_open_device r device)"

definition ibv_close_device :: "real_verbs \<Rightarrow> ibv_context \<Rightarrow> int" where
  "ibv_close_device r context =
     (if suiw_is_device_softuiwarp (Some (ctx_device context)) then suiw_close_device (Some context)
      else real_close_device r context)"

definition ibv_query_device :: "real_verbs \<Rightarrow> ibv_context \<Rightarrow> int" where
  "ibv_query_device r context =
     (if suiw_is_device_softuiwarp (Some (ctx_device context)) then suiw_query_device (Some context)
      else real_query_device r context)"

section \<open>Loading\<close>

definition verbs_library :: string where
  "verbs_library = ''/users/sg99/softiwarp-user-for-linux-rdma/build/lib/libibverbs.so''"

text \<open>\<open>None\<close> is a call of \<open>abort\<close>.\<close>

definition verbs_bind_symbol :: "linker \<Rightarrow> string \<Rightarrow> addr option" where
  "verbs_bind_symbol dl name =
     (let handle = dl_open dl verbs_library
      in if handle = 0 then None
         else let ptr = dl_sym dl handle name
              in if ptr = 0 then None else Some ptr)"

definition verbs_symbols :: "string list" where
  "verbs_symbols = [''ibv_get_device_list'', ''ibv_free_device_list'', ''ibv_get_device_name'',
     ''ibv_get_device_guid'', ''ibv_open_device'', ''ibv_close_device'', ''ibv_get_async_event'',
     ''ibv_ack_async_event'', ''ibv_query_device'', ''ibv_query_port'', ''ibv_query_gid'',
     ''ibv_query_pkey'', ''ibv_alloc_pd'', ''ibv_dealloc_pd'', ''ibv_reg_mr'', ''ibv_rereg_mr'',
     ''ibv_dereg_mr'', ''ibv_create_comp_channel'', ''ibv_create_cq'', ''ibv_resize_cq'',
     ''ibv_destroy_cq'', ''ibv_get_cq_event'', ''ibv_ack_cq_events'', ''ibv_create_srq'',
     ''ibv_modify_srq'', ''ibv_query_srq'', ''ibv_destroy_srq'', ''ibv_create_qp'',
     ''ibv_modify_qp'', ''ibv_query_qp'', ''ibv_destroy_qp'', ''ibv_create_ah'',
     ''ibv_init_ah_from_wc'', ''ibv_create_ah_from_wc'', ''ibv_destroy_ah'', ''ibv_attach_mcast'',
     ''ibv_detach_mcast'', ''ibv_fork_init'', ''ibv_node_type_str'', ''ibv_port_state_str'',
     ''ibv_event_type_str'', ''ibv_resolve_eth_l2_from_gid'']"

definition verbs_init :: "linker \<Rightarrow> real_symbols option" where
  "verbs_init dl = bind_all (verbs_bind_symbol dl) verbs_symbols (\<lambda>_. 0)"

interpretation verbs_loader: interposer verbs_bind_symbol verbs_library
  by unfold_locales (auto simp: verbs_bind_symbol_def Let_def)

text \<open>The names of node types, port states and events come from the system's library.\<close>

definition ibv_node_type_str :: "real_symbols \<Rightarrow> (addr \<Rightarrow> u32 \<Rightarrow> string) \<Rightarrow> u32 \<Rightarrow> string option" where
  "ibv_node_type_str r call node_type = call_real r call ''ibv_node_type_str'' node_type"

definition ibv_port_state_str :: "real_symbols \<Rightarrow> (addr \<Rightarrow> u32 \<Rightarrow> string) \<Rightarrow> u32 \<Rightarrow> string option" where
  "ibv_port_state_str r call port_state = call_real r call ''ibv_port_state_str'' port_state"

definition ibv_event_type_str :: "real_symbols \<Rightarrow> (addr \<Rightarrow> u32 \<Rightarrow> string) \<Rightarrow> u32 \<Rightarrow> string option" where
  "ibv_event_type_str r call event = call_real r call ''ibv_event_type_str'' event"

text \<open>
  After loading, every call of the front end through one of its pointers reaches the function of
  the system's library: the calls for other devices and the three above.  The pointer for
  \<open>ibv_destroy_comp_channel\<close> is declared but stays null.
\<close>

definition called_symbols :: "string list" where
  "called_symbols = [''ibv_get_device_list'', ''ibv_get_device_name'', ''ibv_get_device_guid'', ''ibv_open_device'',
     ''ibv_close_device'', ''ibv_query_device'', ''ibv_node_type_str'', ''ibv_port_state_str'', ''ibv_event_type_str'']"

lemma called_symbols_bound:
  "name \<in> set called_symbols \<Longrightarrow> name \<in> set verbs_symbols"
proof -
  have "list_all (List.member verbs_symbols) called_symbols" by (simp add: called_symbols_def verbs_symbols_def)
  then show "name \<in> set called_symbols \<Longrightarrow> name \<in> set verbs_symbols" by (simp add: list_all_iff)
qed

lemma verbs_symbols_some: "verbs_symbols \<noteq> []"
  by (simp add: verbs_symbols_def)

lemma destroy_comp_channel_unbound: "''ibv_destroy_comp_channel'' \<notin> set verbs_symbols"
  by (simp add: verbs_symbols_def)

lemma verbs_loaded:
  assumes "verbs_init dl = Some r"
  shows "name \<in> set called_symbols \<Longrightarrow> call_real r call name x = Some (call (dl_sym dl (dl_open dl verbs_library) name) x)"
    and "r ''ibv_destroy_comp_channel'' = 0"
proof -
  note b = verbs_loader.call_bound [OF assms [unfolded verbs_init_def] verbs_symbols_some]
  show "name \<in> set called_symbols \<Longrightarrow> call_real r call name x = Some (call (dl_sym dl (dl_open dl verbs_library) name) x)"
    by (rule b(1)) (rule called_symbols_bound)
  show "r ''ibv_destroy_comp_channel'' = 0" by (rule b(2)) (rule destroy_comp_channel_unbound)
qed

section \<open>The calls without an implementation\<close>

text \<open>
  They return -1 or a null pointer and touch nothing, whatever device they are called for: the
  system's function is looked up when the library is loaded, and not called.
\<close>

definition ibv_get_async_event :: "addr \<Rightarrow> addr \<Rightarrow> heap \<Rightarrow> int \<times> heap" where
  "ibv_get_async_event ctx event h = (-1, h)"

definition ibv_ack_async_event :: "addr \<Rightarrow> heap \<Rightarrow> heap" where
  "ibv_ack_async_event event h = h"

definition ibv_query_port :: "addr \<Rightarrow> addr \<Rightarrow> addr \<Rightarrow> heap \<Rightarrow> int \<times> heap" where
  "ibv_query_port ctx port_num port_attr h = (-1, h)"

definition ibv_query_gid :: "addr \<Rightarrow> addr \<Rightarrow> addr \<Rightarrow> addr \<Rightarrow> heap \<Rightarrow> int \<times> heap" where
  "ibv_query_gid ctx port_num index gid h = (-1, h)"

definition ibv_query_pkey :: "addr \<Rightarrow> addr \<Rightarrow> addr \<Rightarrow> addr \<Rightarrow> heap \<Rightarrow> int \<times> heap" where
  "ibv_query_pkey ctx port_num index pkey h = (-1, h)"

definition ibv_alloc_pd :: "addr \<Rightarrow> heap \<Rightarrow> addr \<times> heap" where
  "ibv_alloc_pd ctx h = (0, h)"

definition ibv_dealloc_pd :: "addr \<Rightarrow> heap \<Rightarrow> int \<times> heap" where
  "ibv_dealloc_pd pd h = (-1, h)"

definition ibv_reg_mr :: "addr \<Rightarrow> addr \<Rightarrow> addr \<Rightarrow> addr \<Rightarrow> heap \<Rightarrow> addr \<times> heap" where
  "ibv_reg_mr pd addr len access h = (0, h)"

definition ibv_rereg_mr :: "addr \<Rightarrow> addr \<Rightarrow> addr \<Rightarrow> addr \<Rightarrow> addr \<Rightarrow> addr \<Rightarrow> heap \<Rightarrow> int \<times> heap" where
  "ibv_rereg_mr mr flags pd addr len access h = (-1, h)"

definition ibv_dereg_mr :: "addr \<Rightarrow> heap \<Rightarrow> int \<times> heap" where
  "ibv_dereg_mr mr h = (-1, h)"

definition ibv_create_comp_channel :: "addr \<Rightarrow> heap \<Rightarrow> addr \<times> heap" where
  "ibv_create_comp_channel ctx h = (0, h)"

definition ibv_destroy_comp_channel :: "addr \<Rightarrow> heap \<Rightarrow> int \<times> heap" where
  "ibv_destroy_comp_channel channel h = (-1, h)"

definition ibv_create_cq :: "addr \<Rightarrow> addr \<Rightarrow> addr \<Rightarrow> addr \<Rightarrow> addr \<Rightarrow> heap \<Rightarrow> addr \<times> heap" where
  "ibv_create_cq ctx cqe cq_context channel comp_vector h = (0, h)"

definition ibv_resize_cq :: "addr \<Rightarrow> addr \<Rightarrow> heap \<Rightarrow> int \<times> heap" where
  "ibv_resize_cq cq cqe h = (-1, h)"

definition ibv_destroy_cq :: "addr \<Rightarrow> heap \<Rightarrow> int \<times> heap" where
  "ibv_destroy_cq cq h = (-1, h)"

definition ibv_get_cq_event :: "addr \<Rightarrow> addr \<Rightarrow> addr \<Rightarrow> heap \<Rightarrow> int \<times> heap" where
  "ibv_get_cq_event channel cq cq_context h = (-1, h)"

definition ibv_ack_cq_events :: "addr \<Rightarrow> addr \<Rightarrow> heap \<Rightarrow> heap" where
  "ibv_ack_cq_events cq nevents h = h"

definition ibv_create_srq :: "addr \<Rightarrow> addr \<Rightarrow> heap \<Rightarrow> addr \<times> heap" where
  "ibv_create_srq pd srq_init_attr h = (0, h)"

definition ibv_modify_srq :: "addr \<Rightarrow> addr \<Rightarrow> addr \<Rightarrow> heap \<Rightarrow> int \<times> heap" where
  "ibv_modify_srq srq srq_attr srq_attr_mask h = (-1, h)"

definition ibv_query_srq :: "addr \<Rightarrow> addr \<Rightarrow> heap \<Rightarrow> int \<times> heap" where
  "ibv_query_srq srq srq_attr h = (-1, h)"

definition ibv_destroy_srq :: "addr \<Rightarrow> heap \<Rightarrow> int \<times> heap" where
  "ibv_destroy_srq srq h = (-1, h)"

definition ibv_create_qp :: "addr \<Rightarrow> addr \<Rightarrow> heap \<Rightarrow> addr \<times> heap" where
  "ibv_create_qp pd qp_init_attr h = (0, h)"

definition ibv_modify_qp :: "addr \<Rightarrow> addr \<Rightarrow> addr \<Rightarrow> heap \<Rightarrow> int \<times> heap" where
  "ibv_modify_qp qp attrs attr_mask h = (-1, h)"

definition ibv_query_qp :: "addr \<Rightarrow> addr \<Rightarrow> addr \<Rightarrow> addr \<Rightarrow> heap \<Rightarrow> int \<times> heap" where
  "ibv_query_qp qp attrs attr_mask init_attr h = (-1, h)"

definition ibv_destroy_qp :: "addr \<Rightarrow> heap \<Rightarrow> int \<times> heap" where
  "ibv_destroy_qp qp h = (-1, h)"

definition ibv_create_ah :: "addr \<Rightarrow> addr \<Rightarrow> heap \<Rightarrow> addr \<times> heap" where
  "ibv_create_ah pd attrs h = (0, h)"

definition ibv_init_ah_from_wc :: "addr \<Rightarrow> addr \<Rightarrow> addr \<Rightarrow> addr \<Rightarrow> addr \<Rightarrow> heap \<Rightarrow> int \<times> heap" where
  "ibv_init_ah_from_wc ctx port_num wc grh ah_attr h = (-1, h)"

definition ibv_create_ah_from_wc :: "addr \<Rightarrow> addr \<Rightarrow> addr \<Rightarrow> addr \<Rightarrow> heap \<Rightarrow> addr \<times> heap" where
  "ibv_create_ah_from_wc pd wc grh port_num h = (0, h)"

definition ibv_destroy_ah :: "addr \<Rightarrow> heap \<Rightarrow> int \<times> heap" where
  "ibv_destroy_ah ah h = (-1, h)"

definition ibv_attach_mcast :: "addr \<Rightarrow> addr \<Rightarrow> addr \<Rightarrow> heap \<Rightarrow> int \<times> heap" where
  "ibv_attach_mcast qp gid lid h = (-1, h)"

definition ibv_detach_mcast :: "addr \<Rightarrow> addr \<Rightarrow> addr \<Rightarrow> heap \<Rightarrow> int \<times> heap" where
  "ibv_detach_mcast qp gid lid h = (-1, h)"

definition ibv_fork_init :: "heap \<Rightarrow> int \<times> heap" where
  "ibv_fork_init h = (-1, h)"

definition ibv_resolve_eth_l2_from_gid :: "addr \<Rightarrow> addr \<Rightarrow> addr \<Rightarrow> addr \<Rightarrow> heap \<Rightarrow> int \<times> heap" where
  "ibv_resolve_eth_l2_from_gid ctx attrs eth_mac vid h = (-1, h)"

section \<open>Rates\<close>

datatype ibv_rate =
    IBV_RATE_MAX | IBV_RATE_2_5_GBPS | IBV_RATE_5_GBPS | IBV_RATE_10_GBPS | IBV_RATE_20_GBPS
  | IBV_RATE_30_GBPS | IBV_RATE_40_GBPS | IBV_RATE_60_GBPS | IBV_RATE_80_GBPS | IBV_RATE_120_GBPS
  | IBV_RATE_14_GBPS | IBV_RATE_56_GBPS | IBV_RATE_112_GBPS | IBV_RATE_168_GBPS | IBV_RATE_25_GBPS
  | IBV_RATE_100_GBPS | IBV_RATE_200_GBPS | IBV_RATE_300_GBPS

definition ibv_rate_to_mult :: "ibv_rate \<Rightarrow> int" where
  "ibv_rate_to_mult rate = (case rate of
     IBV_RATE_2_5_GBPS \<Rightarrow> 1 | IBV_RATE_5_GBPS \<Rightarrow> 2 | IBV_RATE_10_GBPS \<Rightarrow> 4 | IBV_RATE_20_GBPS \<Rightarrow> 8
   | IBV_RATE_30_GBPS \<Rightarrow> 12 | IBV_RATE_40_GBPS \<Rightarrow> 16 | IBV_RATE_60_GBPS \<Rightarrow> 24 | IBV_RATE_80_GBPS \<Rightarrow> 32
   | IBV_RATE_120_GBPS \<Rightarrow> 48 | _ \<Rightarrow> -1)"

definition mult_to_ibv_rate :: "int \<Rightarrow> ibv_rate" where
  "mult_to_ibv_rate mlt =
     (if mlt = 1 then IBV_RATE_2_5_GBPS else if mlt = 2 then IBV_RATE_5_GBPS
      else if mlt = 4 then IBV_RATE_10_GBPS else if mlt = 8 then IBV_RATE_20_GBPS
      else if mlt = 12 then IBV_RATE_30_GBPS else if mlt = 16 then IBV_RATE_40_GBPS
      else if mlt = 24 then IBV_RATE_60_GBPS else if mlt = 32 then IBV_RATE_80_GBPS
      else if mlt = 48 then IBV_RATE_120_GBPS else IBV_RATE_MAX)"

definition ibv_rate_to_mbps :: "ibv_rate \<Rightarrow> int" where
  "ibv_rate_to_mbps rate = (case rate of
     IBV_RATE_2_5_GBPS \<Rightarrow> 2500 | IBV_RATE_5_GBPS \<Rightarrow> 5000 | IBV_RATE_10_GBPS \<Rightarrow> 10000 | IBV_RATE_20_GBPS \<Rightarrow> 20000
   | IBV_RATE_30_GBPS \<Rightarrow> 30000 | IBV_RATE_40_GBPS \<Rightarrow> 40000 | IBV_RATE_60_GBPS \<Rightarrow> 60000 | IBV_RATE_80_GBPS \<Rightarrow> 80000
   | IBV_RATE_120_GBPS \<Rightarrow> 120000 | IBV_RATE_14_GBPS \<Rightarrow> 14062 | IBV_RATE_56_GBPS \<Rightarrow> 56250 | IBV_RATE_112_GBPS \<Rightarrow> 112500
   | IBV_RATE_168_GBPS \<Rightarrow> 168750 | IBV_RATE_25_GBPS \<Rightarrow> 25781 | IBV_RATE_100_GBPS \<Rightarrow> 103125 | IBV_RATE_200_GBPS \<Rightarrow> 206250
   | IBV_RATE_300_GBPS \<Rightarrow> 309375 | IBV_RATE_MAX \<Rightarrow> -1)"

definition mbps_to_ibv_rate :: "int \<Rightarrow> ibv_rate" where
  "mbps_to_ibv_rate mbps =
     (if mbps = 2500 then IBV_RATE_2_5_GBPS else if mbps = 5000 then IBV_RATE_5_GBPS
      else if mbps = 10000 then IBV_RATE_10_GBPS else if mbps = 20000 then IBV_RATE_20_GBPS
      else if mbps = 30000 then IBV_RATE_30_GBPS else if mbps = 40000 then IBV_RATE_40_GBPS
      else if mbps = 60000 then IBV_RATE_60_GBPS else if mbps = 80000 then IBV_RATE_80_GBPS
      else if mbps = 120000 then IBV_RATE_120_GBPS else if mbps = 14062 then IBV_RATE_14_GBPS
      else if mbps = 56250 then IBV_RATE_56_GBPS else if mbps = 112500 then IBV_RATE_112_GBPS
      else if mbps = 168750 then IBV_RATE_168_GBPS else if mbps = 25781 then IBV_RATE_25_GBPS
      else if mbps = 103125 then IBV_RATE_100_GBPS else if mbps = 206250 then IBV_RATE_200_GBPS
      else if mbps = 309375 then IBV_RATE_300_GBPS else IBV_RATE_MAX)"

text \<open>
  Every rate is found again from its value in Mbit/s.  The multiple of 2.5 Gbit/s identifies a rate
  only where it is defined, and then the two conversions agree.
\<close>

lemma rate_conversions:
  "mbps_to_ibv_rate (ibv_rate_to_mbps rate) = rate"
  "mult_to_ibv_rate (ibv_rate_to_mult rate) = (if ibv_rate_to_mult rate = -1 then IBV_RATE_MAX else rate)"
  "ibv_rate_to_mult rate \<noteq> -1 \<Longrightarrow> ibv_rate_to_mbps rate = 2500 * ibv_rate_to_mult rate"
  by (cases rate; simp add: ibv_rate_to_mbps_def mbps_to_ibv_rate_def ibv_rate_to_mult_def mult_to_ibv_rate_def)+

section \<open>The list of devices\<close>

lemma copy_devices_all:
  assumes "set ps \<subseteq> dom (hp_devs h)" and "length qs = length ps" and "set qs \<inter> dom (hp_devs h) = {}"
  shows "copy_devices ps qs h = Some (h\<lparr>hp_devs := (hp_devs h)(qs [\<mapsto>] map (\<lambda>p. the (hp_devs h p)) ps)\<rparr>)"
proof -
  have "copy_devices ps qs (h\<lparr>hp_devs := m\<rparr>) = Some (h\<lparr>hp_devs := m(qs [\<mapsto>] map (\<lambda>p. the (hp_devs h p)) ps)\<rparr>)"
    if "\<forall>p \<in> dom (hp_devs h). m p = hp_devs h p" for m
    using assms that
  proof (induction ps arbitrary: qs m)
    case (Cons p ps)
    obtain q qs' where q: "qs = q # qs'" using Cons.prems(2) by (cases qs) auto
    obtain d where d: "hp_devs h p = Some d" "m p = Some d" using Cons.prems(1,4) by auto
    have "\<forall>p \<in> dom (hp_devs h). (m(q \<mapsto> d)) p = hp_devs h p" using Cons.prems(3,4) q by auto
    then have "copy_devices ps qs' (h\<lparr>hp_devs := m(q \<mapsto> d)\<rparr>) =
        Some (h\<lparr>hp_devs := m(q \<mapsto> d, qs' [\<mapsto>] map (\<lambda>p. the (hp_devs h p)) ps)\<rparr>)"
      using Cons.prems q by (intro Cons.IH) auto
    then show ?case using q d by simp
  qed simp
  from this [of "hp_devs h"] show ?thesis by simp
qed

lemma free_devices_all:
  "distinct ps \<Longrightarrow> 0 \<notin> set ps \<Longrightarrow> set ps \<subseteq> dom (hp_devs h) \<Longrightarrow>
   free_devices (ps @ [0]) h = Some (h\<lparr>hp_devs := hp_devs h |` (- set ps)\<rparr>)"
proof (induction ps arbitrary: h)
  case (Cons p ps)
  let ?h = "h\<lparr>hp_devs := (hp_devs h)(p := None)\<rparr>"
  have "free_devices (ps @ [0]) ?h = Some (?h\<lparr>hp_devs := hp_devs ?h |` (- set ps)\<rparr>)"
    using Cons by (intro Cons.IH) auto
  moreover have "hp_devs ?h |` (- set ps) = hp_devs h |` (- set (p # ps))"
    by (auto simp: restrict_map_def fun_eq_iff)
  ultimately show ?case using Cons.prems by auto
qed (simp add: restrict_map_def)

lemma map_upds_nth: "distinct xs \<Longrightarrow> i < length xs \<Longrightarrow> length ys = length xs \<Longrightarrow> (m(xs [\<mapsto>] ys)) (xs ! i) = Some (ys ! i)"
proof (induction xs arbitrary: i ys m)
  case (Cons x xs)
  then obtain z zs where ys: "ys = z # zs" by (cases ys) auto
  show ?case using Cons ys nth_mem [of "i - 1" xs] by (cases i) auto
qed simp

lemma map_upds_list:
  assumes "distinct (xs @ [x])" and "length ys = length xs" and "set (xs @ [x]) \<inter> A = {}"
  shows "map (m(xs [\<mapsto>] ys, x \<mapsto> y) |` (- A)) (xs @ [x]) = map Some ys @ [Some y]"
proof -
  have "map (m(xs [\<mapsto>] ys)) xs = map Some ys" using assms(1,2) by (intro nth_equalityI) (simp_all add: map_upds_nth)
  moreover have "map (m(xs [\<mapsto>] ys, x \<mapsto> y) |` (- A)) xs = map (m(xs [\<mapsto>] ys)) xs"
    using assms(1,3) by (intro map_cong) (auto simp: restrict_map_def)
  ultimately show ?thesis using assms(3) by simp
qed

lemma restrict_added:
  assumes "set (xs @ [x]) \<inter> dom m = {}"
  shows "m(xs [\<mapsto>] ys, x \<mapsto> y) |` (- A) |` (- set (xs @ [x])) = m |` (- A)"
proof
  fix a
  have "m a = None" if "a \<in> set (xs @ [x])" using assms that by (metis disjoint_iff domIff)
  then show "(m(xs [\<mapsto>] ys, x \<mapsto> y) |` (- A) |` (- set (xs @ [x]))) a = (m |` (- A)) a"
    by (cases "a \<in> set (xs @ [x])") (auto simp: restrict_map_def)
qed



end
