(* ===== verification/Spec2Isabelle.thy ===== *)
theory Spec2Isabelle
  imports Ping_Client Producer_Hash Dequeue_Interleaving Free_List Block_Sharing Rdma_Cm Verbs
begin

text \<open>
  SoftUiWARP is a software implementation of iWARP (RDMA over TCP) in user space.  This
  development models its protocol stack, the queues the stack is built on, and the programs that
  use it.

  \<^bold>\<open>The program and its theories.\<close>

  \<^item> \<open>Iwarp_Prelude\<close>: bytes, integer widths, the flat memory, little-endian layouts, scatter/gather
    elements and the locales \<open>fixed_codec\<close> of fixed-size record layouts and \<open>simulation\<close> of a
    program that may fail by one that does not.
  \<^item> \<open>Wire_Format\<close> (\<open>common/common.h\<close>): byte-order macros, bit fields, header structures, opcodes
    and error codes, at their widths and in their packed layouts.
  \<^item> \<open>Kernel_Socket\<close>: what \<open>recv\<close>, \<open>send\<close> and \<open>sendmsg\<close> of the operating system may do.  A socket
    holds the bytes still to be delivered as a list of chunks with interruptions, the bytes
    written so far, and a plan of failing sends; nothing of it maps to a source file.
  \<^item> \<open>Mpa\<close> (\<open>suiw/mpa/mpa.cpp\<close>): connection set-up with private data, framing with length, padding
    and CRC field, the receive loop over a byte stream.
  \<^item> \<open>Concurrent_Queue\<close> (\<open>common/concurrentqueue.h\<close>): the implicit producers of the lock-free queue
    at the level of their 64-bit head and tail indices and cells, enqueue, dequeue, their bulk
    forms and the choice of the producer a consumer takes from.
  \<^item> \<open>Producer_Hash\<close> (same file): the chain of linear-probing hash tables that finds the producer of a
    thread, and the refinement of the owner search by it.
  \<^item> \<open>Dequeue_Interleaving\<close> (same file): enqueue and dequeue of a producer as sequences of atomic
    accesses; one thread enqueues, any number dequeue, and a schedule interleaves them.
  \<^item> \<open>Free_List\<close> (same file): the lock-free list through which blocks are reused, with its reference
    counts, as sequences of atomic accesses of any number of threads.
  \<^item> \<open>Block_Queue\<close>, \<open>Block_Bulk\<close>, \<open>Block_Destroy\<close>, \<open>Block_Sharing\<close> (same file): the blocks that hold the cells,
    the pools they come from, the circular index that finds them, enqueue, dequeue and bulk dequeue
    through them, allocations that fail included; the destructors; and any number of producers
    that share a pool.
  \<^item> \<open>Ddp\<close> (\<open>suiw/ddp\<close>): the stream context, tagged and untagged send and receive, posting and
    registering buffers.
  \<^item> \<open>Completion_Queue\<close> (\<open>common/cq.h\<close>, \<open>cq.cpp\<close>): completions, work requests, completion and work
    queues.
  \<^item> \<open>Rdmap\<close> (\<open>suiw/rdmap\<close>): the stream with its two threads.  One turn of each thread's loop is a
    function on the record \<open>rnic\<close>; the application's operations, the disconnection and the teardown
    are others, and \<open>rnic_step\<close> interleaves them all.  \<open>Rdmap_Protocol\<close> connects the output of
    one node to the input of another and follows writes, sends and reads across.
  \<^item> \<open>Perf_Setup\<close>, \<open>Perftest\<close> (\<open>perftest/\<close>): the command line, connection and exchange of buffer
    descriptions of the benchmarks, their driver and the four tests.
  \<^item> \<open>Ping_Client\<close> (\<open>fake_ping_client.cpp\<close>): a client of the ping server, its two threads and the
    stream as a labelled step relation.
  \<^item> \<open>Suiw_Library\<close>, \<open>Daemon\<close> (\<open>libsuiw/\<close>): the library that presents the stack as an RDMA device and the
    daemon it talks to; one turn of the daemon's poll loop is a function of what \<open>poll\<close> reported.
  \<^item> \<open>Interposition\<close>: how the two front ends look up the functions of the system's libraries when they
    are loaded; the locale \<open>interposer\<close> is interpreted on both.
  \<^item> \<open>Rdma_Cm\<close> (\<open>librdmacm/rdma_cma.cpp\<close>): the connection-manager interface over the device library,
    and a client and the daemon on one event channel.
  \<^item> \<open>Verbs\<close> (\<open>libibverbs/verbs.cpp\<close>): the list of devices over an explicit heap, the dispatch between
    this stack and the system's library, the calls without an implementation, and the rate
    conversions.

  \<^bold>\<open>How they fit together.\<close>  A work request goes into the send queue (\<open>rdmap_send\<close>); the send thread
  takes it, builds RDMAP and DDP headers, cuts the gathered bytes into segments and gives each to
  \<open>mpa_send\<close>, which frames it.  The receive thread of the peer reads frames with \<open>mpa_recv\<close>,
  places payloads in memory (tagged by steering tag and offset, untagged in posted buffers) and
  pushes completions on the completion queue that the application polls.  All queues are
  instances of the concurrent queue, and every component that uses one relies on the contracts
  \<open>bag_queue\<close> and \<open>fifo_queue\<close>, which are interpreted on the model of its code.  Below that model,
  the blocks refine the cells it works on, the hash tables refine its search for a producer, and
  the interleaved steps of its operations keep its invariant and compose to it.

  \<^bold>\<open>What the lemmas show.\<close>  End-to-end delivery of writes, sends and reads over two nodes, built from
  delivery of a DDP message, built from the round trip of the framing; independence of how TCP
  cuts the stream; conservation and order of the queue; invariants of the DDP context and of the
  interleaved threads; refinement of the producer search by the hash tables and of the cells by
  the blocks, and that destroying the queue releases every block once; safety of every interleaving of dequeues and of the free list; the correspondence
  between requests and completions; the order of connection-management events; ends of threads
  and of benchmark rounds; and, where the code does not do what its comments or its callers expect,
  theorems that say what it does instead (wrapped lengths, swapped offsets, a receive loop that
  does not end, shared elements, a use after free).  This theory holds the properties of whole
  frames against the header structures of \<open>common.h\<close>.

  \<^bold>\<open>Fuel and bounds.\<close>  The receive loop of MPA and the loops of DDP above it are partial functions
  into \<open>option\<close>: \<open>None\<close> is a call that does not return, and the theorems about delivery prove
  \<open>Some\<close>.  The waiting loops of the benchmarks count the turns the other threads take, and their
  theorems give a number of turns that is enough.  Lengths and offsets are kept at 16, 32 and 64
  bits where the code has them.  A segment carries at most \<open>MULPDU\<close> = 65014 bytes, as the source has
  it.  The 63-bit capacity of the queue appears as a hypothesis on the number of elements.
  Schedules of interleaved dequeues have fewer than \<open>2 ^ 62\<close> steps and the free list fewer than \<open>2 ^ 30\<close>
  threads, so that no counter wraps around; a run of the blocks needs no such bound.

  \<^bold>\<open>Not modelled.\<close>
  \<^item> Aliasing between the application's memory and the stack's own structures, and failing
    allocations outside the queue: the model keeps control structures in records, apart from the
    byte memory.
  \<^item> Weak memory: accesses to shared memory are sequentially consistent, and a turn of a thread of
    the stack is atomic.  Of the queue, the explicit producers, the tokens and, at the level of
    blocks, the bulk enqueue, none of which the program uses, and concurrent growth of the hash
    tables.
  \<^item> The build variants \<open>RPING\<close> and \<open>USE_TAS\<close>, tracing, printing (\<open>printer.cpp\<close>, \<open>lwlog.h\<close>) and the
    floating-point summaries of the benchmarks.
  \<^item> \<open>verbs.h\<close> beyond the types the front end uses: it is the interface of the system's library.
    \<open>evaluation.py\<close>: a plotting script.
\<close>

section \<open>Frames and header structures\<close>

text \<open>The control word at the start of a segment: the DDP control byte, then the RDMAP control byte.\<close>

definition seg_ctrl :: "u8 \<Rightarrow> u8 \<Rightarrow> nat \<Rightarrow> iwarp_ctrl" where
  "seg_ctrl b rv n = \<lparr>mpa_len = htons (of_nat n), ddp_rdmap_ctrl = of_le [b, rv]\<rparr>"

lemma enc_seg_ctrl: "enc_iwarp_ctrl (seg_ctrl b rv n) = le_bytes 2 (htons (of_nat n)) @ [b, rv]"
  using le_bytes_of_le [of "[b, rv]", where 'a = 16]
  by (simp add: enc_iwarp_ctrl_def seg_ctrl_def numeral_2_eq_2)

lemma seg_frame_tagged_header:
  "take 16 (seg_frame (b, enc_tagged h, pl) @ d) =
     enc_ctrl_tagged \<lparr>t_hdr_ctrl = seg_ctrl b (tm_rsvdULP1 h) (14 + length pl), t_ddp_stag = tm_tag h, t_ddp_to = tm_TO h\<rparr>"
  by (simp add: seg_frame_def mpa_frame_eq mpa_ulpdu_len_concat enc_ctrl_tagged_def enc_seg_ctrl enc_tagged_def)

text \<open>What the field readers of \<open>common.h\<close> see in it.\<close>

lemma be16_of_two: "cpu_to_be16 (of_le [b, rv]) = push_bit 8 (ucast b) OR ucast rv"
  by (rule bit_word_eqI) (auto simp: bit_cpu_to_be16 bit_simps)

lemma seg_ctrl_fields:
  "ddp_version (seg_ctrl b rv n) = b AND 3"
  "rdmap_version (seg_ctrl b rv n) = drop_bit 6 rv"
  "rdma_opcode_get (seg_ctrl b rv n) = rv AND 15"
  by (simp_all add: seg_ctrl_def ctrl_field_defs bswap_simps be16_of_two u8_eq_iff bit_simps del: of_le.simps)

lemma ddp_flags_exp: "DDP_FLAG_TAGGED = 2 ^ 7" "DDP_FLAG_LAST = 2 ^ 6"
proof -
  have "cpu_to_be16 (of_le [0x80, 0]) = 0x8000" "cpu_to_be16 (of_le [0x40, 0]) = 0x4000"
    by (simp_all only: be16_of_two) simp_all
  then have "cpu_to_be16 0x8000 = of_le [0x80, 0]" "cpu_to_be16 0x4000 = of_le [0x40, 0]"
    by (metis cpu_to_be16_involution)+
  then show "DDP_FLAG_TAGGED = 2 ^ 7" "DDP_FLAG_LAST = 2 ^ 6"
    by (simp_all add: DDP_FLAG_TAGGED_def DDP_FLAG_LAST_def)
qed

lemma seg_ctrl_flags:
  "ddp_rdmap_ctrl (seg_ctrl b rv n) AND DDP_FLAG_TAGGED \<noteq> 0 \<longleftrightarrow> bit b 7"
  "ddp_rdmap_ctrl (seg_ctrl b rv n) AND DDP_FLAG_LAST \<noteq> 0 \<longleftrightarrow> bit b 6"
  unfolding ddp_flags_exp and_exp_eq_0_iff_not_bit by (simp_all add: seg_ctrl_def bit_simps)

lemma rdma_hdr_fields: "drop_bit 6 (rdma_hdr req) = RDMAP_VERSION" "rdma_hdr req AND 15 = opcode_val (swr_opcode req)"
  by (cases "swr_opcode req"; simp add: rdma_hdr_def RDMAP_VERSION_def)+

text \<open>
  C39. Tagged frames follow the header structures.  The first sixteen bytes a write request puts on
  the wire are an \<open>iwarp_ctrl_tagged\<close> in network order: the steering tag and the offset of the
  request behind a control word in which the readers of \<open>common.h\<close> find version 1 of DDP and of
  RDMAP, the opcode of the request and the tagged flag, and the last flag exactly when the message
  has one segment.
\<close>

theorem write_frame_header:
  assumes "rd_ddp w = Some c" and "tx_plan (ddp_sockfd c) = []" and "tx (ddp_sockfd c) = []"
    and "sges_ok (sg_array w (swr_sg_list req) (swr_num_sge req))"
  shows "\<exists>ctrl. take 16 (sent (send_write req w)) =
      enc_ctrl_tagged \<lparr>t_hdr_ctrl = ctrl, t_ddp_stag = htonl (swr_rkey req), t_ddp_to = htonll (swr_remote_addr req)\<rparr>
    \<and> ddp_version ctrl = DDP_VERSION \<and> rdmap_version ctrl = RDMAP_VERSION
    \<and> rdma_opcode_get ctrl = opcode_val (swr_opcode req)
    \<and> ddp_rdmap_ctrl ctrl AND DDP_FLAG_TAGGED \<noteq> 0
    \<and> (ddp_rdmap_ctrl ctrl AND DDP_FLAG_LAST \<noteq> 0 \<longleftrightarrow>
         length (payloads (rd_mem w) (sg_array w (swr_sg_list req) (swr_num_sge req))) = 1)
    \<and> ntohs (mpa_len ctrl) = of_nat (14 + length (hd (payloads (rd_mem w) (sg_array w (swr_sg_list req) (swr_num_sge req)))))"
proof -
  let ?pls = "payloads (rd_mem w) (sg_array w (swr_sg_list req) (swr_num_sge req))"
  obtain pl pls where pls: "?pls = pl # pls" using payloads_nonempty [OF assms(4)] by (cases ?pls) auto
  let ?b = "if pls = [] then 0xC1 else 0x81 :: u8"
  have "sent (send_write req w) = seg_stream (tagged_segs True (rdma_hdr req) (htonl (swr_rkey req)) (swr_remote_addr req) ?pls)"
    using send_tagged_wire [OF assms] assms(1)
    by (simp add: send_write_def with_ddp_def sent_def complete_send_fields)
  then have "take 16 (sent (send_write req w)) =
      enc_ctrl_tagged \<lparr>t_hdr_ctrl = seg_ctrl ?b (rdma_hdr req) (14 + length pl), t_ddp_stag = htonl (swr_rkey req),
        t_ddp_to = htonll (swr_remote_addr req)\<rparr>"
    by (simp add: pls seg_stream_Cons seg_frame_tagged_header del: take_append)
  moreover have "?b AND 3 = DDP_VERSION" "bit ?b 7" "bit ?b 6 \<longleftrightarrow> pls = []" by (simp_all add: DDP_VERSION_def)
  moreover have "ntohs (mpa_len (seg_ctrl ?b (rdma_hdr req) (14 + length pl))) = of_nat (14 + length pl)"
    by (simp add: seg_ctrl_def)
  ultimately show ?thesis
    unfolding pls
    by (intro exI [of _ "seg_ctrl ?b (rdma_hdr req) (14 + length pl)"])
      (simp add: seg_ctrl_fields seg_ctrl_flags rdma_hdr_fields)
qed

theorem write_frame_header_witness:
  "\<exists>ctrl. take 16 (sent (send_write (demo_req RDMAP_RDMA_WRITE) (demo_node [] []))) =
     enc_ctrl_tagged \<lparr>t_hdr_ctrl = ctrl, t_ddp_stag = htonl 100, t_ddp_to = htonll 104\<rparr>"
proof -
  obtain c where c: "rd_ddp (demo_node [] []) = Some c" "tx_plan (ddp_sockfd c) = []" "tx (ddp_sockfd c) = []"
    by (rule demo_node_ddp)
  from write_frame_header [OF this, of "demo_req RDMAP_RDMA_WRITE"] show ?thesis
    by (auto simp: demo_node_sges)
qed

text \<open>
  Read requests do not follow them.  The header of a read request is in network order, but the
  five fields behind it are in the byte order of the host, where \<open>iwarp_rdma_rreq\<close> declares them
  in network order.
\<close>

lemma read_req_frame_host_order:
  assumes "rd_ddp w = Some c" and "tx_plan (ddp_sockfd c) = []" and "tx (ddp_sockfd c) = []" and "swr_num_sge req = 1"
    and "rd_sges w (swr_sg_list req) = g"
  shows "\<exists>ctrl. take 48 (sent (send_read_req req w)) =
      enc_rdma_rreq \<lparr>rq_ctrl = ctrl, rq_rsvd = send_junk w, rq_ddp_qn = htonl 1, rq_ddp_msn = htonl (msn_read w), rq_ddp_mo = 0,
        rq_sink_stag = sge_lkey g, rq_sink_to = sge_addr g, rq_read_size = sge_length g,
        rq_source_stag = swr_rkey req, rq_source_to = swr_remote_addr req\<rparr>
    \<and> ddp_version ctrl = DDP_VERSION \<and> rdmap_version ctrl = RDMAP_VERSION
    \<and> rdma_opcode_get ctrl = opcode_val (swr_opcode req)
    \<and> ddp_rdmap_ctrl ctrl AND DDP_FLAG_TAGGED = 0 \<and> ddp_rdmap_ctrl ctrl AND DDP_FLAG_LAST \<noteq> 0"
proof -
  obtain wce where "send_read_req req w = pending_push (send_tid w) wce (w\<lparr>msn_read := msn_read w + 1,
      rd_mem := mem_write (rd_mem w) (send_fields w) (enc_read_req (read_req_of req (rd_sges w (swr_sg_list req)))),
      rd_ddp := Some (c\<lparr>ddp_sockfd := (ddp_sockfd c)\<lparr>tx := read_req_stream req w\<rparr>\<rparr>), send_wce := wce\<rparr>)"
    by (rule send_read_req_wire [OF assms(1-4)])
  then have "sent (send_read_req req w) = read_req_stream req w"
    by (simp add: sent_def pending_push_def)
  then have "take 48 (sent (send_read_req req w)) =
      enc_rdma_rreq \<lparr>rq_ctrl = seg_ctrl 0x41 (rdma_hdr req) 46, rq_rsvd = send_junk w, rq_ddp_qn = htonl 1,
        rq_ddp_msn = htonl (msn_read w), rq_ddp_mo = 0,
        rq_sink_stag = sge_lkey g, rq_sink_to = sge_addr g, rq_read_size = sge_length g,
        rq_source_stag = swr_rkey req, rq_source_to = swr_remote_addr req\<rparr>"
    using assms(5) by (simp add: read_req_stream_def seg_stream_Cons seg_frame_def mpa_frame_eq mpa_ulpdu_len_concat
        enc_rdma_rreq_def enc_seg_ctrl enc_untagged_def enc_read_req_def read_req_of_def)
  moreover have "(0x41 :: u8) AND 3 = DDP_VERSION" "\<not> bit (0x41 :: u8) 7" "bit (0x41 :: u8) 6" by (simp_all add: DDP_VERSION_def)
  moreover have "ddp_rdmap_ctrl (seg_ctrl 0x41 (rdma_hdr req) 46) AND DDP_FLAG_TAGGED = 0"
    using seg_ctrl_flags(1) [of "0x41" "rdma_hdr req" 46] by simp
  ultimately show ?thesis
    by (intro exI [of _ "seg_ctrl 0x41 (rdma_hdr req) 46"])
      (simp add: seg_ctrl_fields seg_ctrl_flags(2) rdma_hdr_fields)
qed

end
